(* ===== verification/Prelude.thy ===== *)
theory Prelude
  imports Main "HOL-Library.Word"
begin

text \<open>
  Shared vocabulary of the development: the machine integers of the source as
  fixed-width words, the result type of the fallible functions, little-endian
  integer images (\<open>to_le_bytes\<close> / \<open>from_le_bytes\<close>), slice indexing, and the
  lemmas on lists and sorted association lists that the component theories
  share.  The collection \<open>codec_simps\<close> carries the rewrite rules that undo an
  encoder in front of an arbitrary rest of the input.
\<close>

named_theorems codec_simps \<open>decoding an encoded prefix\<close>

type_synonym byte = "8 word"
type_synonym u8 = "8 word"
type_synonym u16 = "16 word"
type_synonym u32 = "32 word"
type_synonym u64 = "64 word"
type_synonym i64 = "64 word"

abbreviation Ok :: "'a \<Rightarrow> 'e + 'a" where
  "Ok \<equiv> Inr"

abbreviation Err :: "'e \<Rightarrow> 'e + 'a" where
  "Err \<equiv> Inl"

text \<open>The \<open>?\<close> operator of the source on a \<open>Result\<close>.\<close>

fun try_res :: "'e + 'a \<Rightarrow> ('a \<Rightarrow> 'e + 'b) \<Rightarrow> 'e + 'b" where
  "try_res (Inl e) f = Inl e"
| "try_res (Inr x) f = f x"

text \<open>A slice expression \<open>data[a..b]\<close> whose bounds have been checked.\<close>

definition slice :: "nat \<Rightarrow> nat \<Rightarrow> 'a list \<Rightarrow> 'a list" where
  "slice a b xs = take (b - a) (drop a xs)"

text \<open>Little-endian image of a natural number on \<open>k\<close> bytes, and its reading.\<close>

primrec le_bytes :: "nat \<Rightarrow> nat \<Rightarrow> byte list" where
  "le_bytes 0 n = []"
| "le_bytes (Suc k) n = of_nat (n mod 256) # le_bytes k (n div 256)"

primrec le_nat :: "byte list \<Rightarrow> nat" where
  "le_nat [] = 0"
| "le_nat (b # bs) = unat b + 256 * le_nat bs"

definition u16_to_le_bytes :: "u16 \<Rightarrow> byte list" where
  "u16_to_le_bytes w = le_bytes 2 (unat w)"

definition u32_to_le_bytes :: "u32 \<Rightarrow> byte list" where
  "u32_to_le_bytes w = le_bytes 4 (unat w)"

definition u64_to_le_bytes :: "u64 \<Rightarrow> byte list" where
  "u64_to_le_bytes w = le_bytes 8 (unat w)"

definition u16_from_le_bytes :: "byte list \<Rightarrow> u16" where
  "u16_from_le_bytes bs = of_nat (le_nat bs)"

definition u32_from_le_bytes :: "byte list \<Rightarrow> u32" where
  "u32_from_le_bytes bs = of_nat (le_nat bs)"

definition u64_from_le_bytes :: "byte list \<Rightarrow> u64" where
  "u64_from_le_bytes bs = of_nat (le_nat bs)"

subsection \<open>Words\<close>

lemma unat_less_pow: "unat (w :: 'a::len word) < 2 ^ LENGTH('a)"
  by (rule unsigned_less)

lemma unat_byte_less: "unat (b :: byte) < 256"
  using unat_less_pow [of b] by simp

lemma unat_ucast_byte_u64 [simp]: "unat (ucast (b :: byte) :: u64) = unat b"
  using unat_byte_less [of b] by (simp add: unsigned_ucast_eq take_bit_eq_mod)

lemma word_less_succ_nonzero: "x + 1 \<noteq> 0 \<Longrightarrow> x < x + (1 :: 'a::len word)"
  by (metis add.commute add.right_inverse inc_less_eq_triv_imp not_le)

lemma word_less_succ: "x < y \<Longrightarrow> x < x + (1 :: 'a::len word)"
  by (metis (no_types, lifting) add_cancel_left_right inc_i leI nless_le
      olen_add_eqv word_less_1)

subsection \<open>Results\<close>

lemma try_res_eq_Ok:
  "try_res r f = Inr y \<longleftrightarrow> (\<exists>x. r = Inr x \<and> f x = Inr y)"
  by (cases r) auto

subsection \<open>Slices\<close>

lemma length_slice [simp]: "length (slice a b xs) = min (b - a) (length xs - a)"
  by (simp add: slice_def min.commute)

lemma slice_append_right [simp]:
  "length xs \<le> a \<Longrightarrow> slice a b (xs @ ys) = slice (a - length xs) (b - length xs) ys"
  by (simp add: slice_def)

lemma slice_0_append [simp]: "length xs = b \<Longrightarrow> slice 0 b (xs @ ys) = xs"
  by (simp add: slice_def)

lemma slice_Cons_Suc [simp]: "0 < a \<Longrightarrow> slice a b (x # xs) = slice (a - 1) (b - 1) xs"
  by (cases a) (auto simp: slice_def)

lemma slice_append_left [simp]: "b \<le> length xs \<Longrightarrow> slice a b (xs @ ys) = slice a b xs"
  by (simp add: slice_def)

lemma slice_exact [simp]: "length xs \<le> b \<Longrightarrow> slice 0 b xs = xs"
  by (simp add: slice_def)

lemma drop_exact_append [simp]: "length xs = n \<Longrightarrow> drop n (xs @ ys) = ys"
  by simp

subsection \<open>Little-endian images\<close>

lemma length_le_bytes [simp]: "length (le_bytes k n) = k"
  by (induction k arbitrary: n) auto

lemma unat_byte_of_nat_mod [simp]: "unat (of_nat (n mod 256) :: byte) = n mod 256"
  by (simp add: unat_of_nat)

lemma le_nat_le_bytes: "le_nat (le_bytes k n) = n mod 256 ^ k"
  by (induction k arbitrary: n) (simp_all add: mod_mult2_eq)

lemma le_nat_le_bytes_id: "n < 256 ^ k \<Longrightarrow> le_nat (le_bytes k n) = n"
  by (simp add: le_nat_le_bytes)

lemma le_nat_bound: "le_nat bs < 256 ^ length bs"
proof (induction bs)
  case (Cons b bs)
  then show ?case
    using unat_byte_less [of b] by simp
qed simp

lemma le_bytes_le_nat: "le_bytes (length bs) (le_nat bs) = bs"
proof (induction bs)
  case (Cons b bs)
  then show ?case
    using unat_byte_less [of b] by simp
qed simp

lemma le_nat_append: "le_nat (xs @ ys) = le_nat xs + 256 ^ length xs * le_nat ys"
  by (induction xs) (simp_all add: algebra_simps)

lemma le_nat_replicate_0 [simp]: "le_nat (replicate n 0) = 0"
  by (induction n) auto

lemma take_le_bytes: "k \<le> n \<Longrightarrow> take k (le_bytes n v) = le_bytes k v"
proof (induction k arbitrary: n v)
  case (Suc k)
  then show ?case
    by (cases n) auto
qed simp

lemma le_nat_take: "le_nat (take k bs) = le_nat bs mod 256 ^ k"
proof (cases "k \<le> length bs")
  case True
  then have "le_nat (take k bs) < 256 ^ k"
    using le_nat_bound [of "take k bs"] by simp
  moreover have "le_nat bs = le_nat (take k bs) + 256 ^ k * le_nat (drop k bs)"
    using le_nat_append [of "take k bs" "drop k bs"] True by simp
  ultimately show ?thesis
    by (metis mod_less mod_mult_self2)
next
  case False
  then have "le_nat bs < 256 ^ k"
    using le_nat_bound [of bs]
    by (meson less_le_trans nat_le_linear one_le_numeral power_increasing)
  then show ?thesis
    using False by simp
qed

lemma length_u16_to_le_bytes [simp]: "length (u16_to_le_bytes w) = 2"
  by (simp add: u16_to_le_bytes_def)

lemma length_u32_to_le_bytes [simp]: "length (u32_to_le_bytes w) = 4"
  by (simp add: u32_to_le_bytes_def)

lemma length_u64_to_le_bytes [simp]: "length (u64_to_le_bytes w) = 8"
  by (simp add: u64_to_le_bytes_def)

lemma u16_from_to_le_bytes [simp, codec_simps]: "u16_from_le_bytes (u16_to_le_bytes w) = w"
  using unat_less_pow [of w]
  by (simp add: u16_from_le_bytes_def u16_to_le_bytes_def le_nat_le_bytes)

lemma u32_from_to_le_bytes [simp, codec_simps]: "u32_from_le_bytes (u32_to_le_bytes w) = w"
  using unat_less_pow [of w]
  by (simp add: u32_from_le_bytes_def u32_to_le_bytes_def le_nat_le_bytes)

lemma u64_from_to_le_bytes [simp, codec_simps]: "u64_from_le_bytes (u64_to_le_bytes w) = w"
  using unat_less_pow [of w]
  by (simp add: u64_from_le_bytes_def u64_to_le_bytes_def le_nat_le_bytes)

end
