(* ===== verification/Committed_Watermark.thy ===== *)
theory Committed_Watermark
  imports Prelude
begin

text \<open>
  The committed-LSN watermark of the lock-free durable write path
  (\<open>persistent_artrie/core/committed_watermark.rs\<close>).  LSNs are 64-bit words.
  \<open>mark_committed\<close> runs under a mutex, so each call is one atomic transition of
  the record; a run of the program is the sequence of its calls.  The lemmas
  show that whatever the order of the calls, the watermark is the end of the
  longest contiguous run of committed LSNs above the base.

  The argument is shared with the log writer's segment frontier, so it is made
  once in the locale \<open>contiguous_frontier\<close>: a state whose calls contribute LSNs,
  an invariant tying the state to the LSNs contributed so far, and the laws
  that the frontier closes the run and stops at the first gap, for calls that
  contribute valid LSNs only.
\<close>

locale contiguous_frontier =
  fixes frontier :: "'s \<Rightarrow> u64"
    and step :: "'c \<Rightarrow> 's \<Rightarrow> 's"
    and contributes :: "'c \<Rightarrow> u64 set"
    and valid :: "u64 \<Rightarrow> bool"
    and tracked :: "u64 \<Rightarrow> u64 set \<Rightarrow> 's \<Rightarrow> bool"
  assumes tracked_step: "tracked base S s \<Longrightarrow> \<forall>l\<in>contributes c. valid l \<Longrightarrow>
      tracked base (S \<union> contributes c) (step c s)"
    and tracked_closed: "tracked base S s \<Longrightarrow> base \<le> frontier s \<and> {base<..frontier s} \<subseteq> S"
    and tracked_gap: "tracked base S s \<Longrightarrow> frontier s < v \<Longrightarrow> frontier s + 1 \<notin> S"
begin

lemma tracked_run:
  "tracked base S s \<Longrightarrow> \<forall>l\<in>\<Union> (contributes ` set cs). valid l \<Longrightarrow>
   tracked base (S \<union> \<Union> (contributes ` set cs)) (fold step cs s)"
proof (induction cs arbitrary: S s)
  case (Cons c cs)
  then have "tracked base (S \<union> contributes c) (step c s)"
    by (intro tracked_step) auto
  from Cons.IH [OF this] Cons.prems(2) show ?case
    by (simp add: Un_assoc)
qed simp

lemma frontier_greatest:
  assumes "tracked base S s" and "{base<..v} \<subseteq> S"
  shows "v \<le> frontier s"
proof (rule ccontr)
  assume "\<not> v \<le> frontier s"
  then have gt: "frontier s < v"
    by simp
  have "base < frontier s + 1"
    using tracked_closed [OF assms(1)] word_less_succ [OF gt] by (meson le_less_trans)
  moreover have "frontier s + 1 \<le> v"
    using gt by (rule inc_le)
  ultimately show False
    using tracked_gap [OF assms(1) gt] assms(2) by auto
qed

lemma frontier_run:
  assumes "tracked base {} s" and "\<forall>l\<in>\<Union> (contributes ` set cs). valid l"
  shows "frontier (fold step cs s) =
    Max {v. base \<le> v \<and> {base<..v} \<subseteq> \<Union> (contributes ` set cs)}"
proof (rule Max_eqI [symmetric])
  have inv: "tracked base (\<Union> (contributes ` set cs)) (fold step cs s)"
    using tracked_run [OF assms] by simp
  show "finite {v. base \<le> v \<and> {base<..v} \<subseteq> \<Union> (contributes ` set cs)}"
    by simp
  show "v \<le> frontier (fold step cs s)"
    if "v \<in> {v. base \<le> v \<and> {base<..v} \<subseteq> \<Union> (contributes ` set cs)}" for v
    using that frontier_greatest [OF inv] by simp
  show "frontier (fold step cs s) \<in> {v. base \<le> v \<and> {base<..v} \<subseteq> \<Union> (contributes ` set cs)}"
    using tracked_closed [OF inv] by simp
qed

end

record committed_watermark =
  contiguous :: u64
  pending :: "u64 set"
  image_coverage_lsn :: u64

definition watermark_new :: "u64 \<Rightarrow> committed_watermark" where
  "watermark_new base = \<lparr> contiguous = base, pending = {}, image_coverage_lsn = 0 \<rparr>"

definition set_recovery_image_coverage :: "u64 \<Rightarrow> committed_watermark \<Rightarrow> committed_watermark" where
  "set_recovery_image_coverage lsn w =
     w\<lparr> image_coverage_lsn := max (image_coverage_lsn w) lsn \<rparr>"

definition take_recovery_image_coverage :: "committed_watermark \<Rightarrow> u64 \<times> committed_watermark" where
  "take_recovery_image_coverage w = (image_coverage_lsn w, w\<lparr> image_coverage_lsn := 0 \<rparr>)"

definition watermark :: "committed_watermark \<Rightarrow> u64" where
  "watermark w = contiguous w"

text \<open>The \<open>while pending.remove(&(cur + 1)) { cur += 1; }\<close> loop.\<close>

function drain_pending :: "u64 \<Rightarrow> u64 set \<Rightarrow> u64 \<times> u64 set" where
  "drain_pending cur p =
     (if cur + 1 \<in> p then drain_pending (cur + 1) (p - {cur + 1}) else (cur, p))"
  by pat_completeness auto
termination
proof (relation "measure (\<lambda>(cur, p). card p)")
  show "((cur + 1, p - {cur + 1}), cur, p) \<in> measure (\<lambda>(cur, p). card p)"
    if "cur + 1 \<in> p" for cur :: u64 and p
    using that card_Diff1_less [of p "cur + 1"] by simp
qed simp

declare drain_pending.simps [simp del]

definition mark_committed :: "u64 \<Rightarrow> committed_watermark \<Rightarrow> committed_watermark" where
  "mark_committed lsn w =
     (if lsn \<le> contiguous w then w
      else
        let (cur, p) = drain_pending (contiguous w) (insert lsn (pending w))
        in w\<lparr> contiguous := cur, pending := p \<rparr>)"

text \<open>The calls a running process makes on the shared watermark.\<close>

datatype watermark_call =
    MarkCommitted u64
  | SetImageCoverage u64
  | TakeImageCoverage

fun watermark_step :: "watermark_call \<Rightarrow> committed_watermark \<Rightarrow> committed_watermark" where
  "watermark_step (MarkCommitted lsn) w = mark_committed lsn w"
| "watermark_step (SetImageCoverage lsn) w = set_recovery_image_coverage lsn w"
| "watermark_step TakeImageCoverage w = snd (take_recovery_image_coverage w)"

fun marked :: "watermark_call \<Rightarrow> u64 set" where
  "marked (MarkCommitted lsn) = {lsn}"
| "marked (SetImageCoverage lsn) = {}"
| "marked TakeImageCoverage = {}"

definition watermark_run :: "watermark_call list \<Rightarrow> u64 \<Rightarrow> committed_watermark" where
  "watermark_run cs base = fold watermark_step cs (watermark_new base)"

text \<open>
  The invariant relating the record to the set \<open>S\<close> of LSNs marked so far.
\<close>

definition watermark_inv :: "u64 \<Rightarrow> u64 set \<Rightarrow> committed_watermark \<Rightarrow> bool" where
  "watermark_inv base S w \<longleftrightarrow>
     base \<le> contiguous w \<and> {base<..contiguous w} \<subseteq> S \<and>
     pending w = {l \<in> S. contiguous w < l} \<and> contiguous w + 1 \<notin> pending w"

lemma drain_pending_spec:
  assumes "drain_pending cur p = (c, q)" and "0 \<notin> p"
  shows "cur \<le> c \<and> {cur<..c} \<subseteq> p \<and> q = p - {cur<..c} \<and> c + 1 \<notin> q"
  using assms
proof (induction cur p rule: drain_pending.induct)
  case (1 cur p)
  show ?case
  proof (cases "cur + 1 \<in> p")
    case True
    then have "cur + 1 \<noteq> 0"
      using "1.prems"(2) by metis
    then have lt: "cur < cur + 1"
      by (rule word_less_succ_nonzero)
    have "drain_pending (cur + 1) (p - {cur + 1}) = (c, q)"
      using "1.prems"(1) True by (simp add: drain_pending.simps [of cur])
    then have IH: "cur + 1 \<le> c" "{cur + 1<..c} \<subseteq> p" "q = p - {cur + 1} - {cur + 1<..c}" "c + 1 \<notin> q"
      using "1.IH" [OF True] "1.prems"(2) by auto
    have "{cur<..c} = insert (cur + 1) {cur + 1<..c}"
      using lt IH(1) inc_le [of cur] by force
    then show ?thesis
      using IH lt True by auto
  next
    case False
    then show ?thesis
      using "1.prems" by (auto simp: drain_pending.simps [of cur])
  qed
qed

lemma mark_committed_inv:
  assumes "watermark_inv base S w"
  shows "watermark_inv base (insert lsn S) (mark_committed lsn w)"
proof (cases "lsn \<le> contiguous w")
  case True
  then show ?thesis
    using assms by (auto simp: watermark_inv_def mark_committed_def)
next
  case False
  obtain c q where d: "drain_pending (contiguous w) (insert lsn (pending w)) = (c, q)"
    by fastforce
  have above: "\<forall>l\<in>insert lsn (pending w). contiguous w < l"
    using False assms by (auto simp: watermark_inv_def)
  then have "0 \<notin> insert lsn (pending w)"
    by (metis word_not_simps(1))
  note spec = drain_pending_spec [OF d this]
  have "{base<..c} \<subseteq> insert lsn S"
  proof
    fix l
    assume "l \<in> {base<..c}"
    then consider "l \<in> {base<..contiguous w}" | "l \<in> {contiguous w<..c}"
      by fastforce
    then show "l \<in> insert lsn S"
      using spec assms by cases (auto simp: watermark_inv_def)
  qed
  then show ?thesis
    using False spec assms d by (auto simp: watermark_inv_def mark_committed_def)
qed

lemma watermark_step_inv:
  "watermark_inv base S w \<Longrightarrow> watermark_inv base (S \<union> marked c) (watermark_step c w)"
proof (cases c)
  case (MarkCommitted lsn)
  then show ?thesis
    if "watermark_inv base S w"
    using mark_committed_inv [OF that, of lsn] by simp
qed (auto simp: set_recovery_image_coverage_def take_recovery_image_coverage_def watermark_inv_def)

interpretation committed: contiguous_frontier
  watermark watermark_step marked "\<lambda>_. True" watermark_inv
proof unfold_locales
  show "watermark_inv base (S \<union> marked c) (watermark_step c w)"
    if "watermark_inv base S w" for base S w c
    using that by (rule watermark_step_inv)
qed (auto simp: watermark_def watermark_inv_def dest: word_less_succ)

text \<open>
  C7: whatever calls the process makes on the watermark and in whatever order
  the LSNs commit, \<open>watermark()\<close> is the largest \<open>v\<close> such that every LSN above
  the recovered base and up to \<open>v\<close> has been marked committed.  Duplicated marks
  and image-coverage calls do not influence it.
\<close>

theorem watermark_is_largest_contiguous:
  "watermark (watermark_run cs base) = Max {v. base \<le> v \<and> {base<..v} \<subseteq> \<Union> (marked ` set cs)}"
  unfolding watermark_run_def
  by (rule committed.frontier_run) (simp_all add: watermark_inv_def watermark_new_def)

end
