(* ===== verification/Compact_Encoding.thy ===== *)
theory Compact_Encoding
  imports Prelude "HOL-Library.Monad_Syntax"
begin

unbundle bit_operations_syntax

text \<open>
  The compact byte-node format (\<open>persistent_artrie/core/compact_encoding.rs\<close>):
  biased varints, fixed-width pointers, the two-byte packed header with its
  optional extended child count, and the node encoder and decoder.  A slice
  access that would panic makes the operation return \<open>None\<close>; a \<open>&mut usize\<close>
  cursor is returned next to the value.  The lemmas show that every varint and
  every node within the format's limits is read back exactly, in front of any
  following bytes, and that the branchless varint reader agrees with the plain
  one.
\<close>

subsection \<open>Header\<close>

record compact_header =
  ch_ptr_width :: u8
  ch_num_children :: u8
  ch_has_value :: bool
  ch_has_prefix :: bool
  ch_prefix_len :: u8
  ch_node_type :: u8

definition COMPACT_HEADER_SIZE :: nat where
  "COMPACT_HEADER_SIZE = 2"

definition compact_header_new :: "u8 \<Rightarrow> u8 \<Rightarrow> bool \<Rightarrow> u8 \<Rightarrow> u8 \<Rightarrow> compact_header" where
  "compact_header_new ptr_width num_children has_value prefix_len node_type =
     \<lparr> ch_ptr_width = ptr_width, ch_num_children = num_children, ch_has_value = has_value,
       ch_has_prefix = (0 < prefix_len), ch_prefix_len = prefix_len, ch_node_type = node_type \<rparr>"

definition compact_header_to_bytes :: "compact_header \<Rightarrow> byte list" where
  "compact_header_to_bytes h =
     (let stored_children = min (ch_num_children h) 7;
          b0 = ((ch_ptr_width h - 1) AND 7) OR push_bit 3 (stored_children AND 7)
            OR push_bit 6 (of_bool (ch_has_value h)) OR push_bit 7 (of_bool (ch_has_prefix h));
          b1 = (ch_prefix_len h AND 15) OR push_bit 4 (ch_node_type h AND 3)
            OR (if 7 < ch_num_children h then 0x40 else 0)
      in [b0, b1])"

definition to_bytes_with_extended :: "compact_header \<Rightarrow> byte list \<times> byte option" where
  "to_bytes_with_extended h =
     (if 7 < ch_num_children h then (compact_header_to_bytes h, Some (ch_num_children h))
      else (compact_header_to_bytes h, None))"

definition compact_header_from_bytes :: "byte \<Rightarrow> byte \<Rightarrow> compact_header" where
  "compact_header_from_bytes b0 b1 =
     (let ptr_width = (b0 AND 7) + 1;
          stored_children = drop_bit 3 b0 AND 7;
          has_value = (drop_bit 6 b0 AND 1 \<noteq> 0);
          has_prefix = (drop_bit 7 b0 \<noteq> 0);
          prefix_len = b1 AND 15;
          node_type = drop_bit 4 b1 AND 3;
          has_extended = (drop_bit 6 b1 AND 1 \<noteq> 0);
          num_children = (if has_extended then 7 else stored_children)
      in \<lparr> ch_ptr_width = ptr_width, ch_num_children = num_children, ch_has_value = has_value,
           ch_has_prefix = has_prefix, ch_prefix_len = prefix_len, ch_node_type = node_type \<rparr>)"

definition from_bytes_with_extended :: "byte list \<Rightarrow> nat \<Rightarrow> (compact_header \<times> nat) option" where
  "from_bytes_with_extended data offset =
     (if offset + 1 < length data then
        let header = compact_header_from_bytes (data ! offset) (data ! (offset + 1));
            offset' = offset + COMPACT_HEADER_SIZE
        in if ch_num_children header = 7 \<and> data ! (offset' - 1) AND 0x40 \<noteq> 0 \<and> offset' < length data
           then Some (header\<lparr> ch_num_children := data ! offset' \<rparr>, offset' + 1)
           else Some (header, offset')
      else None)"

definition needs_extended_count :: "compact_header \<Rightarrow> bool" where
  "needs_extended_count h = (7 < ch_num_children h)"

definition compact_header_data_size :: "compact_header \<Rightarrow> nat" where
  "compact_header_data_size h =
     COMPACT_HEADER_SIZE + (if needs_extended_count h then 1 else 0)
       + unat (ch_prefix_len h) + unat (ch_num_children h)
       + unat (ch_num_children h) * unat (ch_ptr_width h)
       + (if ch_has_value h then unat (ch_ptr_width h) else 0)"

subsection \<open>Varints\<close>

definition VARINT_LEN_BIAS :: byte where
  "VARINT_LEN_BIAS = 247"

definition VARINT_MAX_SINGLE_BYTE :: u64 where
  "VARINT_MAX_SINGLE_BYTE = ucast VARINT_LEN_BIAS"

text \<open>\<open>u64::leading_zeros\<close>: the zero bits above the highest one bit.\<close>

definition leading_zeros :: "u64 \<Rightarrow> nat" where
  "leading_zeros w = length (takeWhile Not (map (bit w) (rev [0..<64])))"

definition required_bytes_for_value :: "u64 \<Rightarrow> nat" where
  "required_bytes_for_value value =
     (if value = 0 then 1 else (64 - leading_zeros value + 7) div 8)"

definition write_varint_to_vec :: "u64 \<Rightarrow> byte list \<Rightarrow> byte list" where
  "write_varint_to_vec value out =
     (if value \<le> VARINT_MAX_SINGLE_BYTE then out @ [ucast value]
      else let bytes = u64_to_le_bytes value; len = required_bytes_for_value value
           in out @ [VARINT_LEN_BIAS + of_nat len] @ take len bytes)"

text \<open>\<open>write_varint\<close> into an in-memory writer, which never fails; the byte count is returned.\<close>

definition write_varint :: "u64 \<Rightarrow> byte list \<Rightarrow> byte list \<times> nat" where
  "write_varint value writer =
     (if value \<le> VARINT_MAX_SINGLE_BYTE then (writer @ [ucast value], 1)
      else let bytes = u64_to_le_bytes value; len = required_bytes_for_value value
           in ((writer @ [VARINT_LEN_BIAS + of_nat len]) @ take len bytes, 1 + len))"

text \<open>\<open>read_exact\<close> on an in-memory reader: \<open>None\<close> is the \<open>UnexpectedEof\<close> error.\<close>

definition read_exact :: "nat \<Rightarrow> byte list \<Rightarrow> (byte list \<times> byte list) option" where
  "read_exact n reader = (if n \<le> length reader then Some (take n reader, drop n reader) else None)"

text \<open>A byte buffer \<open>[0u8; 8]\<close> whose first bytes are overwritten by \<open>bs\<close>.\<close>

definition zero_padded :: "byte list \<Rightarrow> byte list" where
  "zero_padded bs = bs @ replicate (8 - length bs) 0"

definition read_varint :: "byte list \<Rightarrow> ((u64 \<times> nat) \<times> byte list) option" where
  "read_varint reader = do {
     (first, reader) \<leftarrow> read_exact 1 reader;
     if first ! 0 \<le> VARINT_LEN_BIAS then Some ((ucast (first ! 0), 1), reader)
     else do {
       let len = unat (first ! 0 - VARINT_LEN_BIAS);
       (bytes, reader) \<leftarrow> read_exact len reader;
       Some ((u64_from_le_bytes (zero_padded bytes), 1 + len), reader)
     }
   }"

definition read_varint_from_slice :: "byte list \<Rightarrow> (u64 \<times> nat) option" where
  "read_varint_from_slice data =
     (if data = [] then None
      else let first = data ! 0 in
        if first \<le> VARINT_LEN_BIAS then Some (ucast first, 1)
        else let len = unat (first - VARINT_LEN_BIAS) in
          if 1 + len \<le> length data
          then Some (u64_from_le_bytes (zero_padded (slice 1 (1 + len) data)), 1 + len)
          else None)"

text \<open>The unaligned eight-byte read is the one of a little-endian target.\<close>

definition read_varint_branchless :: "byte list \<Rightarrow> (u64 \<times> nat) option" where
  "read_varint_branchless data =
     (if data = [] then None
      else let first = data ! 0 in
        if first \<le> VARINT_LEN_BIAS then Some (ucast first, 1)
        else
          let len = unat (first - VARINT_LEN_BIAS);
              rest = (if 9 \<le> length data then u64_from_le_bytes (slice 1 9 data)
                      else let copy_len = min (length data - 1) 8
                           in u64_from_le_bytes (zero_padded (slice 1 (1 + copy_len) data)));
              zeros = 64 - len * 8;
              value = (if zeros < 64 then drop_bit zeros (push_bit zeros rest) else rest)
          in Some (value, len + 1))"

definition varint_size :: "u64 \<Rightarrow> nat" where
  "varint_size value =
     (if value \<le> VARINT_MAX_SINGLE_BYTE then 1 else 1 + required_bytes_for_value value)"

subsection \<open>Fixed-width values\<close>

definition determine_ptr_width :: "u64 \<Rightarrow> u8" where
  "determine_ptr_width max_offset =
     (if max_offset \<le> 0xFF then 1
      else if max_offset \<le> 0xFFFF then 2
      else if max_offset \<le> 0xFFFFFF then 3
      else if max_offset \<le> 0xFFFFFFFF then 4
      else if max_offset \<le> 0xFFFFFFFFFF then 5
      else 6)"

definition write_fixed_width_to_vec :: "u64 \<Rightarrow> u8 \<Rightarrow> byte list \<Rightarrow> byte list option" where
  "write_fixed_width_to_vec value width out =
     (if unat width \<le> 8 then Some (out @ take (unat width) (u64_to_le_bytes value)) else None)"

definition read_fixed_width_from_slice :: "byte list \<Rightarrow> nat \<Rightarrow> u8 \<Rightarrow> (u64 \<times> nat) option" where
  "read_fixed_width_from_slice data offset width =
     (let end = offset + unat width in
      if unat width \<le> 8 \<and> end \<le> length data
      then Some (u64_from_le_bytes (zero_padded (slice offset end data)), end)
      else None)"

primrec read_n_values_from_slice ::
    "byte list \<Rightarrow> nat \<Rightarrow> nat \<Rightarrow> u8 \<Rightarrow> (u64 list \<times> nat) option" where
  "read_n_values_from_slice data offset 0 width = Some ([], offset)"
| "read_n_values_from_slice data offset (Suc count) width = do {
     (v, offset) \<leftarrow> read_fixed_width_from_slice data offset width;
     (vs, offset) \<leftarrow> read_n_values_from_slice data offset count width;
     Some (v # vs, offset)
   }"

primrec write_n_values_to_vec :: "u64 list \<Rightarrow> u8 \<Rightarrow> byte list \<Rightarrow> byte list option" where
  "write_n_values_to_vec [] width out = Some out"
| "write_n_values_to_vec (v # vs) width out = do {
     out \<leftarrow> write_fixed_width_to_vec v width out;
     write_n_values_to_vec vs width out
   }"

subsection \<open>Nodes\<close>

definition encode_compact_byte_node ::
    "compact_header \<Rightarrow> byte list \<Rightarrow> byte list \<Rightarrow> u64 list \<Rightarrow> u64 option \<Rightarrow> byte list option" where
  "encode_compact_byte_node header prefix keys children value_ptr =
     (if length keys = length children then do {
        let (header_bytes, extended_count) = to_bytes_with_extended header;
        let out = header_bytes;
        let out = (case extended_count of Some count \<Rightarrow> out @ [count] | None \<Rightarrow> out);
        let out = out @ prefix;
        let out = out @ keys;
        out \<leftarrow> write_n_values_to_vec children (ch_ptr_width header) out;
        (case value_ptr of
           Some vp \<Rightarrow> write_fixed_width_to_vec vp (ch_ptr_width header) out
         | None \<Rightarrow> Some out)
      } else None)"

definition encode_compact_byte_node_auto ::
    "u8 \<Rightarrow> byte list \<Rightarrow> byte list \<Rightarrow> u64 list \<Rightarrow> u64 option \<Rightarrow> u64 \<Rightarrow> byte list option" where
  "encode_compact_byte_node_auto node_type prefix keys children value_ptr max_arena_offset =
     (if length keys = length children then
        let max_ptr = max (max (fold max children 0) (case value_ptr of Some v \<Rightarrow> v | None \<Rightarrow> 0))
                          max_arena_offset;
            ptr_width = determine_ptr_width max_ptr;
            header = compact_header_new ptr_width (of_nat (length keys)) (value_ptr \<noteq> None)
                       (of_nat (length prefix)) node_type
        in encode_compact_byte_node header prefix keys children value_ptr
      else None)"

record decoded_compact_byte_node =
  dn_header :: compact_header
  dn_prefix :: "byte list"
  dn_keys :: "byte list"
  dn_children :: "u64 list"
  dn_value_ptr :: "u64 option"

definition decode_compact_byte_node :: "byte list \<Rightarrow> decoded_compact_byte_node option" where
  "decode_compact_byte_node data = do {
     (header, offset) \<leftarrow> from_bytes_with_extended data 0;
     let plen = unat (ch_prefix_len header);
     let n = unat (ch_num_children header);
     if offset + plen \<le> length data then do {
       let prefix = slice offset (offset + plen) data;
       let offset = offset + plen;
       if offset + n \<le> length data then do {
         let keys = slice offset (offset + n) data;
         let offset = offset + n;
         (children, offset) \<leftarrow> read_n_values_from_slice data offset n (ch_ptr_width header);
         value_ptr \<leftarrow> (if ch_has_value header
           then map_option (\<lambda>(v, _). Some v)
                  (read_fixed_width_from_slice data offset (ch_ptr_width header))
           else Some None);
         Some \<lparr> dn_header = header, dn_prefix = prefix, dn_keys = keys, dn_children = children,
                dn_value_ptr = value_ptr \<rparr>
       } else None
     } else None
   }"

definition compact_byte_node_size :: "nat \<Rightarrow> nat \<Rightarrow> bool \<Rightarrow> u64 \<Rightarrow> nat" where
  "compact_byte_node_size prefix_len num_children has_value max_ptr =
     (let ptr_width = unat (determine_ptr_width max_ptr) in
      COMPACT_HEADER_SIZE + (if 7 < num_children then 1 else 0) + prefix_len + num_children
        + num_children * ptr_width + (if has_value then ptr_width else 0))"

subsection \<open>Varints are read back\<close>

lemma u64_from_zero_padded: "u64_from_le_bytes (zero_padded bs) = of_nat (le_nat bs)"
  by (simp add: u64_from_le_bytes_def zero_padded_def le_nat_append)

lemma read_back_truncated:
  assumes "k \<le> 8" and "unat v < 256 ^ k"
  shows "u64_from_le_bytes (zero_padded (take k (u64_to_le_bytes v))) = v"
  using assms by (simp add: u64_from_zero_padded u64_to_le_bytes_def take_le_bytes le_nat_le_bytes)

lemma leading_zeros_le: "leading_zeros w \<le> 64"
  using length_takeWhile_le [of Not "map (bit w) (rev [0..<64])"]
  by (simp add: leading_zeros_def)

lemma bit_above_leading_zeros:
  assumes "64 - leading_zeros w \<le> k"
  shows "\<not> bit w k"
proof (cases "k < 64")
  case True
  let ?bs = "map (bit w) (rev [0..<64])"
  have lt: "63 - k < length (takeWhile Not ?bs)"
    using assms True leading_zeros_le [of w] by (simp add: leading_zeros_def)
  then have "takeWhile Not ?bs ! (63 - k) = ?bs ! (63 - k)"
    by (rule takeWhile_nth)
  moreover have "\<not> takeWhile Not ?bs ! (63 - k)"
    using nth_mem [OF lt] set_takeWhileD by metis
  ultimately show ?thesis
    using True by (simp add: rev_nth)
next
  case False
  then show ?thesis
    using bit_imp_le_length by fastforce
qed

lemma unat_less_leading_zeros: "unat w < 2 ^ (64 - leading_zeros w)"
proof -
  have "n < 64 - leading_zeros w" if "bit w n" for n
    using that bit_above_leading_zeros [of w n] by (meson not_less)
  then have "take_bit (64 - leading_zeros w) w = w"
    by (intro bit_word_eqI) (auto simp: bit_simps)
  then show ?thesis
    by (metis take_bit_nat_less_exp unsigned_take_bit_eq)
qed

lemma required_bytes_le: "required_bytes_for_value v \<le> 8"
  by (auto simp: required_bytes_for_value_def)

lemma required_bytes_enough: "unat v < 256 ^ required_bytes_for_value v"
proof (cases "v = 0")
  case False
  let ?n = "64 - leading_zeros v"
  have "unat v < 2 ^ ?n"
    by (rule unat_less_leading_zeros)
  also have "(2::nat) ^ ?n \<le> 2 ^ (8 * ((?n + 7) div 8))"
    by (rule power_increasing) auto
  also have "(2::nat) ^ (8 * ((?n + 7) div 8)) = 256 ^ ((?n + 7) div 8)"
    by (simp add: power_mult)
  finally show ?thesis
    using False by (simp add: required_bytes_for_value_def)
qed (simp add: required_bytes_for_value_def)

lemma required_bytes_pos: "0 < required_bytes_for_value v"
  using required_bytes_enough [of v] by (cases "required_bytes_for_value v")
    (auto simp: required_bytes_for_value_def unat_eq_zero split: if_splits)

lemma length_prefix_byte:
  assumes "0 < len" and "len \<le> 8"
  shows "\<not> VARINT_LEN_BIAS + of_nat len \<le> VARINT_LEN_BIAS"
    and "unat (VARINT_LEN_BIAS + of_nat len - VARINT_LEN_BIAS) = len"
  using assms by (simp_all add: VARINT_LEN_BIAS_def word_le_nat_alt unat_word_ariths unat_of_nat)

lemma single_byte_varint:
  assumes "v \<le> VARINT_MAX_SINGLE_BYTE"
  shows "(ucast v :: byte) \<le> VARINT_LEN_BIAS" and "ucast (ucast v :: byte) = v"
proof -
  have "unat v \<le> 247"
    using assms by (simp add: VARINT_MAX_SINGLE_BYTE_def VARINT_LEN_BIAS_def word_le_nat_alt)
  then have "unat (ucast v :: byte) = unat v"
    by (simp add: unsigned_ucast_eq take_bit_eq_mod)
  then show "(ucast v :: byte) \<le> VARINT_LEN_BIAS" and "ucast (ucast v :: byte) = v"
    using \<open>unat v \<le> 247\<close>
    by (simp_all add: VARINT_LEN_BIAS_def word_le_nat_alt word_unat_eq_iff del: unsigned_ucast_eq)
qed

lemmas varint_defs = write_varint_to_vec_def write_varint_def varint_size_def

lemma write_varint_to_vec_append: "write_varint_to_vec v out = out @ write_varint_to_vec v []"
  by (simp add: write_varint_to_vec_def Let_def)

lemma read_exact_append: "length bs = n \<Longrightarrow> read_exact n (bs @ rest) = Some (bs, rest)"
  by (simp add: read_exact_def)

lemma write_varint_eq: "write_varint v out = (write_varint_to_vec v out, varint_size v)"
  by (simp add: varint_defs Let_def)

lemma length_write_varint: "length (write_varint_to_vec v []) = varint_size v"
  using required_bytes_le [of v] by (simp add: varint_defs Let_def)

lemma read_varint_from_slice_write [codec_simps]:
  "read_varint_from_slice (write_varint_to_vec v [] @ rest) = Some (v, varint_size v)"
proof (cases "v \<le> VARINT_MAX_SINGLE_BYTE")
  case True
  then show ?thesis
    using single_byte_varint [OF True] by (simp add: read_varint_from_slice_def varint_defs)
next
  case False
  let ?n = "required_bytes_for_value v"
  have "length (take ?n (u64_to_le_bytes v)) = ?n"
    using required_bytes_le [of v] by simp
  then show ?thesis
    using False length_prefix_byte [OF required_bytes_pos required_bytes_le, of v]
      read_back_truncated [OF required_bytes_le required_bytes_enough, of v]
    by (simp add: read_varint_from_slice_def varint_defs Let_def)
qed

lemma read_varint_write [codec_simps]:
  "read_varint (write_varint_to_vec v [] @ rest) = Some ((v, varint_size v), rest)"
proof (cases "v \<le> VARINT_MAX_SINGLE_BYTE")
  case True
  then show ?thesis
    using single_byte_varint [OF True] by (simp add: read_varint_def read_exact_def varint_defs)
next
  case False
  let ?n = "required_bytes_for_value v"
  have "read_exact ?n (take ?n (u64_to_le_bytes v) @ rest)
      = Some (take ?n (u64_to_le_bytes v), rest)"
    using required_bytes_le [of v] by (intro read_exact_append) simp
  moreover have "read_exact 1 (b # bs) = Some ([b], bs)" for b bs
    by (simp add: read_exact_def)
  ultimately show ?thesis
    using False length_prefix_byte [OF required_bytes_pos required_bytes_le, of v]
      read_back_truncated [OF required_bytes_le required_bytes_enough, of v]
    by (simp add: read_varint_def varint_defs Let_def)
qed

subsection \<open>The branchless reader\<close>

lemma shift_out_high_bits:
  "zeros \<le> 64 \<Longrightarrow> drop_bit zeros (push_bit zeros w) = take_bit (64 - zeros) (w :: u64)"
  by (rule bit_word_eqI) (auto simp: bit_simps)

lemma take_bit_le_nat:
  assumes "k \<le> 8"
  shows "take_bit (k * 8) (of_nat (le_nat bs) :: u64) = of_nat (le_nat (take k bs))"
proof -
  have "(256::nat) ^ k = 2 ^ (k * 8)"
    using power_mult [of "2::nat" 8 k] by (simp add: mult.commute)
  then have "le_nat (take k bs) = take_bit (k * 8) (le_nat bs)"
    by (simp add: le_nat_take take_bit_eq_mod)
  then show ?thesis
    using assms by (simp add: word_unat_eq_iff unsigned_take_bit_eq unsigned_of_nat min_def)
qed

lemma read_varint_branchless_eq:
  assumes "read_varint_from_slice data = Some r"
  shows "read_varint_branchless data = Some r"
proof (cases "data ! 0 \<le> VARINT_LEN_BIAS")
  case True
  then show ?thesis
    using assms by (auto simp: read_varint_from_slice_def read_varint_branchless_def split: if_splits)
next
  case False
  let ?len = "unat (data ! 0 - VARINT_LEN_BIAS)"
  have ne: "data \<noteq> []" and fits: "1 + ?len \<le> length data"
    and r: "r = (of_nat (le_nat (slice 1 (1 + ?len) data)), 1 + ?len)"
    using assms False
    by (auto simp: read_varint_from_slice_def u64_from_zero_padded Let_def split: if_splits)
  have len: "0 < ?len" "?len \<le> 8"
    using False unat_byte_less [of "data ! 0"]
    by (auto simp: VARINT_LEN_BIAS_def word_le_nat_alt unat_sub word_less_nat_alt not_le
        unat_eq_zero)
  have "take ?len (slice 1 9 data) = slice 1 (1 + ?len) data"
    using len by (simp add: slice_def min_def)
  moreover have "take ?len (slice 1 (length data) data) = slice 1 (1 + ?len) data"
    using len fits by (simp add: slice_def min_def)
  moreover have "64 - (64 - ?len * 8) = ?len * 8" "64 - ?len * 8 < 64"
    using len by auto
  moreover have "u64_from_le_bytes (slice 1 9 data) = of_nat (le_nat (slice 1 9 data))"
    by (simp add: u64_from_le_bytes_def)
  ultimately show ?thesis
    using False ne r len
    by (simp add: read_varint_branchless_def Let_def shift_out_high_bits u64_from_zero_padded
        take_bit_le_nat)
qed

subsection \<open>The packed header is read back\<close>

lemma byte_masks:
  "x AND 7 = take_bit 3 x" "x AND 15 = take_bit 4 x" "x AND 3 = take_bit 2 x" for x :: byte
  by (simp_all add: take_bit_eq_mask mask_eq_exp_minus_1)

lemma byte_flag:
  "(drop_bit n x AND 1 \<noteq> 0) = bit x n" for x :: byte
  by (simp add: bit_iff_odd_drop_bit and_one_eq mod_2_eq_odd)

lemma byte_top_flag: "(drop_bit 7 x \<noteq> 0) = bit x 7" for x :: byte
proof -
  have "drop_bit 7 x = of_bool (bit x 7)"
  proof (rule bit_word_eqI)
    fix n
    show "bit (drop_bit 7 x) n = bit (of_bool (bit x 7) :: byte) n"
      by (cases "n = 0") (auto simp: bit_simps dest: bit_imp_le_length)
  qed
  then show ?thesis
    by simp
qed

lemma byte_and_40: "(x AND 0x40 \<noteq> 0) = bit x 6" for x :: byte
  using and_exp_eq_0_iff_not_bit [of x 6] by simp

lemma header_byte0_fields:
  fixes w c :: byte and v p :: bool
  defines "b \<equiv> (w AND 7) OR push_bit 3 (c AND 7) OR push_bit 6 (of_bool v) OR push_bit 7 (of_bool p)"
  shows "b AND 7 = w AND 7" and "drop_bit 3 b AND 7 = c AND 7" and "bit b 6 = v" and "bit b 7 = p"
proof -
  show "b AND 7 = w AND 7" and "drop_bit 3 b AND 7 = c AND 7"
    unfolding b_def byte_masks by (rule bit_word_eqI; auto simp: bit_simps)+
  show "bit b 6 = v" and "bit b 7 = p"
    unfolding b_def byte_masks by (auto simp: bit_simps)
qed

lemma header_byte1_fields:
  fixes l t :: byte and e :: bool
  defines "b \<equiv> (l AND 15) OR push_bit 4 (t AND 3) OR (if e then 0x40 else 0)"
  shows "b AND 15 = l AND 15" and "drop_bit 4 b AND 3 = t AND 3" and "bit b 6 = e"
proof -
  have b: "b = (l AND 15) OR push_bit 4 (t AND 3) OR push_bit 6 (of_bool e)"
    by (simp add: b_def push_bit_eq_mult)
  show "b AND 15 = l AND 15" and "drop_bit 4 b AND 3 = t AND 3"
    unfolding b byte_masks by (rule bit_word_eqI; auto simp: bit_simps)+
  show "bit b 6 = e"
    unfolding b byte_masks by (auto simp: bit_simps)
qed

definition compact_header_wf :: "compact_header \<Rightarrow> bool" where
  "compact_header_wf h \<longleftrightarrow> 1 \<le> ch_ptr_width h \<and> ch_ptr_width h \<le> 6 \<and> ch_prefix_len h \<le> 12 \<and>
     ch_node_type h \<le> 3"

lemma byte_field_ids:
  fixes x :: byte
  shows "x \<le> 7 \<Longrightarrow> x AND 7 = x" and "x \<le> 15 \<Longrightarrow> x AND 15 = x" and "x \<le> 3 \<Longrightarrow> x AND 3 = x"
  by (simp_all add: byte_masks word_unat_eq_iff unsigned_take_bit_eq take_bit_nat_eq_self_iff
      word_le_nat_alt)

lemma compact_header_from_to:
  assumes "compact_header_wf h"
  shows "\<exists>b0 b1. compact_header_to_bytes h = [b0, b1] \<and>
    compact_header_from_bytes b0 b1 = h\<lparr> ch_num_children := min (ch_num_children h) 7 \<rparr> \<and>
    (b1 AND 0x40 \<noteq> 0) = (7 < ch_num_children h)"
proof -
  define w c where "w = ch_ptr_width h - 1" and "c = min (ch_num_children h) 7"
  define b0 where
    "b0 = (w AND 7) OR push_bit 3 (c AND 7) OR push_bit 6 (of_bool (ch_has_value h))
       OR push_bit 7 (of_bool (ch_has_prefix h))"
  define b1 where
    "b1 = (ch_prefix_len h AND 15) OR push_bit 4 (ch_node_type h AND 3)
       OR (if 7 < ch_num_children h then 0x40 else 0)"
  have "w \<le> 7"
    using assms by (auto simp: w_def compact_header_wf_def word_le_nat_alt unat_sub)
  then have ids: "w AND 7 = w" "c AND 7 = c"
      "ch_prefix_len h AND 15 = ch_prefix_len h" "ch_node_type h AND 3 = ch_node_type h"
    using assms
    by (auto simp: compact_header_wf_def byte_field_ids word_le_nat_alt c_def min_def)
  note fields = header_byte0_fields [of w c "ch_has_value h" "ch_has_prefix h", folded b0_def]
    header_byte1_fields [of "ch_prefix_len h" "ch_node_type h" "7 < ch_num_children h", folded b1_def]
  have "compact_header_to_bytes h = [b0, b1]"
    by (simp only: compact_header_to_bytes_def b0_def b1_def w_def c_def Let_def)
  moreover have "compact_header_from_bytes b0 b1 = h\<lparr> ch_num_children := c \<rparr>"
    unfolding compact_header_from_bytes_def Let_def byte_flag byte_top_flag fields ids
    by (cases h) (auto simp: w_def c_def)
  ultimately show ?thesis
    using byte_and_40 [of b1] fields(7) c_def by blast
qed

lemma from_bytes_with_extended_encoded:
  assumes "compact_header_wf h" and "to_bytes_with_extended h = (hb, ext)"
  shows "from_bytes_with_extended (hb @ (case ext of Some c \<Rightarrow> [c] | None \<Rightarrow> []) @ rest) 0
       = Some (h, length (hb @ (case ext of Some c \<Rightarrow> [c] | None \<Rightarrow> [])))"
proof -
  obtain b0 b1 where b: "compact_header_to_bytes h = [b0, b1]"
      "compact_header_from_bytes b0 b1 = h\<lparr> ch_num_children := min (ch_num_children h) 7 \<rparr>"
      "(b1 AND 0x40 \<noteq> 0) = (7 < ch_num_children h)"
    using compact_header_from_to [OF assms(1)] by blast
  have upd: "h\<lparr> ch_num_children := ch_num_children h \<rparr> = h"
    by (cases h) simp
  show ?thesis
  proof (cases "7 < ch_num_children h")
    case True
    then have "hb = [b0, b1]" "ext = Some (ch_num_children h)" "min (ch_num_children h) 7 = 7"
      using assms(2) b(1) by (auto simp: to_bytes_with_extended_def min_def)
    then show ?thesis
      using True b(2,3) upd by (simp add: from_bytes_with_extended_def COMPACT_HEADER_SIZE_def)
  next
    case False
    then have "hb = [b0, b1]" "ext = None" "min (ch_num_children h) 7 = ch_num_children h"
      using assms(2) b(1) by (auto simp: to_bytes_with_extended_def min_def)
    then show ?thesis
      using False b(2,3) upd
      by (simp add: from_bytes_with_extended_def COMPACT_HEADER_SIZE_def)
  qed
qed

subsection \<open>Nodes are read back\<close>

lemma read_fixed_width_at:
  assumes "length pre = offset" and "unat width \<le> 8" and "unat v < 256 ^ unat width"
  shows "read_fixed_width_from_slice (pre @ take (unat width) (u64_to_le_bytes v) @ rest) offset width
       = Some (v, offset + unat width)"
  using assms read_back_truncated [of "unat width" v]
  by (simp add: read_fixed_width_from_slice_def Let_def)

lemma write_n_values_eq:
  assumes "unat width \<le> 8"
  shows "write_n_values_to_vec vs width out
       = Some (out @ concat (map (\<lambda>v. take (unat width) (u64_to_le_bytes v)) vs))"
  using assms
  by (induction vs arbitrary: out) (simp_all add: write_fixed_width_to_vec_def)

lemma read_n_values_at:
  assumes "length pre = offset" and "unat width \<le> 8" and "\<forall>v\<in>set vs. unat v < 256 ^ unat width"
  shows "read_n_values_from_slice
           (pre @ concat (map (\<lambda>v. take (unat width) (u64_to_le_bytes v)) vs) @ rest)
           offset (length vs) width
       = Some (vs, offset + length vs * unat width)"
  using assms
proof (induction vs arbitrary: pre offset)
  case (Cons v vs)
  let ?e = "\<lambda>v. take (unat width) (u64_to_le_bytes v)"
  have "read_fixed_width_from_slice (pre @ ?e v @ (concat (map ?e vs) @ rest)) offset width
      = Some (v, offset + unat width)"
    using Cons.prems by (intro read_fixed_width_at) auto
  moreover have "read_n_values_from_slice ((pre @ ?e v) @ concat (map ?e vs) @ rest)
      (offset + unat width) (length vs) width = Some (vs, offset + unat width + length vs * unat width)"
    using Cons.prems by (intro Cons.IH) auto
  ultimately show ?case
    by simp
qed simp

lemma determine_ptr_width_enough:
  assumes "v \<le> m" and "m < 0x1000000000000"
  shows "unat v < 256 ^ unat (determine_ptr_width m)"
proof -
  have "unat v \<le> unat m" "unat m < 0x1000000000000"
    using assms by (simp_all add: word_le_nat_alt word_less_nat_alt)
  then show ?thesis
    unfolding determine_ptr_width_def word_le_nat_alt by (simp split: if_split)
qed

lemma determine_ptr_width_range: "1 \<le> determine_ptr_width m" "determine_ptr_width m \<le> 6"
    "unat (determine_ptr_width m) \<le> 8"
  by (simp_all add: determine_ptr_width_def)

lemma fold_max_eq_Max: "fold max xs a = Max (insert a (set xs))"
  by (metis Max.set_eq_fold list.simps(15))

definition node_max_ptr :: "u64 list \<Rightarrow> u64 option \<Rightarrow> u64 \<Rightarrow> u64" where
  "node_max_ptr children value_ptr max_arena_offset =
     max (max (fold max children 0) (case value_ptr of Some v \<Rightarrow> v | None \<Rightarrow> 0)) max_arena_offset"

lemma decode_encoded_node:
  assumes wf: "compact_header_wf h" and "length keys = length children"
    and "unat (ch_prefix_len h) = length pre" and "unat (ch_num_children h) = length keys"
    and "ch_has_value h \<longleftrightarrow> value_ptr \<noteq> None"
    and fits: "\<forall>v\<in>set children \<union> set_option value_ptr. unat v < 256 ^ unat (ch_ptr_width h)"
  shows "\<exists>bs. encode_compact_byte_node h pre keys children value_ptr = Some bs \<and>
     length bs = compact_header_data_size h \<and>
     decode_compact_byte_node (bs @ rest) = Some \<lparr> dn_header = h, dn_prefix = pre, dn_keys = keys,
       dn_children = children, dn_value_ptr = value_ptr \<rparr>"
proof -
  let ?w = "unat (ch_ptr_width h)"
  let ?e = "\<lambda>v. take ?w (u64_to_le_bytes v)"
  obtain hb ext where he: "to_bytes_with_extended h = (hb, ext)"
    by fastforce
  define hd where "hd = hb @ (case ext of Some c \<Rightarrow> [c] | None \<Rightarrow> [])"
  define body where "body = concat (map ?e children)"
  define tl where "tl = (case value_ptr of Some v \<Rightarrow> ?e v | None \<Rightarrow> [])"
  have w: "?w \<le> 8"
    using wf by (auto simp: compact_header_wf_def word_le_nat_alt)
  have hl: "length hd = 2 + (if needs_extended_count h then 1 else 0)"
    using he by (auto simp: hd_def to_bytes_with_extended_def compact_header_to_bytes_def Let_def
        needs_extended_count_def split: if_splits)
  have bl: "length body = length children * ?w"
    using w by (simp add: body_def length_concat o_def sum_list_triv min_def)
  let ?bs = "hd @ pre @ keys @ body @ tl"
  have enc: "encode_compact_byte_node h pre keys children value_ptr = Some ?bs"
    using assms(2) he w
    by (cases ext; cases value_ptr)
      (simp_all add: encode_compact_byte_node_def write_n_values_eq hd_def body_def tl_def
        write_fixed_width_to_vec_def)
  have header: "from_bytes_with_extended (?bs @ rest) 0 = Some (h, length hd)"
    using from_bytes_with_extended_encoded [OF wf he] by (simp add: hd_def)
  have "read_n_values_from_slice ((hd @ pre @ keys) @ body @ (tl @ rest))
      (length hd + length pre + length keys) (length children) (ch_ptr_width h)
    = Some (children, length hd + length pre + length keys + length children * ?w)"
    unfolding body_def using fits w by (intro read_n_values_at) auto
  then have kids: "read_n_values_from_slice (?bs @ rest)
      (length hd + length pre + length keys) (length keys) (ch_ptr_width h)
    = Some (children, length hd + length pre + length keys + length children * ?w)"
    using assms(2) by simp
  have val: "read_fixed_width_from_slice (?bs @ rest)
      (length hd + length pre + length keys + length children * ?w) (ch_ptr_width h)
    = Some (v, length hd + length pre + length keys + length children * ?w + ?w)"
    if "value_ptr = Some v" for v
    using read_fixed_width_at [of "hd @ pre @ keys @ body" _ "ch_ptr_width h" v rest] that fits w bl
    by (simp add: tl_def add.assoc)
  define data where "data = ?bs @ rest"
  have slices: "slice (length hd) (length hd + length pre) data = pre"
      "slice (length hd + length pre) (length hd + length pre + length keys) data = keys"
      "length hd + length pre + length keys \<le> length data"
    by (simp_all add: data_def)
  have "decode_compact_byte_node data = Some \<lparr> dn_header = h, dn_prefix = pre,
      dn_keys = keys, dn_children = children, dn_value_ptr = value_ptr \<rparr>"
    using header kids val assms(3-5) slices unfolding data_def [symmetric]
    by (cases value_ptr) (simp_all add: decode_compact_byte_node_def)
  moreover have "length ?bs = compact_header_data_size h"
    using assms(2-5) hl bl w
    by (auto simp: compact_header_data_size_def COMPACT_HEADER_SIZE_def tl_def)
  ultimately show ?thesis
    using enc unfolding data_def by blast
qed


lemma encode_auto_eq:
  "length keys = length children \<Longrightarrow>
   encode_compact_byte_node_auto nt pre keys children value_ptr mx =
   encode_compact_byte_node
     (compact_header_new (determine_ptr_width (node_max_ptr children value_ptr mx))
        (of_nat (length keys)) (value_ptr \<noteq> None) (of_nat (length pre)) nt)
     pre keys children value_ptr"
  by (simp add: encode_compact_byte_node_auto_def node_max_ptr_def Let_def)

lemma node_max_ptr_ge:
  "v \<in> set children \<union> set_option value_ptr \<Longrightarrow> v \<le> node_max_ptr children value_ptr mx"
  by (auto simp: node_max_ptr_def fold_max_eq_Max le_max_iff_disj intro: Max_ge)

lemma node_max_ptr_less:
  assumes "\<forall>v\<in>insert mx (set children \<union> set_option value_ptr). v < b"
  shows "node_max_ptr children value_ptr mx < b"
proof -
  have "0 < b"
    using assms by (metis insertI1 word_coorder.extremum_strict word_neq_0_conv)
  then show ?thesis
    using assms by (cases value_ptr) (auto simp: node_max_ptr_def fold_max_eq_Max)
qed

text \<open>
  C13: a node with at most 255 children, a prefix of at most 12 bytes and 48-bit
  pointers that the automatic encoder writes is decoded to exactly the same
  prefix, keys, children and value pointer, whatever bytes follow it, and the
  encoding has the length \<open>compact_byte_node_size\<close> announces.
\<close>

theorem compact_node_roundtrip:
  assumes "length keys = length children" and "length keys \<le> 255" and "length pre \<le> 12"
    and "nt \<le> 3"
    and "\<forall>v\<in>insert mx (set children \<union> set_option value_ptr). v < 0x1000000000000"
  shows "\<exists>bs h. encode_compact_byte_node_auto nt pre keys children value_ptr mx = Some bs \<and>
     decode_compact_byte_node (bs @ rest) = Some \<lparr> dn_header = h, dn_prefix = pre, dn_keys = keys,
       dn_children = children, dn_value_ptr = value_ptr \<rparr> \<and>
     length bs = compact_byte_node_size (length pre) (length keys) (value_ptr \<noteq> None)
       (node_max_ptr children value_ptr mx)"
proof -
  let ?m = "node_max_ptr children value_ptr mx"
  let ?h = "compact_header_new (determine_ptr_width ?m) (of_nat (length keys)) (value_ptr \<noteq> None)
    (of_nat (length pre)) nt"
  have n: "unat (of_nat (length keys) :: u8) = length keys" "unat (of_nat (length pre) :: u8) = length pre"
    using assms by (simp_all add: unat_of_nat)
  have "compact_header_wf ?h"
    using assms n determine_ptr_width_range
    by (simp add: compact_header_wf_def compact_header_new_def word_le_nat_alt)
  moreover have "\<forall>v\<in>set children \<union> set_option value_ptr. unat v < 256 ^ unat (determine_ptr_width ?m)"
    using node_max_ptr_ge node_max_ptr_less [OF assms(5)] determine_ptr_width_enough by blast
  ultimately obtain bs where "encode_compact_byte_node ?h pre keys children value_ptr = Some bs"
      "length bs = compact_header_data_size ?h"
      "decode_compact_byte_node (bs @ rest) = Some \<lparr> dn_header = ?h, dn_prefix = pre,
         dn_keys = keys, dn_children = children, dn_value_ptr = value_ptr \<rparr>"
    using decode_encoded_node [of ?h keys children pre value_ptr rest] assms(1) n
    by (auto simp: compact_header_new_def)
  moreover have "compact_header_data_size ?h = compact_byte_node_size (length pre) (length keys)
      (value_ptr \<noteq> None) ?m"
    using n by (simp add: compact_header_data_size_def compact_byte_node_size_def
        compact_header_new_def needs_extended_count_def word_less_nat_alt Let_def)
  ultimately show ?thesis
    using encode_auto_eq [OF assms(1)] by metis
qed

theorem compact_node_roundtrip_witness:
  "\<exists>bs h. encode_compact_byte_node_auto 1 [7, 8] [1, 2] [300, 70000] (Some 5) 0 = Some bs \<and>
     decode_compact_byte_node (bs @ [9]) = Some \<lparr> dn_header = h, dn_prefix = [7, 8],
       dn_keys = [1, 2], dn_children = [300, 70000], dn_value_ptr = Some 5 \<rparr> \<and>
     length bs = compact_byte_node_size 2 2 True 70000"
proof -
  have "node_max_ptr [300, 70000] (Some 5) 0 = 70000"
    by (simp add: node_max_ptr_def)
  then show ?thesis
    using compact_node_roundtrip [of "[1, 2]" "[300, 70000]" "[7, 8]" 1 0 "Some 5" "[9]"]
    by (simp flip: numeral_2_eq_2)
qed

text \<open>
  C14: every 64-bit value written as a varint is read back with its exact size by
  the slice reader, by the branchless reader and by the stream reader, in front
  of arbitrary following bytes; the stream reader leaves exactly those bytes.
\<close>

theorem varint_roundtrip:
  "read_varint_from_slice (write_varint_to_vec v [] @ rest) = Some (v, varint_size v) \<and>
   read_varint_branchless (write_varint_to_vec v [] @ rest) = Some (v, varint_size v) \<and>
   read_varint (write_varint_to_vec v [] @ rest) = Some ((v, varint_size v), rest) \<and>
   length (write_varint_to_vec v []) = varint_size v"
  by (simp add: codec_simps read_varint_branchless_eq length_write_varint)

text \<open>
  C15: on every slice on which the plain varint reader does not run past the end,
  the branchless reader (unaligned eight-byte load and mask) returns the same
  value and length.
\<close>

theorem read_varint_branchless_agrees:
  assumes "read_varint_from_slice data = Some r"
  shows "read_varint_branchless data = Some r"
  using assms by (rule read_varint_branchless_eq)

theorem read_varint_branchless_agrees_witness:
  "read_varint_from_slice [249, 1, 2, 77] = Some (513, 3) \<and>
   read_varint_branchless [249, 1, 2, 77] = Some (513, 3)"
proof -
  have "read_varint_from_slice [249, 1, 2, 77] = Some (513, 3)"
    by code_simp
  then show ?thesis
    using read_varint_branchless_agrees [of "[249, 1, 2, 77]" "(513, 3)"] by simp
qed

end
