(* ===== verification/Wal_Codec.thy ===== *)
theory Wal_Codec
  imports Prelude
begin

text \<open>
  The write-ahead log record codec (\<open>persistent_artrie/core/wal/codec.rs\<close>): the
  record type tags, the fifteen record kinds, the payload serialiser with its
  announced length, and one decoder per record kind with every length check of
  the source.  A \<open>usize\<close> is a natural number: all offsets are sums of at most a
  few 32-bit lengths, which a 64-bit \<open>usize\<close> holds.  A signed 64-bit counter
  field is its two's complement word.
\<close>

datatype wal_error =
    Io string
  | InvalidRecordType byte
  | CorruptedRecord string
  | UnexpectedEof
  | WalAlreadyExists
  | WalNotFound
  | ParentNotFound string
  | InvalidRegimeStamp string

datatype wal_record_type =
    TInsert | TRemove | TCheckpoint | TBeginTx | TCommitTx | TAbortTx | TIncrement | TUpsert
  | TCompareAndSwap | TBatchInsert | TBatchIncrement | TVersionUpdate | TVersionDurable
  | TVersionGc | TCommitRank

fun record_type_code :: "wal_record_type \<Rightarrow> byte" where
  "record_type_code TInsert = 1"
| "record_type_code TRemove = 2"
| "record_type_code TCheckpoint = 3"
| "record_type_code TBeginTx = 4"
| "record_type_code TCommitTx = 5"
| "record_type_code TAbortTx = 6"
| "record_type_code TIncrement = 7"
| "record_type_code TUpsert = 8"
| "record_type_code TCompareAndSwap = 9"
| "record_type_code TBatchInsert = 10"
| "record_type_code TBatchIncrement = 11"
| "record_type_code TVersionUpdate = 12"
| "record_type_code TVersionDurable = 13"
| "record_type_code TVersionGc = 14"
| "record_type_code TCommitRank = 15"

definition record_type_try_from :: "byte \<Rightarrow> wal_error + wal_record_type" where
  "record_type_try_from value =
     (if value = 1 then Ok TInsert
      else if value = 2 then Ok TRemove
      else if value = 3 then Ok TCheckpoint
      else if value = 4 then Ok TBeginTx
      else if value = 5 then Ok TCommitTx
      else if value = 6 then Ok TAbortTx
      else if value = 7 then Ok TIncrement
      else if value = 8 then Ok TUpsert
      else if value = 9 then Ok TCompareAndSwap
      else if value = 10 then Ok TBatchInsert
      else if value = 11 then Ok TBatchIncrement
      else if value = 12 then Ok TVersionUpdate
      else if value = 13 then Ok TVersionDurable
      else if value = 14 then Ok TVersionGc
      else if value = 15 then Ok TCommitRank
      else Err (InvalidRecordType value))"

type_synonym term_bytes = "byte list"
type_synonym lsn = u64

datatype wal_record =
    Insert term_bytes "byte list option"
  | Remove term_bytes
  | Checkpoint lsn u64
  | BeginTx u64
  | CommitTx u64
  | AbortTx u64
  | Increment term_bytes i64 i64
  | Upsert term_bytes "byte list"
  | CompareAndSwap term_bytes "byte list option" "byte list" bool
  | BatchInsert "(term_bytes \<times> byte list option) list"
  | BatchIncrement "(term_bytes \<times> i64) list"
  | VersionUpdate u64 u64 u64 u64
  | VersionDurable u64 u32
  | VersionGc "u64 list"
  | CommitRank lsn term_bytes u64

fun record_type :: "wal_record \<Rightarrow> wal_record_type" where
  "record_type (Insert _ _) = TInsert"
| "record_type (Remove _) = TRemove"
| "record_type (Checkpoint _ _) = TCheckpoint"
| "record_type (BeginTx _) = TBeginTx"
| "record_type (CommitTx _) = TCommitTx"
| "record_type (AbortTx _) = TAbortTx"
| "record_type (Increment _ _ _) = TIncrement"
| "record_type (Upsert _ _) = TUpsert"
| "record_type (CompareAndSwap _ _ _ _) = TCompareAndSwap"
| "record_type (BatchInsert _) = TBatchInsert"
| "record_type (BatchIncrement _) = TBatchIncrement"
| "record_type (VersionUpdate _ _ _ _) = TVersionUpdate"
| "record_type (VersionDurable _ _) = TVersionDurable"
| "record_type (VersionGc _) = TVersionGc"
| "record_type (CommitRank _ _ _) = TCommitRank"

text \<open>The size of an optional length-prefixed field.\<close>

definition opt_len :: "byte list option \<Rightarrow> nat" where
  "opt_len v = (case v of Some v \<Rightarrow> 4 + length v | None \<Rightarrow> 0)"

fun payload_len :: "wal_record \<Rightarrow> nat" where
  "payload_len (Insert t v) = 4 + length t + 1 + opt_len v"
| "payload_len (Remove t) = 4 + length t"
| "payload_len (Checkpoint _ _) = 16"
| "payload_len (BeginTx _) = 8"
| "payload_len (CommitTx _) = 8"
| "payload_len (AbortTx _) = 8"
| "payload_len (Increment t _ _) = 4 + length t + 8 + 8"
| "payload_len (Upsert t v) = 4 + length t + 4 + length v"
| "payload_len (CompareAndSwap t e n _) = 4 + length t + 1 + opt_len e + 4 + length n + 1"
| "payload_len (BatchInsert es) = 4 + (\<Sum>(t, v)\<leftarrow>es. 4 + length t + 1 + opt_len v)"
| "payload_len (BatchIncrement es) = 4 + (\<Sum>(t, _)\<leftarrow>es. 4 + length t + 8)"
| "payload_len (VersionUpdate _ _ _ _) = 32"
| "payload_len (VersionDurable _ _) = 12"
| "payload_len (VersionGc ids) = 4 + length ids * 8"
| "payload_len (CommitRank _ t _) = 8 + 4 + length t + 8"

text \<open>The two field shapes the serialiser repeats: a length-prefixed byte
  string, and a presence byte followed by such a string.\<close>

definition put_bytes :: "byte list \<Rightarrow> byte list" where
  "put_bytes bs = u32_to_le_bytes (of_nat (length bs)) @ bs"

definition put_option :: "byte list option \<Rightarrow> byte list" where
  "put_option v = (case v of Some v \<Rightarrow> 1 # put_bytes v | None \<Rightarrow> [0])"

fun serialize_payload :: "wal_record \<Rightarrow> byte list" where
  "serialize_payload (Insert t v) = put_bytes t @ put_option v"
| "serialize_payload (Remove t) = put_bytes t"
| "serialize_payload (Checkpoint lsn ts) = u64_to_le_bytes lsn @ u64_to_le_bytes ts"
| "serialize_payload (BeginTx tx) = u64_to_le_bytes tx"
| "serialize_payload (CommitTx tx) = u64_to_le_bytes tx"
| "serialize_payload (AbortTx tx) = u64_to_le_bytes tx"
| "serialize_payload (Increment t d r) = put_bytes t @ u64_to_le_bytes d @ u64_to_le_bytes r"
| "serialize_payload (Upsert t v) = put_bytes t @ put_bytes v"
| "serialize_payload (CompareAndSwap t e n s) =
     put_bytes t @ put_option e @ put_bytes n @ [if s then 1 else 0]"
| "serialize_payload (BatchInsert es) =
     u32_to_le_bytes (of_nat (length es)) @ concat (map (\<lambda>(t, v). put_bytes t @ put_option v) es)"
| "serialize_payload (BatchIncrement es) =
     u32_to_le_bytes (of_nat (length es)) @
     concat (map (\<lambda>(t, d). put_bytes t @ u64_to_le_bytes d) es)"
| "serialize_payload (VersionUpdate v r n ts) =
     u64_to_le_bytes v @ u64_to_le_bytes r @ u64_to_le_bytes n @ u64_to_le_bytes ts"
| "serialize_payload (VersionDurable v c) = u64_to_le_bytes v @ u32_to_le_bytes c"
| "serialize_payload (VersionGc ids) =
     u32_to_le_bytes (of_nat (length ids)) @ concat (map u64_to_le_bytes ids)"
| "serialize_payload (CommitRank lsn t g) =
     u64_to_le_bytes lsn @ put_bytes t @ u64_to_le_bytes g"

definition RECORD_HEADER_SIZE :: nat where
  "RECORD_HEADER_SIZE = 17"

definition serialized_size :: "wal_record \<Rightarrow> nat" where
  "serialized_size r = RECORD_HEADER_SIZE + payload_len r"

subsection \<open>Decoders\<close>

text \<open>\<open>u32::from_le_bytes(payload[o..o + 4]) as usize\<close> and the 64-bit reads.\<close>

definition len_at :: "nat \<Rightarrow> byte list \<Rightarrow> nat" where
  "len_at off payload = unat (u32_from_le_bytes (slice off (off + 4) payload))"

definition u64_at :: "nat \<Rightarrow> byte list \<Rightarrow> u64" where
  "u64_at off payload = u64_from_le_bytes (slice off (off + 8) payload)"

definition deserialize_insert :: "byte list \<Rightarrow> wal_error + wal_record" where
  "deserialize_insert payload =
     (if length payload < 5 then Err (CorruptedRecord ''Insert payload too short'')
      else let term_len = len_at 0 payload in
        if length payload < 4 + term_len + 1 then Err (CorruptedRecord ''Insert term truncated'')
        else let t = slice 4 (4 + term_len) payload;
                 has_value = (payload ! (4 + term_len) \<noteq> 0) in
          if has_value then
            let value_offset = 4 + term_len + 1 in
            if length payload < value_offset + 4
            then Err (CorruptedRecord ''Insert value length truncated'')
            else let value_len = len_at value_offset payload in
              if length payload < value_offset + 4 + value_len
              then Err (CorruptedRecord ''Insert value truncated'')
              else Ok (Insert t
                     (Some (slice (value_offset + 4) (value_offset + 4 + value_len) payload)))
          else Ok (Insert t None))"

definition deserialize_remove :: "byte list \<Rightarrow> wal_error + wal_record" where
  "deserialize_remove payload =
     (if length payload < 4 then Err (CorruptedRecord ''Remove payload too short'')
      else let term_len = len_at 0 payload in
        if length payload < 4 + term_len then Err (CorruptedRecord ''Remove term truncated'')
        else Ok (Remove (slice 4 (4 + term_len) payload)))"

definition deserialize_checkpoint :: "byte list \<Rightarrow> wal_error + wal_record" where
  "deserialize_checkpoint payload =
     (if length payload < 16 then Err (CorruptedRecord ''Checkpoint payload too short'')
      else Ok (Checkpoint (u64_at 0 payload) (u64_at 8 payload)))"

definition deserialize_begin_tx :: "byte list \<Rightarrow> wal_error + wal_record" where
  "deserialize_begin_tx payload =
     (if length payload < 8 then Err (CorruptedRecord ''BeginTx payload too short'')
      else Ok (BeginTx (u64_at 0 payload)))"

definition deserialize_commit_tx :: "byte list \<Rightarrow> wal_error + wal_record" where
  "deserialize_commit_tx payload =
     (if length payload < 8 then Err (CorruptedRecord ''CommitTx payload too short'')
      else Ok (CommitTx (u64_at 0 payload)))"

definition deserialize_abort_tx :: "byte list \<Rightarrow> wal_error + wal_record" where
  "deserialize_abort_tx payload =
     (if length payload < 8 then Err (CorruptedRecord ''AbortTx payload too short'')
      else Ok (AbortTx (u64_at 0 payload)))"

definition deserialize_increment :: "byte list \<Rightarrow> wal_error + wal_record" where
  "deserialize_increment payload =
     (if length payload < 4 then Err (CorruptedRecord ''Increment payload too short'')
      else let term_len = len_at 0 payload in
        if length payload < 4 + term_len + 16
        then Err (CorruptedRecord ''Increment payload truncated'')
        else let t = slice 4 (4 + term_len) payload; delta_offset = 4 + term_len in
          Ok (Increment t (u64_at delta_offset payload) (u64_at (delta_offset + 8) payload)))"

definition deserialize_upsert :: "byte list \<Rightarrow> wal_error + wal_record" where
  "deserialize_upsert payload =
     (if length payload < 4 then Err (CorruptedRecord ''Upsert payload too short'')
      else let term_len = len_at 0 payload in
        if length payload < 4 + term_len + 4 then Err (CorruptedRecord ''Upsert term truncated'')
        else let t = slice 4 (4 + term_len) payload;
                 value_len_offset = 4 + term_len;
                 value_len = len_at value_len_offset payload in
          if length payload < value_len_offset + 4 + value_len
          then Err (CorruptedRecord ''Upsert value truncated'')
          else Ok (Upsert t
                 (slice (value_len_offset + 4) (value_len_offset + 4 + value_len) payload)))"

text \<open>The tail of a compare-and-swap payload, from the new value on.\<close>

definition deserialize_cas_tail ::
    "byte list \<Rightarrow> nat \<Rightarrow> term_bytes \<Rightarrow> byte list option \<Rightarrow> wal_error + wal_record" where
  "deserialize_cas_tail payload off t expected =
     (if length payload < off + 4 then Err (CorruptedRecord ''CAS new_value length truncated'')
      else let new_value_len = len_at off payload; off = off + 4 in
        if length payload < off + new_value_len + 1
        then Err (CorruptedRecord ''CAS new_value truncated'')
        else let new_value = slice off (off + new_value_len) payload;
                 off = off + new_value_len
             in Ok (CompareAndSwap t expected new_value (payload ! off \<noteq> 0)))"

definition deserialize_cas :: "byte list \<Rightarrow> wal_error + wal_record" where
  "deserialize_cas payload =
     (if length payload < 4 then Err (CorruptedRecord ''CAS payload too short'')
      else let term_len = len_at 0 payload in
        if length payload < 4 + term_len + 1 then Err (CorruptedRecord ''CAS term truncated'')
        else let t = slice 4 (4 + term_len) payload;
                 off = 4 + term_len;
                 has_expected = (payload ! off \<noteq> 0);
                 off = off + 1 in
          if has_expected then
            if length payload < off + 4
            then Err (CorruptedRecord ''CAS expected length truncated'')
            else let exp_len = len_at off payload; off = off + 4 in
              if length payload < off + exp_len
              then Err (CorruptedRecord ''CAS expected truncated'')
              else deserialize_cas_tail payload (off + exp_len) t
                     (Some (slice off (off + exp_len) payload))
          else deserialize_cas_tail payload off t None)"

text \<open>Decimal rendering of an entry index in an error message.\<close>

fun show_nat :: "nat \<Rightarrow> string" where
  "show_nat n = (if n < 10 then [char_of (48 + n)] else show_nat (n div 10) @ [char_of (48 + n mod 10)])"

definition entry_error :: "string \<Rightarrow> nat \<Rightarrow> string \<Rightarrow> wal_error" where
  "entry_error kind i what = CorruptedRecord (kind @ '' entry '' @ show_nat i @ what)"

text \<open>The entry loops: \<open>n\<close> entries remain and \<open>i\<close> is the loop index.\<close>

fun batch_insert_entries ::
    "byte list \<Rightarrow> nat \<Rightarrow> nat \<Rightarrow> nat \<Rightarrow> wal_error + (term_bytes \<times> byte list option) list" where
  "batch_insert_entries payload 0 i off = Ok []"
| "batch_insert_entries payload (Suc n) i off =
     (if length payload < off + 4
      then Err (entry_error ''BatchInsert'' i '' term_len truncated'')
      else let term_len = len_at off payload; off = off + 4 in
        if length payload < off + term_len + 1
        then Err (entry_error ''BatchInsert'' i '' term truncated'')
        else let t = slice off (off + term_len) payload;
                 off = off + term_len;
                 has_value = (payload ! off \<noteq> 0);
                 off = off + 1 in
          if has_value then
            if length payload < off + 4
            then Err (entry_error ''BatchInsert'' i '' value_len truncated'')
            else let value_len = len_at off payload; off = off + 4 in
              if length payload < off + value_len
              then Err (entry_error ''BatchInsert'' i '' value truncated'')
              else try_res (batch_insert_entries payload n (i + 1) (off + value_len))
                     (\<lambda>es. Ok ((t, Some (slice off (off + value_len) payload)) # es))
          else try_res (batch_insert_entries payload n (i + 1) off) (\<lambda>es. Ok ((t, None) # es)))"

definition deserialize_batch_insert :: "byte list \<Rightarrow> wal_error + wal_record" where
  "deserialize_batch_insert payload =
     (if length payload < 4 then Err (CorruptedRecord ''BatchInsert payload too short'')
      else try_res (batch_insert_entries payload (len_at 0 payload) 0 4) (\<lambda>es. Ok (BatchInsert es)))"

fun batch_increment_entries ::
    "byte list \<Rightarrow> nat \<Rightarrow> nat \<Rightarrow> nat \<Rightarrow> wal_error + (term_bytes \<times> i64) list" where
  "batch_increment_entries payload 0 i off = Ok []"
| "batch_increment_entries payload (Suc n) i off =
     (if length payload < off + 4
      then Err (entry_error ''BatchIncrement'' i '' term_len truncated'')
      else let term_len = len_at off payload; off = off + 4 in
        if length payload < off + term_len + 8
        then Err (entry_error ''BatchIncrement'' i '' term or delta truncated'')
        else let t = slice off (off + term_len) payload;
                 off = off + term_len;
                 delta = u64_at off payload
             in try_res (batch_increment_entries payload n (i + 1) (off + 8))
                  (\<lambda>es. Ok ((t, delta) # es)))"

definition deserialize_batch_increment :: "byte list \<Rightarrow> wal_error + wal_record" where
  "deserialize_batch_increment payload =
     (if length payload < 4 then Err (CorruptedRecord ''BatchIncrement payload too short'')
      else try_res (batch_increment_entries payload (len_at 0 payload) 0 4)
             (\<lambda>es. Ok (BatchIncrement es)))"

definition deserialize_version_update :: "byte list \<Rightarrow> wal_error + wal_record" where
  "deserialize_version_update payload =
     (if length payload < 32 then Err (CorruptedRecord ''VersionUpdate payload too short'')
      else Ok (VersionUpdate (u64_at 0 payload) (u64_at 8 payload) (u64_at 16 payload)
                 (u64_at 24 payload)))"

definition deserialize_version_durable :: "byte list \<Rightarrow> wal_error + wal_record" where
  "deserialize_version_durable payload =
     (if length payload < 12 then Err (CorruptedRecord ''VersionDurable payload too short'')
      else Ok (VersionDurable (u64_at 0 payload) (u32_from_le_bytes (slice 8 12 payload))))"

definition deserialize_version_gc :: "byte list \<Rightarrow> wal_error + wal_record" where
  "deserialize_version_gc payload =
     (if length payload < 4 then Err (CorruptedRecord ''VersionGc payload too short'')
      else let count = len_at 0 payload in
        if length payload < 4 + count * 8
        then Err (CorruptedRecord ''VersionGc version_ids truncated'')
        else Ok (VersionGc (map (\<lambda>i. u64_at (4 + i * 8) payload) [0..<count])))"

definition deserialize_commit_rank :: "byte list \<Rightarrow> wal_error + wal_record" where
  "deserialize_commit_rank payload =
     (if length payload < 12 then Err (CorruptedRecord ''CommitRank payload too short'')
      else let data_lsn = u64_at 0 payload;
               term_len = len_at 8 payload;
               term_end = 12 + term_len in
        if length payload < term_end + 8
        then Err (CorruptedRecord ''CommitRank term or generation truncated'')
        else Ok (CommitRank data_lsn (slice 12 term_end payload) (u64_at term_end payload)))"

fun deserialize :: "wal_record_type \<Rightarrow> byte list \<Rightarrow> wal_error + wal_record" where
  "deserialize TInsert p = deserialize_insert p"
| "deserialize TRemove p = deserialize_remove p"
| "deserialize TCheckpoint p = deserialize_checkpoint p"
| "deserialize TBeginTx p = deserialize_begin_tx p"
| "deserialize TCommitTx p = deserialize_commit_tx p"
| "deserialize TAbortTx p = deserialize_abort_tx p"
| "deserialize TIncrement p = deserialize_increment p"
| "deserialize TUpsert p = deserialize_upsert p"
| "deserialize TCompareAndSwap p = deserialize_cas p"
| "deserialize TBatchInsert p = deserialize_batch_insert p"
| "deserialize TBatchIncrement p = deserialize_batch_increment p"
| "deserialize TVersionUpdate p = deserialize_version_update p"
| "deserialize TVersionDurable p = deserialize_version_durable p"
| "deserialize TVersionGc p = deserialize_version_gc p"
| "deserialize TCommitRank p = deserialize_commit_rank p"

subsection \<open>Records the length fields can describe\<close>

definition short :: "byte list \<Rightarrow> bool" where
  "short bs \<longleftrightarrow> length bs < 2 ^ 32"

fun wal_record_wf :: "wal_record \<Rightarrow> bool" where
  "wal_record_wf (Insert t v) = (short t \<and> pred_option short v)"
| "wal_record_wf (Remove t) = short t"
| "wal_record_wf (Increment t _ _) = short t"
| "wal_record_wf (Upsert t v) = (short t \<and> short v)"
| "wal_record_wf (CompareAndSwap t e n _) = (short t \<and> pred_option short e \<and> short n)"
| "wal_record_wf (BatchInsert es) =
     (length es < 2 ^ 32 \<and> list_all (\<lambda>(t, v). short t \<and> pred_option short v) es)"
| "wal_record_wf (BatchIncrement es) = (length es < 2 ^ 32 \<and> list_all (\<lambda>(t, _). short t) es)"
| "wal_record_wf (VersionGc ids) = (length ids < 2 ^ 32)"
| "wal_record_wf (CommitRank _ t _) = short t"
| "wal_record_wf _ = True"

subsection \<open>Round trip\<close>

lemma len_at_u32 [simp]:
  "length pre = off \<Longrightarrow> n < 2 ^ 32 \<Longrightarrow> len_at off (pre @ u32_to_le_bytes (of_nat n) @ rest) = n"
  by (simp add: len_at_def unat_of_nat)

lemma u64_at_here [simp]:
  "length pre = off \<Longrightarrow> u64_at off (pre @ u64_to_le_bytes v @ rest) = v"
  by (simp add: u64_at_def)

lemma length_put_bytes [simp]: "length (put_bytes t) = 4 + length t"
  by (simp add: put_bytes_def)

lemma length_put_option [simp]: "length (put_option v) = 1 + opt_len v"
  by (simp add: put_option_def opt_len_def split: option.split)

lemma length_serialize_payload: "length (serialize_payload r) = payload_len r"
  by (cases r) (simp_all add: length_concat case_prod_unfold o_def sum_list_triv add.assoc)

lemmas frame_defs = put_bytes_def put_option_def len_at_def u64_at_def unat_of_nat short_def

lemma deserialize_insert_encoded [codec_simps]:
  "short t \<Longrightarrow> pred_option short v \<Longrightarrow>
   deserialize_insert (put_bytes t @ put_option v @ rest) = Ok (Insert t v)"
  by (cases v) (simp_all add: deserialize_insert_def frame_defs nth_append)

lemma deserialize_remove_encoded [codec_simps]:
  "short t \<Longrightarrow> deserialize_remove (put_bytes t @ rest) = Ok (Remove t)"
  by (simp add: deserialize_remove_def frame_defs)

lemma deserialize_increment_encoded [codec_simps]:
  "short t \<Longrightarrow>
   deserialize_increment (put_bytes t @ u64_to_le_bytes d @ u64_to_le_bytes r @ rest)
     = Ok (Increment t d r)"
  by (simp add: deserialize_increment_def frame_defs Let_def)

lemma deserialize_upsert_encoded [codec_simps]:
  "short t \<Longrightarrow> short v \<Longrightarrow>
   deserialize_upsert (put_bytes t @ put_bytes v @ rest) = Ok (Upsert t v)"
  by (simp add: deserialize_upsert_def frame_defs Let_def)

lemma deserialize_cas_tail_encoded:
  "short n \<Longrightarrow> length pre = off \<Longrightarrow>
   deserialize_cas_tail (pre @ put_bytes n @ (if s then 1 else 0) # rest) off t e
     = Ok (CompareAndSwap t e n s)"
  by (simp add: deserialize_cas_tail_def frame_defs Let_def nth_append)

lemma deserialize_cas_encoded [codec_simps]:
  assumes "short t" and "pred_option short e" and "short n"
  shows "deserialize_cas (put_bytes t @ put_option e @ put_bytes n @ (if s then 1 else 0) # rest)
     = Ok (CompareAndSwap t e n s)"
proof -
  have "deserialize_cas_tail ((put_bytes t @ put_option e) @ put_bytes n @ (if s then 1 else 0) # rest)
      (4 + length t + 1 + opt_len e) t e = Ok (CompareAndSwap t e n s)"
    using assms by (intro deserialize_cas_tail_encoded) simp_all
  then show ?thesis
    using assms
    by (cases e) (simp_all add: deserialize_cas_def frame_defs Let_def nth_append opt_len_def add.assoc)
qed

lemma batch_insert_entries_encoded:
  assumes "list_all (\<lambda>(t, v). short t \<and> pred_option short v) es" and "length pre = off"
  shows "batch_insert_entries
     (pre @ concat (map (\<lambda>(t, v). put_bytes t @ put_option v) es) @ rest) (length es) i off = Ok es"
  using assms
proof (induction es arbitrary: pre off i)
  case (Cons e es)
  obtain t v where e: "e = (t, v)"
    by fastforce
  let ?tail = "concat (map (\<lambda>(t, v). put_bytes t @ put_option v) es) @ rest"
  have "batch_insert_entries ((pre @ put_bytes t @ put_option v) @ ?tail) (length es) (i + 1)
      (off + 4 + length t + 1 + opt_len v) = Ok es"
    using Cons.prems by (intro Cons.IH) (simp_all add: e)
  then show ?case
    using Cons.prems
    by (cases v) (simp_all add: e frame_defs Let_def nth_append opt_len_def add.assoc)
qed simp

lemma batch_increment_entries_encoded:
  assumes "list_all (\<lambda>(t, _). short t) es" and "length pre = off"
  shows "batch_increment_entries
     (pre @ concat (map (\<lambda>(t, d). put_bytes t @ u64_to_le_bytes d) es) @ rest) (length es) i off = Ok es"
  using assms
proof (induction es arbitrary: pre off i)
  case (Cons e es)
  obtain t d where e: "e = (t, d)"
    by fastforce
  let ?tail = "concat (map (\<lambda>(t, d). put_bytes t @ u64_to_le_bytes d) es) @ rest"
  have "batch_increment_entries ((pre @ put_bytes t @ u64_to_le_bytes d) @ ?tail) (length es) (i + 1)
      (off + 4 + length t + 8) = Ok es"
    using Cons.prems by (intro Cons.IH) (simp_all add: e)
  then show ?case
    using Cons.prems by (simp add: e frame_defs Let_def)
qed simp

lemma u64_at_concat:
  "i < length ids \<Longrightarrow> length pre = 4 \<Longrightarrow>
   u64_at (4 + i * 8) (pre @ concat (map u64_to_le_bytes ids) @ rest) = ids ! i"
proof (induction ids arbitrary: pre i)
  case (Cons a ids)
  show ?case
  proof (cases i)
    case 0
    then show ?thesis
      using Cons.prems by (simp add: u64_at_def)
  next
    case (Suc j)
    then have "u64_at (4 + j * 8) (pre @ concat (map u64_to_le_bytes ids) @ rest) = ids ! j"
      using Cons by simp
    then show ?thesis
      using Suc Cons.prems by (simp add: u64_at_def)
  qed
qed simp

lemma deserialize_version_gc_encoded [codec_simps]:
  assumes "length ids < 2 ^ 32"
  shows "deserialize_version_gc
     (u32_to_le_bytes (of_nat (length ids)) @ concat (map u64_to_le_bytes ids) @ rest)
     = Ok (VersionGc ids)"
proof -
  let ?p = "u32_to_le_bytes (of_nat (length ids)) @ concat (map u64_to_le_bytes ids) @ rest"
  have n: "len_at 0 ?p = length ids"
    using len_at_u32 [of "[]" 0 "length ids"] assms by simp
  have "map (\<lambda>i. u64_at (4 + i * 8) ?p) [0..<length ids] = ids"
    by (rule nth_equalityI) (simp_all add: u64_at_concat)
  moreover have "length (concat (map u64_to_le_bytes ids)) = length ids * 8"
    by (simp add: length_concat o_def sum_list_triv)
  ultimately show ?thesis
    using n by (simp add: deserialize_version_gc_def Let_def)
qed

lemma deserialize_fixed_encoded [codec_simps]:
  "deserialize_checkpoint (u64_to_le_bytes a @ u64_to_le_bytes b @ rest) = Ok (Checkpoint a b)"
  "deserialize_begin_tx (u64_to_le_bytes a @ rest) = Ok (BeginTx a)"
  "deserialize_commit_tx (u64_to_le_bytes a @ rest) = Ok (CommitTx a)"
  "deserialize_abort_tx (u64_to_le_bytes a @ rest) = Ok (AbortTx a)"
  "deserialize_version_update
     (u64_to_le_bytes a @ u64_to_le_bytes b @ u64_to_le_bytes c @ u64_to_le_bytes d @ rest)
     = Ok (VersionUpdate a b c d)"
  "deserialize_version_durable (u64_to_le_bytes a @ u32_to_le_bytes k @ rest) = Ok (VersionDurable a k)"
  by (simp_all add: deserialize_checkpoint_def deserialize_begin_tx_def deserialize_commit_tx_def
      deserialize_abort_tx_def deserialize_version_update_def deserialize_version_durable_def u64_at_def)

lemma deserialize_commit_rank_encoded [codec_simps]:
  "short t \<Longrightarrow>
   deserialize_commit_rank (u64_to_le_bytes l @ put_bytes t @ u64_to_le_bytes g @ rest)
     = Ok (CommitRank l t g)"
  by (simp add: deserialize_commit_rank_def frame_defs Let_def)

lemma deserialize_serialize:
  assumes "wal_record_wf r"
  shows "deserialize (record_type r) (serialize_payload r @ rest) = Ok r"
proof (cases r)
  case (BatchInsert es)
  then show ?thesis
    using assms batch_insert_entries_encoded [of es "u32_to_le_bytes (of_nat (length es))" 4 rest 0]
      len_at_u32 [of "[]" 0 "length es"]
    by (simp add: deserialize_batch_insert_def)
next
  case (BatchIncrement es)
  then show ?thesis
    using assms batch_increment_entries_encoded [of es "u32_to_le_bytes (of_nat (length es))" 4 rest 0]
      len_at_u32 [of "[]" 0 "length es"]
    by (simp add: deserialize_batch_increment_def)
qed (use assms in \<open>simp_all add: codec_simps\<close>)

lemma record_type_try_from_code [simp]: "record_type_try_from (record_type_code t) = Ok t"
  by (cases t) (simp_all add: record_type_try_from_def)

text \<open>
  C8: every log record whose byte strings and entry lists have fewer than
  \<open>2 ^ 32\<close> elements is decoded from its serialised payload to exactly itself,
  whatever bytes follow, under the type tag that is stored with it; the payload
  has exactly the announced length.
\<close>

theorem wal_record_roundtrip:
  assumes "wal_record_wf r"
  shows "record_type_try_from (record_type_code (record_type r)) = Ok (record_type r) \<and>
    deserialize (record_type r) (serialize_payload r @ rest) = Ok r \<and>
    length (serialize_payload r) = payload_len r"
  using assms deserialize_serialize length_serialize_payload by simp

theorem wal_record_roundtrip_witness:
  "deserialize TBatchInsert (serialize_payload (BatchInsert [([1, 2], Some [9]), ([], None)]) @ [5])
     = Ok (BatchInsert [([1, 2], Some [9]), ([], None)])"
  using wal_record_roundtrip [of "BatchInsert [([1, 2], Some [9]), ([], None)]" "[5]"]
  by (simp add: short_def)

subsection \<open>Torn payloads\<close>

lemma len_at_append: "off + 4 \<le> length q \<Longrightarrow> len_at off (q @ rest) = len_at off q"
  by (simp add: len_at_def)

lemma u64_at_append: "off + 8 \<le> length q \<Longrightarrow> u64_at off (q @ rest) = u64_at off q"
  by (simp add: u64_at_def)

lemma batch_insert_entries_append:
  "batch_insert_entries q n i off = Ok es \<Longrightarrow> batch_insert_entries (q @ rest) n i off = Ok es"
  by (induction q n i off arbitrary: es rule: batch_insert_entries.induct)
    (auto simp: Let_def len_at_append nth_append try_res_eq_Ok split: if_splits)

lemma batch_increment_entries_append:
  "batch_increment_entries q n i off = Ok es \<Longrightarrow> batch_increment_entries (q @ rest) n i off = Ok es"
  by (induction q n i off arbitrary: es rule: batch_increment_entries.induct)
    (auto simp: Let_def len_at_append u64_at_append try_res_eq_Ok split: if_splits)

lemma batch_insert_entries_length:
  "batch_insert_entries q n i off = Ok es \<Longrightarrow> off \<le> length q \<Longrightarrow>
   off + (\<Sum>(t, v)\<leftarrow>es. 4 + length t + 1 + opt_len v) \<le> length q"
  by (induction q n i off arbitrary: es rule: batch_insert_entries.induct)
    (fastforce simp: Let_def try_res_eq_Ok opt_len_def split: if_splits)+

lemma batch_increment_entries_length:
  "batch_increment_entries q n i off = Ok es \<Longrightarrow> off \<le> length q \<Longrightarrow>
   off + (\<Sum>(t, _)\<leftarrow>es. 4 + length t + 8) \<le> length q"
  by (induction q n i off arbitrary: es rule: batch_increment_entries.induct)
    (fastforce simp: Let_def try_res_eq_Ok split: if_splits)+


lemmas append_rules = Let_def len_at_append u64_at_append nth_append try_res_eq_Ok

lemma deserialize_insert_append:
  "deserialize_insert q = Ok r \<Longrightarrow> deserialize_insert (q @ rest) = Ok r"
  by (auto simp: deserialize_insert_def append_rules split: if_splits)

lemma deserialize_upsert_append:
  "deserialize_upsert q = Ok r \<Longrightarrow> deserialize_upsert (q @ rest) = Ok r"
  by (auto simp: deserialize_upsert_def append_rules split: if_splits)

lemma deserialize_cas_tail_append:
  "deserialize_cas_tail q off t e = Ok r \<Longrightarrow> deserialize_cas_tail (q @ rest) off t e = Ok r"
  by (auto simp: deserialize_cas_tail_def append_rules split: if_splits)

lemma deserialize_cas_append:
  "deserialize_cas q = Ok r \<Longrightarrow> deserialize_cas (q @ rest) = Ok r"
  by (auto simp: deserialize_cas_def append_rules deserialize_cas_tail_append split: if_splits)

lemma deserialize_version_gc_append:
  "deserialize_version_gc q = Ok r \<Longrightarrow> deserialize_version_gc (q @ rest) = Ok r"
  by (auto simp: deserialize_version_gc_def append_rules split: if_splits)


lemma deserialize_increment_append:
  "deserialize_increment q = Ok r \<Longrightarrow> deserialize_increment (q @ rest) = Ok r"
  by (auto simp: deserialize_increment_def append_rules split: if_splits)

lemma deserialize_commit_rank_append:
  "deserialize_commit_rank q = Ok r \<Longrightarrow> deserialize_commit_rank (q @ rest) = Ok r"
  by (auto simp: deserialize_commit_rank_def append_rules split: if_splits)

lemma deserialize_batch_append:
  "deserialize_batch_insert q = Ok r \<Longrightarrow> deserialize_batch_insert (q @ rest) = Ok r"
  "deserialize_batch_increment q = Ok r \<Longrightarrow> deserialize_batch_increment (q @ rest) = Ok r"
  by (auto simp: deserialize_batch_insert_def deserialize_batch_increment_def len_at_append
      try_res_eq_Ok dest: batch_insert_entries_append batch_increment_entries_append
      split: if_splits)

lemma deserialize_flat_append:
  "deserialize_remove q = Ok r \<Longrightarrow> deserialize_remove (q @ rest) = Ok r"
  "deserialize_checkpoint q = Ok r \<Longrightarrow> deserialize_checkpoint (q @ rest) = Ok r"
  "deserialize_begin_tx q = Ok r \<Longrightarrow> deserialize_begin_tx (q @ rest) = Ok r"
  "deserialize_commit_tx q = Ok r \<Longrightarrow> deserialize_commit_tx (q @ rest) = Ok r"
  "deserialize_abort_tx q = Ok r \<Longrightarrow> deserialize_abort_tx (q @ rest) = Ok r"
  "deserialize_version_update q = Ok r \<Longrightarrow> deserialize_version_update (q @ rest) = Ok r"
  "deserialize_version_durable q = Ok r \<Longrightarrow> deserialize_version_durable (q @ rest) = Ok r"
  by (auto simp: deserialize_remove_def deserialize_checkpoint_def deserialize_begin_tx_def
      deserialize_commit_tx_def deserialize_abort_tx_def deserialize_version_update_def
      deserialize_version_durable_def append_rules split: if_splits)

lemma deserialize_append:
  "deserialize ty q = Ok r \<Longrightarrow> deserialize ty (q @ rest) = Ok r"
  by (cases ty)
    (simp_all add: deserialize_insert_append deserialize_upsert_append deserialize_cas_append
      deserialize_increment_append deserialize_commit_rank_append deserialize_batch_append
      deserialize_flat_append deserialize_version_gc_append)


lemma deserialize_insert_length: "deserialize_insert q = Ok r \<Longrightarrow> payload_len r \<le> length q"
  by (auto simp: deserialize_insert_def Let_def opt_len_def split: if_splits)

lemma deserialize_cas_tail_length:
  "deserialize_cas_tail q off t e = Ok r \<Longrightarrow> 4 + length t + 1 + opt_len e \<le> off \<Longrightarrow>
   payload_len r \<le> length q"
  by (auto simp: deserialize_cas_tail_def Let_def split: if_splits)

lemma deserialize_cas_length: "deserialize_cas q = Ok r \<Longrightarrow> payload_len r \<le> length q"
  by (auto simp: deserialize_cas_def Let_def opt_len_def split: if_splits
      elim!: deserialize_cas_tail_length)

lemma deserialize_counted_length:
  "deserialize_increment q = Ok r \<Longrightarrow> payload_len r \<le> length q"
  "deserialize_upsert q = Ok r \<Longrightarrow> payload_len r \<le> length q"
  "deserialize_commit_rank q = Ok r \<Longrightarrow> payload_len r \<le> length q"
  "deserialize_version_gc q = Ok r \<Longrightarrow> payload_len r \<le> length q"
  "deserialize_remove q = Ok r \<Longrightarrow> payload_len r \<le> length q"
  by (auto simp: deserialize_increment_def deserialize_upsert_def deserialize_commit_rank_def
      deserialize_version_gc_def deserialize_remove_def Let_def split: if_splits)

lemma deserialize_batch_length:
  "deserialize_batch_insert q = Ok r \<Longrightarrow> payload_len r \<le> length q"
  "deserialize_batch_increment q = Ok r \<Longrightarrow> payload_len r \<le> length q"
  using batch_insert_entries_length [of q "len_at 0 q" 0 4]
    batch_increment_entries_length [of q "len_at 0 q" 0 4]
  by (auto simp: deserialize_batch_insert_def deserialize_batch_increment_def try_res_eq_Ok
      split: if_splits)

lemma deserialize_fixed_length:
  "deserialize_checkpoint q = Ok r \<Longrightarrow> payload_len r \<le> length q"
  "deserialize_begin_tx q = Ok r \<Longrightarrow> payload_len r \<le> length q"
  "deserialize_commit_tx q = Ok r \<Longrightarrow> payload_len r \<le> length q"
  "deserialize_abort_tx q = Ok r \<Longrightarrow> payload_len r \<le> length q"
  "deserialize_version_update q = Ok r \<Longrightarrow> payload_len r \<le> length q"
  "deserialize_version_durable q = Ok r \<Longrightarrow> payload_len r \<le> length q"
  by (auto simp: deserialize_checkpoint_def deserialize_begin_tx_def
      deserialize_commit_tx_def deserialize_abort_tx_def deserialize_version_update_def
      deserialize_version_durable_def split: if_splits)

lemma deserialize_length: "deserialize ty q = Ok r \<Longrightarrow> payload_len r \<le> length q"
  by (cases ty)
    (simp_all add: deserialize_insert_length deserialize_cas_length deserialize_counted_length
      deserialize_batch_length deserialize_fixed_length)

text \<open>
  C9: a record payload cut short anywhere, as a torn write leaves it, is rejected
  by the decoder of its record type: no strict prefix of a serialised payload is
  accepted as any record.
\<close>

theorem torn_payload_rejected:
  assumes "wal_record_wf r" and "k < length (serialize_payload r)"
  shows "\<exists>e. deserialize (record_type r) (take k (serialize_payload r)) = Err e"
proof (cases "deserialize (record_type r) (take k (serialize_payload r))")
  case (Inr r')
  then have "deserialize (record_type r) (take k (serialize_payload r) @ drop k (serialize_payload r)) = Ok r'"
    by (rule deserialize_append)
  then have "r' = r"
    using deserialize_serialize [OF assms(1), of "[]"] by simp
  then have "payload_len r \<le> k"
    using deserialize_length [OF Inr] by simp
  then show ?thesis
    using assms(2) length_serialize_payload [of r] by simp
qed blast

theorem torn_payload_rejected_witness:
  "\<exists>e. deserialize TUpsert (take 10 (serialize_payload (Upsert [1, 2] [3, 4, 5]))) = Err e"
  using torn_payload_rejected [of "Upsert [1, 2] [3, 4, 5]" 10]
  by (simp add: short_def length_serialize_payload del: serialize_payload.simps)

end
