(* ===== verification/Wal_Frame.thy ===== *)
theory Wal_Frame
  imports Wal_Codec Committed_Watermark
begin

unbundle bit_operations_syntax

text \<open>
  The log file (\<open>persistent_artrie/core/wal.rs\<close>, \<open>wal/header.rs\<close>,
  \<open>wal/writer.rs\<close>, \<open>wal/reader.rs\<close>): the CRC, the 64-byte file header, the record
  frame the writer appends, the reader's \<open>next_record\<close>, and the frontier of
  contiguously durable LSNs the lock-free appenders keep.  A file is the list of
  its bytes after the header; an operating-system error other than end of file
  is outside the model.
\<close>

subsection \<open>Checksum\<close>

definition crc32_bit :: "u32 \<Rightarrow> u32" where
  "crc32_bit crc = (if crc AND 1 \<noteq> 0 then drop_bit 1 crc XOR 0xEDB88320 else drop_bit 1 crc)"

definition crc32_byte :: "byte \<Rightarrow> u32 \<Rightarrow> u32" where
  "crc32_byte b crc = (crc32_bit ^^ 8) (crc XOR ucast b)"

definition crc32 :: "byte list \<Rightarrow> u32" where
  "crc32 data = NOT (fold crc32_byte data 0xFFFFFFFF)"

subsection \<open>File header\<close>

datatype rank_regime = Owned | Overlay

fun rank_regime_code :: "rank_regime \<Rightarrow> byte" where
  "rank_regime_code Owned = 0"
| "rank_regime_code Overlay = 1"

definition rank_regime_from_u8 :: "byte \<Rightarrow> rank_regime" where
  "rank_regime_from_u8 b = (if b = 1 then Overlay else Owned)"

record wal_header =
  wh_magic :: "byte list"
  wh_version :: u32
  wh_checkpoint_lsn :: lsn
  wh_commit_seq_floor :: u64
  wh_rank_regime :: byte
  wh_reserved :: "byte list"

definition MAGIC :: "byte list" where
  "MAGIC = [0x50, 0x41, 0x52, 0x54, 0x57, 0x41, 0x4C, 0x00]"

definition MAGIC_OVERLAY :: "byte list" where
  "MAGIC_OVERLAY = [0x50, 0x41, 0x52, 0x54, 0x57, 0x41, 0x4C, 0x4F]"

definition WAL_VERSION :: u32 where
  "WAL_VERSION = 2"

definition MIN_SUPPORTED_VERSION :: u32 where
  "MIN_SUPPORTED_VERSION = 1"

definition wal_header_new :: wal_header where
  "wal_header_new = \<lparr> wh_magic = MAGIC, wh_version = WAL_VERSION, wh_checkpoint_lsn = 0,
     wh_commit_seq_floor = 0, wh_rank_regime = rank_regime_code Owned,
     wh_reserved = replicate 35 0 \<rparr>"

definition wal_header_to_bytes :: "wal_header \<Rightarrow> byte list" where
  "wal_header_to_bytes h =
     wh_magic h @ u32_to_le_bytes (wh_version h) @ u64_to_le_bytes (wh_checkpoint_lsn h)
     @ u64_to_le_bytes (wh_commit_seq_floor h) @ [wh_rank_regime h] @ wh_reserved h"

definition wal_header_from_bytes :: "byte list \<Rightarrow> wal_error + wal_header" where
  "wal_header_from_bytes buf =
     (let magic = slice 0 8 buf in
      if magic \<noteq> MAGIC \<and> magic \<noteq> MAGIC_OVERLAY
      then Err (CorruptedRecord ''Invalid WAL magic number'')
      else let version = u32_from_le_bytes (slice 8 12 buf) in
        if \<not> (MIN_SUPPORTED_VERSION \<le> version \<and> version \<le> WAL_VERSION)
        then Err (CorruptedRecord (''Unsupported WAL version: '' @ show_nat (unat version)
               @ '' (supported range '' @ show_nat (unat MIN_SUPPORTED_VERSION) @ ''..=''
               @ show_nat (unat WAL_VERSION) @ '')''))
        else Ok \<lparr> wh_magic = magic, wh_version = version,
               wh_checkpoint_lsn = u64_from_le_bytes (slice 12 20 buf),
               wh_commit_seq_floor = u64_from_le_bytes (slice 20 28 buf),
               wh_rank_regime = buf ! 28, wh_reserved = slice 29 64 buf \<rparr>)"

definition regime :: "wal_header \<Rightarrow> rank_regime" where
  "regime h = rank_regime_from_u8 (wh_rank_regime h)"

subsection \<open>Record frames\<close>

definition encode_record_frame :: "lsn \<Rightarrow> wal_record \<Rightarrow> byte list" where
  "encode_record_frame lsn r =
     (let payload = serialize_payload r;
          total_len = RECORD_HEADER_SIZE + length payload;
          buf = replicate 4 0 @ u32_to_le_bytes (of_nat total_len) @ u64_to_le_bytes lsn
            @ [record_type_code (record_type r)] @ payload;
          crc = crc32 (drop 4 buf)
      in u32_to_le_bytes crc @ drop 4 buf)"

text \<open>Lower-case hexadecimal rendering with the \<open>0x\<close> prefix, as \<open>{:#x}\<close>.\<close>

fun show_hex_digits :: "nat \<Rightarrow> string" where
  "show_hex_digits n =
     (let d = (\<lambda>k. if k < 10 then char_of (48 + k) else char_of (87 + k)) in
      if n < 16 then [d n] else show_hex_digits (n div 16) @ [d (n mod 16)])"

definition show_hex :: "u32 \<Rightarrow> string" where
  "show_hex w = ''0x'' @ show_hex_digits (unat w)"

text \<open>One call of \<open>next_record\<close> on the unread bytes: the \<open>Option<Result<..>>\<close> and
  the bytes left for the next call.\<close>

definition next_record :: "byte list \<Rightarrow> (wal_error + lsn \<times> wal_record) option \<times> byte list" where
  "next_record reader =
     (if length reader < RECORD_HEADER_SIZE then (None, [])
      else
        let header_buf = take RECORD_HEADER_SIZE reader;
            reader = drop RECORD_HEADER_SIZE reader;
            stored_crc = u32_from_le_bytes (slice 0 4 header_buf);
            len = unat (u32_from_le_bytes (slice 4 8 header_buf));
            lsn = u64_from_le_bytes (slice 8 16 header_buf);
            record_type_byte = header_buf ! 16 in
        if len < RECORD_HEADER_SIZE
        then (Some (Err (CorruptedRecord ''Record length too small'')), reader)
        else
          let payload_len = len - RECORD_HEADER_SIZE in
          if length reader < payload_len then (Some (Err UnexpectedEof), [])
          else
            let payload = take payload_len reader;
                reader = drop payload_len reader;
                computed_crc = crc32 (drop 4 header_buf @ payload) in
            if stored_crc \<noteq> computed_crc
            then (Some (Err (CorruptedRecord (''CRC mismatch: stored='' @ show_hex stored_crc
                    @ '', computed='' @ show_hex computed_crc))), reader)
            else
              (case record_type_try_from record_type_byte of
                 Inl e \<Rightarrow> (Some (Err e), reader)
               | Inr ty \<Rightarrow>
                   (case deserialize ty payload of
                      Inr r \<Rightarrow> (Some (Ok (lsn, r)), reader)
                    | Inl e \<Rightarrow> (Some (Err e), reader))))"

text \<open>Draining the reader up to its end or to its first error; the iterator's
  \<open>next\<close> is \<open>next_record\<close>.\<close>

datatype read_end = EndOfLog | ReadError wal_error

function read_records :: "byte list \<Rightarrow> (lsn \<times> wal_record) list \<times> read_end" where
  "read_records reader =
     (case next_record reader of
        (None, _) \<Rightarrow> ([], EndOfLog)
      | (Some (Inl e), _) \<Rightarrow> ([], ReadError e)
      | (Some (Inr r), reader') \<Rightarrow>
          (let (rs, e) = read_records reader' in (r # rs, e)))"
  by pat_completeness auto
termination
  by (relation "measure length")
    (auto simp: next_record_def Let_def RECORD_HEADER_SIZE_def split: if_splits sum.splits)

declare read_records.simps [simp del]

subsection \<open>The writer's LSN and durability frontier\<close>

record wal_writer =
  ww_file :: "byte list"
  ww_next_lsn :: lsn
  ww_segment_durable_lsn :: lsn
  ww_segment_durable_pending :: "lsn set"
  ww_segment_failed_lsn :: lsn

text \<open>\<open>write_record_at_lsn\<close> and \<open>append\<close>.\<close>

definition write_record_at_lsn :: "lsn \<Rightarrow> wal_record \<Rightarrow> wal_writer \<Rightarrow> wal_writer" where
  "write_record_at_lsn lsn r w = w\<lparr> ww_file := ww_file w @ encode_record_frame lsn r \<rparr>"

definition append_record :: "wal_record \<Rightarrow> wal_writer \<Rightarrow> lsn \<times> wal_writer" where
  "append_record r w =
     (let lsn = ww_next_lsn w; w = w\<lparr> ww_next_lsn := lsn + 1 \<rparr>
      in (lsn, write_record_at_lsn lsn r w))"

definition append_batch :: "(term_bytes \<times> byte list option) list \<Rightarrow> wal_writer \<Rightarrow> lsn \<times> wal_writer" where
  "append_batch entries w =
     (if entries = [] then append_record (BatchInsert []) w
      else append_record (BatchInsert entries) w)"

definition allocate_lsn :: "wal_writer \<Rightarrow> lsn \<times> wal_writer" where
  "allocate_lsn w = (ww_next_lsn w, w\<lparr> ww_next_lsn := ww_next_lsn w + 1 \<rparr>)"

definition set_min_lsn :: "lsn \<Rightarrow> wal_writer \<Rightarrow> wal_writer" where
  "set_min_lsn min_lsn w =
     (if min_lsn \<le> ww_next_lsn w then w else w\<lparr> ww_next_lsn := min_lsn \<rparr>)"

definition mark_segment_durable :: "lsn \<Rightarrow> wal_writer \<Rightarrow> wal_writer" where
  "mark_segment_durable lsn w =
     (let (cur, p) = drain_pending (ww_segment_durable_lsn w)
                       (insert lsn (ww_segment_durable_pending w))
      in w\<lparr> ww_segment_durable_lsn := cur, ww_segment_durable_pending := p \<rparr>)"

definition mark_segment_failed :: "lsn \<Rightarrow> wal_writer \<Rightarrow> wal_writer" where
  "mark_segment_failed lsn w = w\<lparr> ww_segment_failed_lsn := min (ww_segment_failed_lsn w) lsn \<rparr>"

text \<open>One iteration of the waiting loop: \<open>None\<close> means it backs off and looks again.\<close>

definition wait_for_segment_durable_lsn_poll :: "lsn \<Rightarrow> wal_writer \<Rightarrow> (wal_error + unit) option" where
  "wait_for_segment_durable_lsn_poll lsn w =
     (if lsn \<le> ww_segment_durable_lsn w then Some (Ok ())
      else let failed = ww_segment_failed_lsn w in
        if failed \<le> lsn
        then Some (Err (CorruptedRecord (''cannot publish contiguous WAL segment frontier through LSN ''
               @ show_nat (unat lsn) @ ''; earlier reserved LSN '' @ show_nat (unat failed)
               @ '' failed to publish'')))
        else None)"

subsection \<open>Header round trip\<close>

definition wal_header_wf :: "wal_header \<Rightarrow> bool" where
  "wal_header_wf h \<longleftrightarrow> (wh_magic h = MAGIC \<or> wh_magic h = MAGIC_OVERLAY) \<and>
     MIN_SUPPORTED_VERSION \<le> wh_version h \<and> wh_version h \<le> WAL_VERSION \<and>
     length (wh_reserved h) = 35"

lemma length_wal_magic: "wh_magic h = MAGIC \<or> wh_magic h = MAGIC_OVERLAY \<Longrightarrow> length (wh_magic h) = 8"
  by (auto simp: MAGIC_def MAGIC_OVERLAY_def)

lemma wal_header_from_to:
  assumes "wal_header_wf h"
  shows "wal_header_from_bytes (wal_header_to_bytes h) = Ok h"
proof -
  have "length (wh_magic h) = 8"
    using assms by (simp add: wal_header_wf_def length_wal_magic)
  then show ?thesis
    using assms
    by (auto simp: wal_header_from_bytes_def wal_header_to_bytes_def wal_header_wf_def nth_append
        Let_def)
qed

subsection \<open>Reading frames\<close>

definition frame_ok :: "lsn \<times> wal_record \<Rightarrow> bool" where
  "frame_ok lr \<longleftrightarrow> wal_record_wf (snd lr) \<and> serialized_size (snd lr) < 2 ^ 32"

definition frame_body :: "lsn \<Rightarrow> wal_record \<Rightarrow> byte list" where
  "frame_body lsn r = u32_to_le_bytes (of_nat (serialized_size r)) @ u64_to_le_bytes lsn
     @ [record_type_code (record_type r)] @ serialize_payload r"

lemma encode_record_frame_eq:
  "encode_record_frame lsn r = u32_to_le_bytes (crc32 (frame_body lsn r)) @ frame_body lsn r"
  by (simp add: encode_record_frame_def frame_body_def serialized_size_def length_serialize_payload
      Let_def)

lemma length_encode_record_frame: "length (encode_record_frame lsn r) = serialized_size r"
  by (simp add: encode_record_frame_eq frame_body_def serialized_size_def RECORD_HEADER_SIZE_def
      length_serialize_payload)

lemma frame_header:
  "encode_record_frame lsn r =
     (u32_to_le_bytes (crc32 (frame_body lsn r)) @ u32_to_le_bytes (of_nat (serialized_size r))
      @ u64_to_le_bytes lsn @ [record_type_code (record_type r)]) @ serialize_payload r"
  by (simp add: encode_record_frame_eq frame_body_def)

lemma next_record_frame:
  assumes "frame_ok (lsn, r)"
  shows "next_record (encode_record_frame lsn r @ rest) = (Some (Ok (lsn, r)), rest)"
proof -
  let ?hd = "u32_to_le_bytes (crc32 (frame_body lsn r)) @ u32_to_le_bytes (of_nat (serialized_size r))
      @ u64_to_le_bytes lsn @ [record_type_code (record_type r)]"
  have hd: "take RECORD_HEADER_SIZE (encode_record_frame lsn r @ rest) = ?hd"
      "drop RECORD_HEADER_SIZE (encode_record_frame lsn r @ rest) = serialize_payload r @ rest"
      "\<not> length (encode_record_frame lsn r @ rest) < RECORD_HEADER_SIZE"
    by (simp_all add: frame_header RECORD_HEADER_SIZE_def)
  have len: "unat (of_nat (serialized_size r) :: u32) = serialized_size r"
    using assms by (simp add: frame_ok_def unat_of_nat)
  have body: "drop 4 ?hd @ serialize_payload r = frame_body lsn r"
    by (simp add: frame_body_def)
  have des: "deserialize (record_type r) (serialize_payload r) = Ok r"
    using deserialize_serialize [of r "[]"] assms by (simp add: frame_ok_def)
  have pl: "serialized_size r - RECORD_HEADER_SIZE = length (serialize_payload r)"
      "\<not> serialized_size r < RECORD_HEADER_SIZE"
    by (simp_all add: serialized_size_def length_serialize_payload)
  show ?thesis
    unfolding next_record_def if_not_P [OF hd(3)] hd(1,2) Let_def
    using body by (simp add: len pl des nth_append)
qed

lemma next_record_torn:
  assumes "frame_ok (lsn, r)" and "k < length (encode_record_frame lsn r)"
  shows "next_record (take k (encode_record_frame lsn r)) \<in> {(None, []), (Some (Err UnexpectedEof), [])}"
proof (cases "k < RECORD_HEADER_SIZE")
  case True
  then have "length (take k (encode_record_frame lsn r)) < RECORD_HEADER_SIZE"
    by simp
  then show ?thesis
    unfolding next_record_def by simp
next
  case False
  let ?hd = "u32_to_le_bytes (crc32 (frame_body lsn r)) @ u32_to_le_bytes (of_nat (serialized_size r))
      @ u64_to_le_bytes lsn @ [record_type_code (record_type r)]"
  have k: "take k (encode_record_frame lsn r) = ?hd @ take (k - RECORD_HEADER_SIZE) (serialize_payload r)"
    using False by (simp add: frame_header RECORD_HEADER_SIZE_def take_Cons')
  have hd: "take RECORD_HEADER_SIZE (take k (encode_record_frame lsn r)) = ?hd"
      "drop RECORD_HEADER_SIZE (take k (encode_record_frame lsn r))
         = take (k - RECORD_HEADER_SIZE) (serialize_payload r)"
      "\<not> length (take k (encode_record_frame lsn r)) < RECORD_HEADER_SIZE"
    unfolding k by (simp_all add: RECORD_HEADER_SIZE_def)
  have len: "unat (of_nat (serialized_size r) :: u32) = serialized_size r"
    using assms by (simp add: frame_ok_def unat_of_nat)
  have short: "length (take (k - RECORD_HEADER_SIZE) (serialize_payload r)) < serialized_size r - RECORD_HEADER_SIZE"
    using assms(2) False
    by (auto simp: length_encode_record_frame serialized_size_def)
  have "\<not> serialized_size r < RECORD_HEADER_SIZE"
    by (simp add: serialized_size_def)
  then show ?thesis
    unfolding next_record_def if_not_P [OF hd(3)] hd(1,2) Let_def
    using short by (simp add: len nth_append)
qed

definition log_bytes :: "(lsn \<times> wal_record) list \<Rightarrow> byte list" where
  "log_bytes ops = concat (map (\<lambda>(lsn, r). encode_record_frame lsn r) ops)"

lemma log_bytes_simps [simp]:
  "log_bytes [] = []"
  "log_bytes ((lsn, r) # ops) = encode_record_frame lsn r @ log_bytes ops"
  "log_bytes (ops @ ops') = log_bytes ops @ log_bytes ops'"
  by (simp_all add: log_bytes_def)

lemma read_records_frame:
  "frame_ok (lsn, r) \<Longrightarrow> read_records (encode_record_frame lsn r @ rest)
     = (let (rs, e) = read_records rest in ((lsn, r) # rs, e))"
  by (simp add: read_records.simps [of "encode_record_frame lsn r @ rest"] next_record_frame)

lemma read_records_empty [simp]: "read_records [] = ([], EndOfLog)"
  by (simp add: read_records.simps [of "[]"] next_record_def RECORD_HEADER_SIZE_def)

lemma read_records_prefix:
  assumes "\<forall>lr\<in>set ops. frame_ok lr"
  shows "\<exists>m e. read_records (take n (log_bytes ops)) = (take m ops, e) \<and> m \<le> length ops \<and>
     length (log_bytes (take m ops)) \<le> n \<and>
     (m < length ops \<longrightarrow> n < length (log_bytes (take (Suc m) ops))) \<and>
     (e = EndOfLog \<or> e = ReadError UnexpectedEof) \<and> (n = length (log_bytes (take m ops)) \<longrightarrow> e = EndOfLog)"
  using assms
proof (induction ops arbitrary: n)
  case (Cons lr ops)
  obtain lsn r where lr: "lr = (lsn, r)"
    by fastforce
  let ?f = "encode_record_frame lsn r"
  have ok: "frame_ok (lsn, r)"
    using Cons.prems lr by simp
  show ?case
  proof (cases "n < length ?f")
    case True
    then have "take n (log_bytes (lr # ops)) = take n ?f"
      by (simp add: lr)
    moreover have "fst (read_records (take n ?f)) = [] \<and>
        (snd (read_records (take n ?f)) = EndOfLog \<or>
         snd (read_records (take n ?f)) = ReadError UnexpectedEof)"
      using next_record_torn [OF ok True] by (auto simp: read_records.simps [of "take n ?f"])
    ultimately show ?thesis
      using True by (intro exI [of _ 0] exI [of _ "snd (read_records (take n ?f))"])
        (cases "read_records (take n ?f)"; auto simp: lr)
  next
    case False
    then have "take n (log_bytes (lr # ops)) = ?f @ take (n - length ?f) (log_bytes ops)"
      by (simp add: lr)
    moreover obtain m e where IH:
        "read_records (take (n - length ?f) (log_bytes ops)) = (take m ops, e)" "m \<le> length ops"
        "length (log_bytes (take m ops)) \<le> n - length ?f"
        "m < length ops \<longrightarrow> n - length ?f < length (log_bytes (take (Suc m) ops))"
        "e = EndOfLog \<or> e = ReadError UnexpectedEof"
        "n - length ?f = length (log_bytes (take m ops)) \<longrightarrow> e = EndOfLog"
      using Cons.IH [of "n - length ?f"] Cons.prems by auto
    ultimately show ?thesis
      using False IH
      by (intro exI [of _ "Suc m"] exI [of _ e]) (auto simp: read_records_frame [OF ok] lr)
  qed
qed simp

text \<open>
  C6: crash consistency of the log file.  Whatever prefix of the bytes of a log
  reaches the disk, the reader returns exactly the records whose frames are
  complete, in order, and then stops at the end of the log or at the torn
  frame; nothing after or inside a torn frame is ever returned as a record.
\<close>

theorem log_prefix_replay:
  assumes "\<forall>lr\<in>set ops. frame_ok lr"
  shows "\<exists>m e. read_records (take n (log_bytes ops)) = (take m ops, e) \<and>
     length (log_bytes (take m ops)) \<le> n \<and>
     (m < length ops \<longrightarrow> n < length (log_bytes (take (Suc m) ops))) \<and>
     (e = EndOfLog \<or> e = ReadError UnexpectedEof)"
  using read_records_prefix [OF assms, of n] by blast

theorem log_prefix_replay_witness:
  "\<exists>m e. read_records (take 30 (log_bytes [(1, Remove [7]), (2, BeginTx 4)]))
      = (take m [(1, Remove [7]), (2, BeginTx 4)], e) \<and>
     length (log_bytes (take m [(1, Remove [7]), (2, BeginTx 4)])) \<le> 30 \<and>
     (m < length [(1 :: lsn, Remove [7]), (2, BeginTx 4)] \<longrightarrow>
        30 < length (log_bytes (take (Suc m) [(1, Remove [7]), (2, BeginTx 4)]))) \<and>
     (e = EndOfLog \<or> e = ReadError UnexpectedEof)"
  by (rule log_prefix_replay)
    (simp add: frame_ok_def serialized_size_def RECORD_HEADER_SIZE_def short_def)

text \<open>
  C12: a log file header with an accepted magic and version is read back field by
  field, and its regime byte decodes to the regime it was stamped with.
\<close>

theorem wal_header_roundtrip:
  assumes "wal_header_wf h" and "wh_rank_regime h = rank_regime_code g"
  shows "wal_header_from_bytes (wal_header_to_bytes h) = Ok h \<and> regime h = g \<and>
    length (wal_header_to_bytes h) = 64"
proof (intro conjI)
  show "wal_header_from_bytes (wal_header_to_bytes h) = Ok h"
    using assms(1) by (rule wal_header_from_to)
  show "regime h = g"
    using assms(2) by (cases g) (simp_all add: regime_def rank_regime_from_u8_def)
  show "length (wal_header_to_bytes h) = 64"
    using assms(1) by (simp add: wal_header_wf_def wal_header_to_bytes_def length_wal_magic)
qed

theorem wal_header_roundtrip_witness:
  "wal_header_from_bytes (wal_header_to_bytes wal_header_new) = Ok wal_header_new \<and>
   regime wal_header_new = Owned \<and> length (wal_header_to_bytes wal_header_new) = 64"
  by (rule wal_header_roundtrip)
    (simp_all add: wal_header_wf_def wal_header_new_def MIN_SUPPORTED_VERSION_def WAL_VERSION_def)

lemma read_records_all:
  assumes "\<forall>lr\<in>set ops. frame_ok lr"
  shows "read_records (log_bytes ops) = (ops, EndOfLog)"
proof -
  obtain m e where m: "read_records (log_bytes ops) = (take m ops, e)" "m \<le> length ops"
      "m < length ops \<longrightarrow> length (log_bytes ops) < length (log_bytes (take (Suc m) ops))"
      "length (log_bytes ops) = length (log_bytes (take m ops)) \<longrightarrow> e = EndOfLog"
    using read_records_prefix [OF assms, of "length (log_bytes ops)"] by auto
  have "length (log_bytes (take (Suc m) ops)) \<le> length (log_bytes ops)"
    by (metis append_take_drop_id le_add1 length_append log_bytes_simps(3))
  then have "m = length ops"
    using m(2,3) by linarith
  then show ?thesis
    using m by simp
qed

subsection \<open>Appending\<close>

lemma append_record_eq:
  "append_record r w = (ww_next_lsn w,
     w\<lparr> ww_next_lsn := ww_next_lsn w + 1,
        ww_file := ww_file w @ encode_record_frame (ww_next_lsn w) r \<rparr>)"
  by (simp add: append_record_def write_record_at_lsn_def Let_def)

primrec append_all :: "wal_record list \<Rightarrow> wal_writer \<Rightarrow> (lsn \<times> wal_record) list \<times> wal_writer" where
  "append_all [] w = ([], w)"
| "append_all (r # rs) w =
     (let (lsn, w) = append_record r w; (ops, w) = append_all rs w in ((lsn, r) # ops, w))"

lemma append_all_file:
  "append_all rs w = (ops, w') \<Longrightarrow>
   ww_file w' = ww_file w @ log_bytes ops \<and> map snd ops = rs \<and>
   map fst ops = map (\<lambda>i. ww_next_lsn w + of_nat i) [0..<length rs]"
proof (induction rs arbitrary: w ops w')
  case (Cons r rs)
  let ?w = "snd (append_record r w)"
  obtain ops' where ops: "append_all rs ?w = (ops', w')" "ops = (ww_next_lsn w, r) # ops'"
    using Cons.prems by (auto simp: append_record_eq split: prod.splits)
  have "[0..<Suc (length rs)] = 0 # map Suc [0..<length rs]"
    by (simp add: upt_conv_Cons map_Suc_upt del: upt_Suc)
  then show ?case
    using Cons.IH [OF ops(1)] ops(2) by (simp add: append_record_eq algebra_simps del: upt_Suc)
qed simp

text \<open>
  C10: records appended to a fresh log receive consecutive LSNs, and reading the
  resulting file returns exactly those records with those LSNs and ends cleanly.
\<close>

theorem append_then_read:
  assumes "append_all rs w = (ops, w')" and "ww_file w = []" and "\<forall>lr\<in>set ops. frame_ok lr"
  shows "read_records (ww_file w') = (ops, EndOfLog) \<and> map snd ops = rs \<and>
    map fst ops = map (\<lambda>i. ww_next_lsn w + of_nat i) [0..<length rs]"
  using append_all_file [OF assms(1)] assms(2) read_records_all [OF assms(3)] by simp

theorem append_then_read_witness:
  "\<exists>ops w'. append_all [Remove [1], CommitTx 3]
       \<lparr> ww_file = [], ww_next_lsn = 1, ww_segment_durable_lsn = 0,
         ww_segment_durable_pending = {}, ww_segment_failed_lsn = - 1 \<rparr> = (ops, w') \<and>
     read_records (ww_file w') = (ops, EndOfLog) \<and> ops = [(1, Remove [1]), (2, CommitTx 3)]"
proof -
  let ?w = "\<lparr> ww_file = [], ww_next_lsn = 1, ww_segment_durable_lsn = 0,
         ww_segment_durable_pending = {}, ww_segment_failed_lsn = - 1 \<rparr>"
  obtain w' where a: "append_all [Remove [1], CommitTx 3] ?w = ([(1, Remove [1]), (2, CommitTx 3)], w')"
    by (simp add: append_record_eq)
  then show ?thesis
    using append_then_read [OF a]
    by (simp add: frame_ok_def serialized_size_def RECORD_HEADER_SIZE_def short_def)
qed

subsection \<open>The segment frontier\<close>

datatype segment_call =
    SegmentReserve
  | SegmentDurable lsn
  | SegmentFailed lsn
  | SegmentBuffered wal_record

fun segment_step :: "segment_call \<Rightarrow> wal_writer \<Rightarrow> wal_writer" where
  "segment_step SegmentReserve w = snd (allocate_lsn w)"
| "segment_step (SegmentDurable lsn) w = mark_segment_durable lsn w"
| "segment_step (SegmentFailed lsn) w = mark_segment_failed lsn w"
| "segment_step (SegmentBuffered r) w = snd (append_record r w)"

fun segment_durable :: "segment_call \<Rightarrow> lsn set" where
  "segment_durable (SegmentDurable lsn) = {lsn}"
| "segment_durable _ = {}"

definition segment_inv :: "lsn \<Rightarrow> lsn set \<Rightarrow> wal_writer \<Rightarrow> bool" where
  "segment_inv base S w \<longleftrightarrow> 0 \<notin> S \<and>
     base \<le> ww_segment_durable_lsn w \<and> {base<..ww_segment_durable_lsn w} \<subseteq> S \<and>
     ww_segment_durable_pending w \<subseteq> S \<and>
     {l \<in> S. ww_segment_durable_lsn w < l} \<subseteq> ww_segment_durable_pending w \<and>
     ww_segment_durable_lsn w + 1 \<notin> ww_segment_durable_pending w"

lemma mark_segment_durable_inv:
  assumes inv: "segment_inv base S w" and "lsn \<noteq> 0"
  shows "segment_inv base (insert lsn S) (mark_segment_durable lsn w)"
proof -
  let ?d = "ww_segment_durable_lsn w"
  obtain c q where d: "drain_pending ?d (insert lsn (ww_segment_durable_pending w)) = (c, q)"
    by fastforce
  have "0 \<notin> insert lsn (ww_segment_durable_pending w)"
    using assms by (auto simp: segment_inv_def)
  note spec = drain_pending_spec [OF d this]
  have "{base<..c} \<subseteq> insert lsn S"
  proof
    fix l
    assume "l \<in> {base<..c}"
    then consider "l \<in> {base<..?d}" | "l \<in> {?d<..c}"
      by fastforce
    then show "l \<in> insert lsn S"
      using spec inv by cases (auto simp: segment_inv_def)
  qed
  moreover have "{l \<in> insert lsn S. c < l} \<subseteq> q"
    using spec inv by (auto simp: segment_inv_def)
  ultimately show ?thesis
    using spec inv assms(2) d by (auto simp: segment_inv_def mark_segment_durable_def)
qed

interpretation segments: contiguous_frontier
  ww_segment_durable_lsn segment_step segment_durable "\<lambda>l. l \<noteq> 0" segment_inv
proof unfold_locales
  show "segment_inv base (S \<union> segment_durable c) (segment_step c w)"
    if "segment_inv base S w" and "\<forall>l\<in>segment_durable c. l \<noteq> 0" for base S w c
  proof (cases c)
    case (SegmentDurable lsn)
    then show ?thesis
      using mark_segment_durable_inv [OF that(1), of lsn] that(2) by simp
  qed (use that in \<open>auto simp: segment_inv_def allocate_lsn_def mark_segment_failed_def append_record_eq\<close>)
qed (auto simp: segment_inv_def dest: word_less_succ)

text \<open>
  C11: a lock-free append is acknowledged only under a gap-free durable prefix.
  Start from a log whose LSNs up to \<open>base\<close> are durable and let any number of
  appenders interleave: if the wait for LSN \<open>l\<close> returns \<open>Ok\<close>, every LSN above
  \<open>base\<close> and up to \<open>l\<close> has been reported durable.
\<close>

theorem acked_segment_prefix_durable:
  assumes "ww_segment_durable_lsn w = base" and "ww_segment_durable_pending w = {}"
    and "\<forall>l\<in>\<Union> (segment_durable ` set cs). l \<noteq> 0"
    and "wait_for_segment_durable_lsn_poll l (fold segment_step cs w) = Some (Ok ())"
  shows "{base<..l} \<subseteq> \<Union> (segment_durable ` set cs)"
proof -
  have "segment_inv base {} w"
    using assms(1,2) by (simp add: segment_inv_def)
  from segments.tracked_run [OF this assms(3)]
  have "segment_inv base (\<Union> (segment_durable ` set cs)) (fold segment_step cs w)"
    by simp
  from segments.tracked_closed [OF this]
  have "{base<..ww_segment_durable_lsn (fold segment_step cs w)} \<subseteq> \<Union> (segment_durable ` set cs)"
    by simp
  moreover have "l \<le> ww_segment_durable_lsn (fold segment_step cs w)"
    using assms(4) by (auto simp: wait_for_segment_durable_lsn_poll_def Let_def split: if_splits)
  ultimately show ?thesis
    by force
qed

theorem acked_segment_prefix_durable_witness:
  "{0<..2} \<subseteq> \<Union> (segment_durable ` set [SegmentDurable 2, SegmentDurable 1])"
proof (rule acked_segment_prefix_durable)
  let ?w = "\<lparr> ww_file = [], ww_next_lsn = 3, ww_segment_durable_lsn = 0,
         ww_segment_durable_pending = {}, ww_segment_failed_lsn = - 1 \<rparr>"
  show "wait_for_segment_durable_lsn_poll 2 (fold segment_step [SegmentDurable 2, SegmentDurable 1] ?w)
      = Some (Ok ())"
    by (simp add: mark_segment_durable_def drain_pending.simps wait_for_segment_durable_lsn_poll_def)
qed simp_all

end
