(* ===== verification/Edge_Store.thy ===== *)
theory Edge_Store
  imports Prelude
begin

text \<open>
  The immutable adaptive edge store shared by the persistent trie variants
  (\<open>persistent_artrie/core/adaptive_edge_store.rs\<close>).  The label trait is a record
  of its methods with one instance per label type; a label type either has a
  byte image for every label or for none.  The six storage tiers keep the same
  strictly ascending entry sequence with different indexes.  Memory allocation
  succeeds, so the allocation error variants of the source have no counterpart,
  and the \<open>part_legacy_edge_store\<close> build variant is not the one modelled.

  The lemmas show that every tier answers lookups as the finite map its entries
  describe, that each operation keeps the invariant and updates that map, and
  that the tiers are observationally the same.  The locale \<open>edge_map\<close> is the
  contract the trie nodes rely on.
\<close>

definition TINY_LIMIT :: nat where "TINY_LIMIT = 4"
definition SMALL_LIMIT :: nat where "SMALL_LIMIT = 16"
definition SORTED_LIMIT :: nat where "SORTED_LIMIT = 64"
definition BYTE_INDEXED_LIMIT :: nat where "BYTE_INDEXED_LIMIT = 48"
definition BYTE_INDEX48_SENTINEL :: u8 where "BYTE_INDEX48_SENTINEL = 0xFF"
definition BYTE_DENSE_SENTINEL :: u16 where "BYTE_DENSE_SENTINEL = 0xFFFF"

subsection \<open>Labels\<close>

record 'l adaptive_label =
  as_byte :: "'l \<Rightarrow> u8 option"
  adaptive_sorted_limit :: nat

definition u8_label :: "u8 adaptive_label" where
  "u8_label = \<lparr> as_byte = Some, adaptive_sorted_limit = SORTED_LIMIT \<rparr>"

definition u32_label :: "u32 adaptive_label" where
  "u32_label = \<lparr> as_byte = (\<lambda>_. None), adaptive_sorted_limit = SORTED_LIMIT \<rparr>"

definition u64_label :: "u64 adaptive_label" where
  "u64_label = \<lparr> as_byte = (\<lambda>_. None), adaptive_sorted_limit = 128 \<rparr>"

subsection \<open>Tiers\<close>

type_synonym ('l, 'c) entries = "('l \<times> 'c) list"

datatype (dead 'l, 'c) adaptive_edge_store =
    Tiny "('l \<times> 'c) list"
  | Small "('l \<times> 'c) list"
  | Sorted "('l \<times> 'c) list"
  | SparseIndexed "'l \<Rightarrow> nat option" "('l \<times> 'c) list"
  | ByteIndexed48 "u8 list" "('l \<times> 'c) list"
  | ByteDense256 "u16 list" "('l \<times> 'c) list"

definition edge_new :: "('l, 'c) adaptive_edge_store" where
  "edge_new = Tiny []"

fun edge_entries :: "('l, 'c) adaptive_edge_store \<Rightarrow> ('l, 'c) entries" where
  "edge_entries (Tiny es) = es"
| "edge_entries (Small es) = es"
| "edge_entries (Sorted es) = es"
| "edge_entries (SparseIndexed _ es) = es"
| "edge_entries (ByteIndexed48 _ es) = es"
| "edge_entries (ByteDense256 _ es) = es"

fun edge_len :: "('l, 'c) adaptive_edge_store \<Rightarrow> nat" where
  "edge_len (Tiny es) = length es"
| "edge_len (Small es) = length es"
| "edge_len (Sorted es) = length es"
| "edge_len (SparseIndexed _ es) = length es"
| "edge_len (ByteIndexed48 _ es) = length es"
| "edge_len (ByteDense256 _ es) = length es"

definition edge_is_empty :: "('l, 'c) adaptive_edge_store \<Rightarrow> bool" where
  "edge_is_empty s = (edge_len s = 0)"

text \<open>\<open>SortedUniqueEntries::try_new\<close>: the error is the position of the second
  entry of the first non-ascending pair.\<close>

fun first_non_ascending :: "nat \<Rightarrow> ('l::linorder, 'c) entries \<Rightarrow> nat option" where
  "first_non_ascending i (x # y # es) =
     (if fst y \<le> fst x then Some i else first_non_ascending (i + 1) (y # es))"
| "first_non_ascending i _ = None"

definition sorted_unique_try_new :: "('l::linorder, 'c) entries \<Rightarrow> nat + ('l, 'c) entries" where
  "sorted_unique_try_new es =
     (case first_non_ascending 0 es of Some index \<Rightarrow> Err (index + 1) | None \<Rightarrow> Ok es)"

fun sorted_unique_try_map ::
    "('c \<Rightarrow> 'e + 'd) \<Rightarrow> ('l, 'c) entries \<Rightarrow> 'e + ('l, 'd) entries" where
  "sorted_unique_try_map f [] = Ok []"
| "sorted_unique_try_map f ((l, c) # es) =
     try_res (f c) (\<lambda>d. try_res (sorted_unique_try_map f es) (\<lambda>ds. Ok ((l, d) # ds)))"

subsection \<open>Searching\<close>

fun find_linear :: "('l::linorder, 'c) entries \<Rightarrow> 'l \<Rightarrow> 'c option" where
  "find_linear [] label = None"
| "find_linear ((edge, child) # es) label =
     (if edge = label then Some child else if label < edge then None else find_linear es label)"

text \<open>\<open>slice::binary_search_by_key\<close> of the standard library on \<open>entries[lo..hi]\<close>:
  \<open>Ok\<close> the position of the label or \<open>Err\<close> its insertion point.\<close>

function bsearch :: "('l::linorder, 'c) entries \<Rightarrow> 'l \<Rightarrow> nat \<Rightarrow> nat \<Rightarrow> nat + nat" where
  "bsearch es label lo hi =
     (if hi \<le> lo then Err lo
      else let mid = lo + (hi - lo) div 2 in
        if fst (es ! mid) = label then Ok mid
        else if fst (es ! mid) < label then bsearch es label (mid + 1) hi
        else bsearch es label lo mid)"
  by pat_completeness auto
termination
  by (relation "measure (\<lambda>(es, label, lo, hi). hi - lo)") auto

declare bsearch.simps [simp del]

definition binary_search_by_key :: "('l::linorder, 'c) entries \<Rightarrow> 'l \<Rightarrow> nat + nat" where
  "binary_search_by_key es label = bsearch es label 0 (length es)"

definition find_binary :: "('l::linorder, 'c) entries \<Rightarrow> 'l \<Rightarrow> 'c option" where
  "find_binary es label =
     (case binary_search_by_key es label of Inr i \<Rightarrow> Some (snd (es ! i)) | Inl _ \<Rightarrow> None)"

text \<open>\<open>slice::get\<close>.\<close>

definition get_at :: "'a list \<Rightarrow> nat \<Rightarrow> 'a option" where
  "get_at xs i = (if i < length xs then Some (xs ! i) else None)"

fun edge_find ::
    "'l adaptive_label \<Rightarrow> ('l::linorder, 'c) adaptive_edge_store \<Rightarrow> 'l \<Rightarrow> 'c option" where
  "edge_find L (Tiny es) label = find_linear es label"
| "edge_find L (Small es) label = find_binary es label"
| "edge_find L (Sorted es) label = find_binary es label"
| "edge_find L (SparseIndexed positions es) label =
     map_option snd (Option.bind (positions label) (get_at es))"
| "edge_find L (ByteIndexed48 index es) label =
     (case as_byte L label of
        None \<Rightarrow> None
      | Some b \<Rightarrow>
          (let idx = index ! unat b in
           if idx = BYTE_INDEX48_SENTINEL then None else map_option snd (get_at es (unat idx))))"
| "edge_find L (ByteDense256 index es) label =
     (case as_byte L label of
        None \<Rightarrow> None
      | Some b \<Rightarrow>
          (let idx = index ! unat b in
           if idx = BYTE_DENSE_SENTINEL then None else map_option snd (get_at es (unat idx))))"

definition edge_contains_key ::
    "'l adaptive_label \<Rightarrow> ('l::linorder, 'c) adaptive_edge_store \<Rightarrow> 'l \<Rightarrow> bool" where
  "edge_contains_key L s label = (edge_find L s label \<noteq> None)"

definition edge_entry_at :: "('l, 'c) adaptive_edge_store \<Rightarrow> nat \<Rightarrow> ('l \<times> 'c) option" where
  "edge_entry_at s i = get_at (edge_entries s) i"

subsection \<open>Building\<close>

text \<open>The loops over \<open>entries.iter().enumerate()\<close>, from position \<open>i\<close>.\<close>

fun sparse_index_from :: "nat \<Rightarrow> ('l, 'c) entries \<Rightarrow> ('l \<Rightarrow> nat option) \<Rightarrow> 'l \<Rightarrow> nat option" where
  "sparse_index_from i [] positions = positions"
| "sparse_index_from i ((label, _) # es) positions =
     sparse_index_from (i + 1) es (positions(label \<mapsto> i))"

definition build_sparse_index :: "('l, 'c) entries \<Rightarrow> 'l \<Rightarrow> nat option" where
  "build_sparse_index es = sparse_index_from 0 es (\<lambda>_. None)"

fun byte_index_from ::
    "'l adaptive_label \<Rightarrow> (nat \<Rightarrow> 'i) \<Rightarrow> nat \<Rightarrow> ('l, 'c) entries \<Rightarrow> 'i list \<Rightarrow> 'i list" where
  "byte_index_from L cast i [] index = index"
| "byte_index_from L cast i ((label, _) # es) index =
     byte_index_from L cast (i + 1) es
       (case as_byte L label of Some b \<Rightarrow> index[unat b := cast i] | None \<Rightarrow> index)"

definition build_byte_index48 :: "'l adaptive_label \<Rightarrow> ('l, 'c) entries \<Rightarrow> u8 list" where
  "build_byte_index48 L es = byte_index_from L of_nat 0 es (replicate 256 BYTE_INDEX48_SENTINEL)"

definition build_byte_dense_index :: "'l adaptive_label \<Rightarrow> ('l, 'c) entries \<Rightarrow> u16 list" where
  "build_byte_dense_index L es = byte_index_from L of_nat 0 es (replicate 256 BYTE_DENSE_SENTINEL)"

definition from_sorted_entries ::
    "'l adaptive_label \<Rightarrow> ('l, 'c) entries \<Rightarrow> ('l, 'c) adaptive_edge_store" where
  "from_sorted_entries L es =
     (let len = length es in
      if len \<le> TINY_LIMIT then Tiny es
      else if len \<le> SMALL_LIMIT then Small es
      else if as_byte L (fst (hd es)) \<noteq> None then
        if len \<le> BYTE_INDEXED_LIMIT then ByteIndexed48 (build_byte_index48 L es) es
        else ByteDense256 (build_byte_dense_index L es) es
      else if len \<le> adaptive_sorted_limit L then Sorted es
      else SparseIndexed (build_sparse_index es) es)"

definition with_edge ::
    "'l adaptive_label \<Rightarrow> ('l::linorder, 'c) adaptive_edge_store \<Rightarrow> 'l \<Rightarrow> 'c \<Rightarrow>
     ('l, 'c) adaptive_edge_store" where
  "with_edge L s label child =
     (let es = edge_entries s in
      case binary_search_by_key es label of
        Inr i \<Rightarrow> from_sorted_entries L (take i es @ [(label, child)] @ drop (i + 1) es)
      | Inl i \<Rightarrow> from_sorted_entries L (take i es @ [(label, child)] @ drop i es))"

definition without_edge ::
    "'l adaptive_label \<Rightarrow> ('l::linorder, 'c) adaptive_edge_store \<Rightarrow> 'l \<Rightarrow>
     ('l, 'c) adaptive_edge_store option" where
  "without_edge L s label =
     (let es = edge_entries s in
      case binary_search_by_key es label of
        Inr i \<Rightarrow> Some (from_sorted_entries L (take i es @ drop (i + 1) es))
      | Inl _ \<Rightarrow> None)"

definition edge_clone ::
    "'l adaptive_label \<Rightarrow> ('l, 'c) adaptive_edge_store \<Rightarrow> ('l, 'c) adaptive_edge_store" where
  "edge_clone L s = from_sorted_entries L (edge_entries s)"

subsection \<open>Replacing payloads\<close>

datatype existing_replacement_error = Empty | NotStrictlyAscending | EdgeAbsent | TierInvariant

fun merge_existing_replacements ::
    "('l::linorder, 'c) entries \<Rightarrow> ('l, 'c) entries \<Rightarrow> existing_replacement_error + ('l, 'c) entries" where
  "merge_existing_replacements [] [] = Ok []"
| "merge_existing_replacements [] (r # rs) = Err EdgeAbsent"
| "merge_existing_replacements ((l, c) # es) [] =
     try_res (merge_existing_replacements es []) (\<lambda>out. Ok ((l, c) # out))"
| "merge_existing_replacements ((l, c) # es) ((rl, rc) # rs) =
     (if rl < l then Err EdgeAbsent
      else if rl = l then try_res (merge_existing_replacements es rs) (\<lambda>out. Ok ((l, rc) # out))
      else try_res (merge_existing_replacements es ((rl, rc) # rs)) (\<lambda>out. Ok ((l, c) # out)))"

fun replace_in_tier ::
    "('l::linorder, 'c) adaptive_edge_store \<Rightarrow> ('l, 'c) entries \<Rightarrow>
     existing_replacement_error + ('l, 'c) adaptive_edge_store" where
  "replace_in_tier (Tiny source) rs =
     (if TINY_LIMIT < length source then Err TierInvariant
      else try_res (merge_existing_replacements source rs) (\<lambda>es. Ok (Tiny es)))"
| "replace_in_tier (Small source) rs =
     (if SMALL_LIMIT < length source then Err TierInvariant
      else try_res (merge_existing_replacements source rs) (\<lambda>es. Ok (Small es)))"
| "replace_in_tier (Sorted source) rs =
     try_res (merge_existing_replacements source rs) (\<lambda>es. Ok (Sorted es))"
| "replace_in_tier (SparseIndexed _ source) rs =
     try_res (merge_existing_replacements source rs)
       (\<lambda>es. Ok (SparseIndexed (build_sparse_index es) es))"
| "replace_in_tier (ByteIndexed48 index source) rs =
     try_res (merge_existing_replacements source rs) (\<lambda>es. Ok (ByteIndexed48 index es))"
| "replace_in_tier (ByteDense256 index source) rs =
     try_res (merge_existing_replacements source rs) (\<lambda>es. Ok (ByteDense256 index es))"

definition try_with_existing_replacements ::
    "('l::linorder, 'c) adaptive_edge_store \<Rightarrow> ('l, 'c) entries \<Rightarrow>
     existing_replacement_error + ('l, 'c) adaptive_edge_store" where
  "try_with_existing_replacements s rs =
     (if rs = [] then Err Empty
      else if first_non_ascending 0 rs \<noteq> None then Err NotStrictlyAscending
      else replace_in_tier s rs)"

subsection \<open>Vocabulary of the invariant\<close>

abbreviation ascending :: "('l::linorder, 'c) entries \<Rightarrow> bool" where
  "ascending es \<equiv> sorted_wrt (<) (map fst es)"

definition label_ok :: "'l adaptive_label \<Rightarrow> bool" where
  "label_ok L \<longleftrightarrow> (\<forall>l. as_byte L l = None) \<or> ((\<forall>l. as_byte L l \<noteq> None) \<and> inj (as_byte L))"

lemma label_ok_instances [simp]: "label_ok u8_label" "label_ok u32_label" "label_ok u64_label"
  by (simp_all add: label_ok_def u8_label_def u32_label_def u64_label_def)

subsection \<open>Ascending entries as maps\<close>

lemma ascending_distinct: "ascending es \<Longrightarrow> distinct (map fst es)"
  by (simp add: strict_sorted_iff)

lemma ascending_map_of_eq:
  assumes "ascending es" "ascending fs" "map_of es = map_of fs"
  shows "es = fs"
proof -
  have "set es = set fs"
    using assms map_of_eq_Some_iff [OF ascending_distinct] by (metis prod.exhaust subsetI subset_antisym)
  then have "map fst es = map fst fs"
    using assms(1,2) by (metis set_map strict_sorted_equal)
  then show ?thesis
    using \<open>set es = set fs\<close> ascending_distinct [OF assms(1)]
    by (metis distinct_map map_inj_on sup.idem)
qed

lemma ascending_nth:
  "ascending es \<Longrightarrow> i < j \<Longrightarrow> j < length es \<Longrightarrow> fst (es ! i) < fst (es ! j)"
  using sorted_wrt_nth_less [of "(<)" "map fst es" i j] by simp

lemma first_non_ascending_None: "first_non_ascending i es = None \<longleftrightarrow> ascending es"
proof (induction i es rule: first_non_ascending.induct)
  case (1 i x y es)
  then show ?case
    by (auto simp: not_le)
qed auto

lemma find_linear_map_of: "ascending es \<Longrightarrow> find_linear es label = map_of es label"
proof (induction es label rule: find_linear.induct)
  case (2 edge child es label)
  have "map_of es label = None" if "label < edge"
    using that "2.prems" by (force simp: map_of_eq_None_iff)
  then show ?case
    using 2 by auto
qed simp

definition search_result :: "('l::linorder, 'c) entries \<Rightarrow> 'l \<Rightarrow> nat + nat \<Rightarrow> bool" where
  "search_result es label r \<longleftrightarrow>
     (case r of
        Inr i \<Rightarrow> i < length es \<and> fst (es ! i) = label
      | Inl i \<Rightarrow> i \<le> length es \<and> (\<forall>j<i. fst (es ! j) < label) \<and>
          (\<forall>j. i \<le> j \<longrightarrow> j < length es \<longrightarrow> label < fst (es ! j)))"

lemma bsearch_result:
  assumes "ascending es" and "hi \<le> length es" and "lo \<le> hi"
    and "\<forall>j<lo. fst (es ! j) < label"
    and "\<forall>j. hi \<le> j \<longrightarrow> j < length es \<longrightarrow> label < fst (es ! j)"
  shows "search_result es label (bsearch es label lo hi)"
  using assms
proof (induction es label lo hi rule: bsearch.induct)
  case (1 es label lo hi)
  let ?mid = "lo + (hi - lo) div 2"
  show ?case
  proof (cases "hi \<le> lo")
    case True
    then show ?thesis
      using "1.prems" by (auto simp: bsearch.simps [of es label lo] search_result_def)
  next
    case False
    then have mid: "?mid < length es" "?mid < hi" "lo \<le> ?mid"
      using "1.prems"(2) by auto
    consider "fst (es ! ?mid) = label" | "fst (es ! ?mid) < label" | "label < fst (es ! ?mid)"
      by fastforce
    then show ?thesis
    proof cases
      case 1
      then show ?thesis
        using False mid by (simp add: bsearch.simps [of es label lo] search_result_def)
    next
      case 2
      have "\<forall>j<?mid + 1. fst (es ! j) < label"
        using 2 ascending_nth [OF "1.prems"(1), of _ ?mid] mid(1)
        by (metis Suc_eq_plus1 less_Suc_eq order_less_trans)
      then have "search_result es label (bsearch es label (?mid + 1) hi)"
        using False 2 mid "1.prems" by (intro "1.IH"(1)) auto
      then show ?thesis
        using False 2 by (auto simp: bsearch.simps [of es label lo] Let_def)
    next
      case 3
      have "\<forall>j. ?mid \<le> j \<longrightarrow> j < length es \<longrightarrow> label < fst (es ! j)"
        using 3 ascending_nth [OF "1.prems"(1), of ?mid]
        by (metis le_eq_less_or_eq order_less_trans)
      then have "search_result es label (bsearch es label lo ?mid)"
        using False 3 mid "1.prems" by (intro "1.IH"(2)) auto
      then show ?thesis
        using False 3 by (auto simp: bsearch.simps [of es label lo] Let_def)
    qed
  qed
qed

lemma binary_search_result:
  "ascending es \<Longrightarrow> search_result es label (binary_search_by_key es label)"
  unfolding binary_search_by_key_def by (rule bsearch_result) auto

lemma search_found:
  assumes "ascending es" and "binary_search_by_key es label = Inr i"
  obtains A c B where "es = A @ (label, c) # B" and "take i es = A" and "drop (Suc i) es = B"
proof -
  have "i < length es" "fst (es ! i) = label"
    using binary_search_result [OF assms(1), of label] assms(2) by (auto simp: search_result_def)
  then have "es = take i es @ (label, snd (es ! i)) # drop (Suc i) es"
    by (metis id_take_nth_drop prod.collapse)
  then show ?thesis
    using that by blast
qed

lemma search_missing:
  assumes "ascending es" and "binary_search_by_key es label = Inl i"
  shows "(\<forall>x\<in>fst ` set (take i es). x < label) \<and> (\<forall>x\<in>fst ` set (drop i es). label < x)"
proof -
  have r: "i \<le> length es" "\<forall>j<i. fst (es ! j) < label"
      "\<forall>j. i \<le> j \<longrightarrow> j < length es \<longrightarrow> label < fst (es ! j)"
    using binary_search_result [OF assms(1), of label] assms(2) by (auto simp: search_result_def)
  show ?thesis
  proof (intro conjI ballI)
    show "x < label" if "x \<in> fst ` set (take i es)" for x
      using that r(1,2) by (force simp: in_set_conv_nth)
    show "label < x" if x: "x \<in> fst ` set (drop i es)" for x
    proof -
      obtain e where "e \<in> set (drop i es)" "x = fst e"
        using x by blast
      then obtain k where "k < length es - i" "x = fst (es ! (i + k))"
        by (metis in_set_conv_nth length_drop nth_drop r(1))
      then show ?thesis
        using r(3) by simp
    qed
  qed
qed

lemma map_of_found:
  assumes "ascending es" and "binary_search_by_key es label = Inr i"
  shows "map_of es label = Some (snd (es ! i))"
proof -
  have "i < length es" "fst (es ! i) = label"
    using binary_search_result [OF assms(1), of label] assms(2) by (auto simp: search_result_def)
  then show ?thesis
    using ascending_distinct [OF assms(1)] by (metis map_of_eq_Some_iff nth_mem prod.collapse)
qed

lemma map_of_missing:
  assumes "ascending es" and "binary_search_by_key es label = Inl i"
  shows "map_of es label = None"
proof -
  have "label \<notin> fst ` set (take i es @ drop i es)"
    using search_missing [OF assms] by (auto simp del: append_take_drop_id)
  then show ?thesis
    by (simp add: map_of_eq_None_iff)
qed

lemma find_binary_map_of: "ascending es \<Longrightarrow> find_binary es label = map_of es label"
  by (cases "binary_search_by_key es label")
    (simp_all add: find_binary_def map_of_found map_of_missing)

lemma ascending_replace:
  assumes "ascending (A @ (l, c) # B)"
  shows "ascending (A @ (l, d) # B)"
    and "map_of (A @ (l, d) # B) = (map_of (A @ (l, c) # B))(l \<mapsto> d)"
    and "map_of (A @ B) = (map_of (A @ (l, c) # B))(l := None)" and "ascending (A @ B)"
proof -
  have k: "l \<notin> fst ` set A" "l \<notin> fst ` set B"
    using assms by (auto simp: sorted_wrt_append)
  show "ascending (A @ (l, d) # B)" and "ascending (A @ B)"
    using assms by (simp_all add: sorted_wrt_append)
  have "map_of A l = None" "map_of B l = None"
    using k by (simp_all add: map_of_eq_None_iff)
  then show "map_of (A @ (l, d) # B) = (map_of (A @ (l, c) # B))(l \<mapsto> d)"
      and "map_of (A @ B) = (map_of (A @ (l, c) # B))(l := None)"
    by (auto simp: fun_eq_iff map_add_def split: option.split)
qed

lemma ascending_insert:
  assumes "ascending (A @ B)" and "\<forall>x\<in>fst ` set A. x < l" and "\<forall>x\<in>fst ` set B. l < x"
  shows "ascending (A @ (l, d) # B)" and "map_of (A @ (l, d) # B) = (map_of (A @ B))(l \<mapsto> d)"
proof -
  show "ascending (A @ (l, d) # B)"
    using assms by (auto simp: sorted_wrt_append)
  have "map_of A l = None"
    using assms(2) by (auto simp: map_of_eq_None_iff)
  then show "map_of (A @ (l, d) # B) = (map_of (A @ B))(l \<mapsto> d)"
    by (auto simp: fun_eq_iff map_add_def split: option.split)
qed


subsection \<open>Indexes\<close>

lemma sparse_index_from_Some:
  assumes "distinct (map fst es)"
  shows "sparse_index_from i es p l = Some k \<longleftrightarrow>
    (\<exists>j<length es. fst (es ! j) = l \<and> k = i + j) \<or> (l \<notin> fst ` set es \<and> p l = Some k)"
  using assms
proof (induction i es p rule: sparse_index_from.induct)
  case (2 i label c es p)
  have pos: "(\<exists>j<length ((label, c) # es). fst (((label, c) # es) ! j) = l \<and> k = i + j) \<longleftrightarrow>
      (l = label \<and> k = i) \<or> (\<exists>j<length es. fst (es ! j) = l \<and> k = i + 1 + j)"
    by (auto simp: less_Suc_eq_0_disj)
  have d: "distinct (map fst es)"
    using "2.prems" by simp
  have IH: "sparse_index_from (i + 1) es (p(label \<mapsto> i)) l = Some k \<longleftrightarrow>
      (\<exists>j<length es. fst (es ! j) = l \<and> k = i + 1 + j) \<or>
      (l \<notin> fst ` set es \<and> (p(label \<mapsto> i)) l = Some k)"
    by (rule "2.IH" [OF d])
  show ?case
  proof (cases "l = label")
    case True
    then have "l \<notin> fst ` set es"
      using "2.prems" by simp
    then have "\<not> (\<exists>j<length es. fst (es ! j) = l \<and> k = i + 1 + j)"
      by (metis image_eqI nth_mem)
    then show ?thesis
      unfolding pos using IH True \<open>l \<notin> fst ` set es\<close> by auto
  next
    case False
    then show ?thesis
      unfolding pos using IH by simp
  qed
qed simp

lemma sparse_index_lookup:
  assumes "ascending es"
  shows "map_option snd (Option.bind (build_sparse_index es l) (get_at es)) = map_of es l"
proof (cases "build_sparse_index es l")
  case None
  then have "\<not> (\<exists>j<length es. fst (es ! j) = l)"
    using sparse_index_from_Some [OF ascending_distinct [OF assms], of 0 "\<lambda>_. None" l]
    by (auto simp: build_sparse_index_def)
  then have "map_of es l = None"
    by (metis imageE in_set_conv_nth map_of_eq_None_iff)
  then show ?thesis
    using None by simp
next
  case (Some k)
  then have k: "k < length es" "fst (es ! k) = l"
    using sparse_index_from_Some [OF ascending_distinct [OF assms], of 0 "\<lambda>_. None" l k]
    by (auto simp: build_sparse_index_def)
  then have "map_of es l = Some (snd (es ! k))"
    using ascending_distinct [OF assms] by (metis map_of_eq_Some_iff nth_mem prod.collapse)
  then show ?thesis
    using Some k by (simp add: get_at_def)
qed

lemma length_byte_index_from [simp]: "length (byte_index_from L cast i es index) = length index"
  by (induction L cast i es index rule: byte_index_from.induct) (auto split: option.split)

lemma byte_index_from_labels:
  "map fst es = map fst es' \<Longrightarrow> byte_index_from L cast i es index = byte_index_from L cast i es' index"
proof (induction L cast i es index arbitrary: es' rule: byte_index_from.induct)
  case (2 L cast i label c es index)
  then obtain c' es'' where "es' = (label, c') # es''" "map fst es = map fst es''"
    by (cases es') auto
  then show ?case
    using "2.IH" by (auto split: option.split)
qed auto

lemma byte_index_from_nth:
  assumes "distinct (map (as_byte L o fst) es)" and "\<forall>e\<in>set es. as_byte L (fst e) \<noteq> None"
    and "length index = 256"
  shows "(\<forall>j<length es. as_byte L (fst (es ! j)) = Some b \<longrightarrow>
            byte_index_from L cast i es index ! unat b = cast (i + j)) \<and>
         (Some b \<notin> (as_byte L o fst) ` set es \<longrightarrow>
            byte_index_from L cast i es index ! unat b = index ! unat b)"
  using assms
proof (induction L cast i es index rule: byte_index_from.induct)
  case (2 L cast i label c es index)
  obtain b0 where b0: "as_byte L label = Some b0"
    using "2.prems"(2) by auto
  have notin: "Some b0 \<notin> (as_byte L o fst) ` set es"
    using "2.prems"(1) b0 by auto
  have IH: "(\<forall>j<length es. as_byte L (fst (es ! j)) = Some b \<longrightarrow>
        byte_index_from L cast (i + 1) es (index[unat b0 := cast i]) ! unat b = cast (i + 1 + j)) \<and>
      (Some b \<notin> (as_byte L o fst) ` set es \<longrightarrow>
        byte_index_from L cast (i + 1) es (index[unat b0 := cast i]) ! unat b
          = index[unat b0 := cast i] ! unat b)"
    using "2.IH" "2.prems" b0 by simp
  have "unat b0 < length index"
    using "2.prems"(3) unat_byte_less [of b0] by simp
  show ?case
  proof (cases "b = b0")
    case True
    have "\<forall>j<length es. as_byte L (fst (es ! j)) \<noteq> Some b"
      using notin True by (metis comp_apply image_eqI nth_mem)
    then show ?thesis
      using IH notin True b0 \<open>unat b0 < length index\<close> by (auto simp: less_Suc_eq_0_disj)
  next
    case False
    then have "unat b0 \<noteq> unat b"
      by (simp add: word_unat_eq_iff)
    then show ?thesis
      using IH b0 False by (auto simp: less_Suc_eq_0_disj)
  qed
qed simp


lemma byte_labels:
  assumes "label_ok L" and "ascending es" and "as_byte L l0 \<noteq> None"
  shows "\<forall>l. as_byte L l \<noteq> None" and "inj (as_byte L)"
    and "distinct (map (as_byte L o fst) es)" and "length es \<le> 256"
proof -
  have inj: "inj (as_byte L)" and all: "\<forall>l. as_byte L l \<noteq> None"
    using assms(1,3) by (auto simp: label_ok_def)
  then show "\<forall>l. as_byte L l \<noteq> None" and "inj (as_byte L)"
    by blast+
  have "distinct (map (as_byte L) (map fst es))"
    using inj ascending_distinct [OF assms(2)] inj_on_subset [OF inj] distinct_map [of "as_byte L"]
    by blast
  then show d: "distinct (map (as_byte L o fst) es)"
    by simp
  have "set (map (as_byte L o fst) es) \<subseteq> Some ` (UNIV :: u8 set)"
    using all by force
  then have "card (set (map (as_byte L o fst) es)) \<le> card (Some ` (UNIV :: u8 set))"
    by (intro card_mono) auto
  also have "\<dots> = 256"
    by (simp add: card_image card_word)
  finally show "length es \<le> 256"
    using distinct_card [OF d] by simp
qed

text \<open>A byte index whose cast is exact on the positions and avoids the sentinel
  answers lookups as the map of the entries.\<close>

lemma byte_index_lookup:
  fixes sentinel :: "'i::len word"
  assumes "label_ok L" and "ascending es" and b: "as_byte L l = Some b"
    and exact: "\<forall>j<length es. unat (of_nat j :: 'i word) = j \<and> of_nat j \<noteq> sentinel"
  defines "idx \<equiv> byte_index_from L of_nat 0 es (replicate 256 sentinel) ! unat b"
  shows "(if idx = sentinel then None else map_option snd (get_at es (unat idx))) = map_of es l"
proof -
  have bl: "\<forall>l. as_byte L l \<noteq> None" "inj (as_byte L)" "distinct (map (as_byte L o fst) es)"
    using byte_labels [OF assms(1,2), of l] b by auto
  have nth: "\<forall>j<length es. as_byte L (fst (es ! j)) = Some b \<longrightarrow> idx = of_nat j"
      "Some b \<notin> (as_byte L o fst) ` set es \<longrightarrow> idx = sentinel"
    using byte_index_from_nth [OF bl(3), of "replicate 256 sentinel" b of_nat 0] bl(1)
      unat_byte_less [of b]
    by (auto simp: idx_def)
  show ?thesis
  proof (cases "map_of es l")
    case None
    then have "Some b \<notin> (as_byte L o fst) ` set es"
      using bl(2) b by (metis (no_types, lifting) comp_apply imageE image_eqI injD map_of_eq_None_iff)
    then show ?thesis
      using nth(2) None by simp
  next
    case (Some c)
    then obtain j where j: "j < length es" "es ! j = (l, c)"
      by (metis in_set_conv_nth map_of_SomeD)
    then have "idx = of_nat j"
      using nth(1) b by simp
    then show ?thesis
      using exact j Some by (simp add: get_at_def)
  qed
qed

subsection \<open>The invariant and lookups\<close>

fun tier_inv :: "'l adaptive_label \<Rightarrow> ('l, 'c) adaptive_edge_store \<Rightarrow> bool" where
  "tier_inv L (Tiny es) = (length es \<le> TINY_LIMIT)"
| "tier_inv L (Small es) = (length es \<le> SMALL_LIMIT)"
| "tier_inv L (Sorted es) = True"
| "tier_inv L (SparseIndexed positions es) = (positions = build_sparse_index es)"
| "tier_inv L (ByteIndexed48 index es) = (index = build_byte_index48 L es \<and>
     length es \<le> BYTE_INDEXED_LIMIT \<and> es \<noteq> [] \<and> as_byte L (fst (hd es)) \<noteq> None)"
| "tier_inv L (ByteDense256 index es) = (index = build_byte_dense_index L es \<and>
     es \<noteq> [] \<and> as_byte L (fst (hd es)) \<noteq> None)"

definition edge_inv :: "'l adaptive_label \<Rightarrow> ('l::linorder, 'c) adaptive_edge_store \<Rightarrow> bool" where
  "edge_inv L s \<longleftrightarrow> ascending (edge_entries s) \<and> tier_inv L s"

lemma edge_find_map_of:
  assumes "label_ok L" and "edge_inv L s"
  shows "edge_find L s = map_of (edge_entries s)"
proof
  fix l
  have asc: "ascending (edge_entries s)"
    using assms(2) by (simp add: edge_inv_def)
  show "edge_find L s l = map_of (edge_entries s) l"
  proof (cases s)
    case (ByteIndexed48 index es)
    then have "\<forall>l. as_byte L l \<noteq> None" and "length es \<le> 48"
      using byte_labels [OF assms(1), of es "fst (hd es)"] assms(2) asc
      by (auto simp: edge_inv_def BYTE_INDEXED_LIMIT_def)
    then obtain b where b: "as_byte L l = Some b"
      by blast
    have "\<forall>j<length es. unat (of_nat j :: u8) = j \<and> of_nat j \<noteq> BYTE_INDEX48_SENTINEL"
      using \<open>length es \<le> 48\<close>
      by (auto simp: BYTE_INDEX48_SENTINEL_def unat_of_nat word_unat_eq_iff)
    then show ?thesis
      using byte_index_lookup [OF assms(1) _ b, of es BYTE_INDEX48_SENTINEL] asc assms(2) ByteIndexed48 b
      by (simp add: edge_inv_def build_byte_index48_def Let_def)
  next
    case (ByteDense256 index es)
    then have "\<forall>l. as_byte L l \<noteq> None" and "length es \<le> 256"
      using byte_labels [OF assms(1), of es "fst (hd es)"] assms(2) asc by (auto simp: edge_inv_def)
    then obtain b where b: "as_byte L l = Some b"
      by blast
    have "\<forall>j<length es. unat (of_nat j :: u16) = j \<and> of_nat j \<noteq> BYTE_DENSE_SENTINEL"
      using \<open>length es \<le> 256\<close>
      by (auto simp: BYTE_DENSE_SENTINEL_def unat_of_nat word_unat_eq_iff)
    then show ?thesis
      using byte_index_lookup [OF assms(1) _ b, of es BYTE_DENSE_SENTINEL] asc assms(2) ByteDense256 b
      by (simp add: edge_inv_def build_byte_dense_index_def Let_def)
  qed (use asc assms in \<open>simp_all add: find_linear_map_of find_binary_map_of sparse_index_lookup
      edge_inv_def\<close>)
qed


subsection \<open>Operations\<close>

lemma edge_entries_from_sorted [simp]: "edge_entries (from_sorted_entries L es) = es"
  by (simp add: from_sorted_entries_def Let_def)

lemma edge_len_eq: "edge_len s = length (edge_entries s)"
  by (cases s) simp_all

lemma from_sorted_entries_inv: "ascending es \<Longrightarrow> edge_inv L (from_sorted_entries L es)"
  by (auto simp: edge_inv_def from_sorted_entries_def Let_def TINY_LIMIT_def SMALL_LIMIT_def)

lemma edge_new_inv: "edge_inv L edge_new"
  by (simp add: edge_new_def edge_inv_def)

lemma edge_inv_ascending: "edge_inv L s \<Longrightarrow> ascending (edge_entries s)"
  by (simp add: edge_inv_def)

lemma with_edge_entries:
  assumes "edge_inv L s"
  shows "ascending (edge_entries (with_edge L s l c)) \<and>
    map_of (edge_entries (with_edge L s l c)) = (map_of (edge_entries s))(l \<mapsto> c)"
proof (cases "binary_search_by_key (edge_entries s) l")
  case (Inl i)
  let ?es = "edge_entries s"
  note asc = edge_inv_ascending [OF assms]
  show ?thesis
    using ascending_insert [of "take i ?es" "drop i ?es" l c] search_missing [OF asc Inl] asc
    by (simp add: with_edge_def Inl Let_def)
next
  case (Inr i)
  note asc = edge_inv_ascending [OF assms]
  obtain A c0 B where es: "edge_entries s = A @ (l, c0) # B"
      "take i (edge_entries s) = A" "drop (Suc i) (edge_entries s) = B"
    using search_found [OF asc Inr] .
  have "edge_entries (with_edge L s l c) = A @ (l, c) # B"
    using es(2,3) by (simp add: with_edge_def Inr Let_def)
  then show ?thesis
    using ascending_replace(1,2) [of A l c0 B c] asc es(1) by metis
qed

lemma with_edge_inv: "edge_inv L s \<Longrightarrow> edge_inv L (with_edge L s l c)"
proof -
  have "with_edge L s l c = from_sorted_entries L (edge_entries (with_edge L s l c))"
    by (simp add: with_edge_def Let_def split: sum.split)
  then show "edge_inv L (with_edge L s l c)" if "edge_inv L s"
    using with_edge_entries [OF that] from_sorted_entries_inv by metis
qed

lemma without_edge_entries:
  assumes "edge_inv L s"
  shows "(case without_edge L s l of
      None \<Rightarrow> map_of (edge_entries s) l = None
    | Some s' \<Rightarrow> map_of (edge_entries s) l \<noteq> None \<and> ascending (edge_entries s') \<and>
        map_of (edge_entries s') = (map_of (edge_entries s))(l := None))"
proof (cases "binary_search_by_key (edge_entries s) l")
  case (Inl i)
  then show ?thesis
    using map_of_missing [OF edge_inv_ascending [OF assms] Inl] by (simp add: without_edge_def Inl)
next
  case (Inr i)
  note asc = edge_inv_ascending [OF assms]
  obtain A c0 B where es: "edge_entries s = A @ (l, c0) # B"
      "take i (edge_entries s) = A" "drop (Suc i) (edge_entries s) = B"
    using search_found [OF asc Inr] .
  have eq: "without_edge L s l = Some (from_sorted_entries L (A @ B))"
    using es(2,3) by (simp add: without_edge_def Inr Let_def)
  have "map_of (A @ B) = (map_of (edge_entries s))(l := None)" "ascending (A @ B)"
    using ascending_replace(3,4) [of A l c0 B] asc es(1) by metis+
  then show ?thesis
    using map_of_found [OF asc Inr] eq by simp
qed

lemma without_edge_inv: "edge_inv L s \<Longrightarrow> without_edge L s l = Some s' \<Longrightarrow> edge_inv L s'"
proof -
  assume inv: "edge_inv L s" and s': "without_edge L s l = Some s'"
  have "s' = from_sorted_entries L (edge_entries s')"
    using s' by (auto simp: without_edge_def Let_def split: sum.splits)
  then show "edge_inv L s'"
    using without_edge_entries [OF inv, of l] s' from_sorted_entries_inv by (metis option.simps(5))
qed

subsection \<open>Payload replacement\<close>

lemma merge_no_replacements [simp]: "merge_existing_replacements es [] = Ok es"
  by (induction es) auto

lemma merge_Ok:
  assumes "merge_existing_replacements es rs = Ok out" and "ascending es" and "ascending rs"
  shows "map fst out = map fst es \<and> map_of out = map_of es ++ map_of rs \<and>
    fst ` set rs \<subseteq> fst ` set es"
  using assms
proof (induction es rs arbitrary: out rule: merge_existing_replacements.induct)
  case (4 l c es rl rc rs)
  show ?case
  proof (cases "rl = l")
    case True
    then obtain out' where out: "merge_existing_replacements es rs = Ok out'" "out = (l, rc) # out'"
      using "4.prems"(1) by (auto simp: try_res_eq_Ok)
    then have IH: "map fst out' = map fst es" "map_of out' = map_of es ++ map_of rs"
        "fst ` set rs \<subseteq> fst ` set es"
      using "4.IH"(1) [OF _ True out(1)] True "4.prems" by auto
    have "map_of rs l = None"
      using "4.prems"(3) True by (force simp: map_of_eq_None_iff)
    then show ?thesis
      using IH out(2) True by (auto simp: fun_eq_iff map_add_def split: option.split)
  next
    case False
    then have lt: "\<not> rl < l"
      using "4.prems"(1) by (auto split: if_splits)
    then obtain out' where out: "merge_existing_replacements es ((rl, rc) # rs) = Ok out'"
        "out = (l, c) # out'"
      using "4.prems"(1) False by (auto simp: try_res_eq_Ok)
    have IH: "map fst out' = map fst es \<and> map_of out' = map_of es ++ map_of ((rl, rc) # rs) \<and>
        fst ` set ((rl, rc) # rs) \<subseteq> fst ` set es"
      using "4.prems" by (intro "4.IH"(2) [OF lt False out(1)]) auto
    have "l < rl" and "\<forall>x\<in>fst ` set rs. rl < x"
      using lt False "4.prems"(3) by auto
    then have "map_of ((rl, rc) # rs) l = None"
      by (force simp: map_of_eq_None_iff)
    then show ?thesis
      using IH out(2) by (auto simp: fun_eq_iff map_add_def split: option.split)
  qed
qed (auto simp: try_res_eq_Ok)

lemma merge_total:
  assumes "ascending es" and "ascending rs" and "fst ` set rs \<subseteq> fst ` set es"
  shows "\<exists>out. merge_existing_replacements es rs = Ok out"
  using assms
proof (induction es rs rule: merge_existing_replacements.induct)
  case (4 l c es rl rc rs)
  have above: "\<forall>x\<in>fst ` set es. l < x" "\<forall>x\<in>fst ` set rs. rl < x"
    using "4.prems" by auto
  have notless: "\<not> rl < l"
    using "4.prems"(3) above(1) by auto
  show ?case
  proof (cases "rl = l")
    case True
    then have "fst ` set rs \<subseteq> fst ` set es"
      using "4.prems"(3) above(2) by auto
    then obtain out where "merge_existing_replacements es rs = Ok out"
      using "4.IH"(1) [OF notless True] "4.prems" by auto
    then show ?thesis
      using True by simp
  next
    case False
    then have "fst ` set ((rl, rc) # rs) \<subseteq> fst ` set es"
      using "4.prems"(3) above(2) notless by force
    then obtain out where "merge_existing_replacements es ((rl, rc) # rs) = Ok out"
      using "4.IH"(2) [OF notless False] "4.prems" by auto
    then show ?thesis
      using False notless by simp
  qed
qed auto

lemma merge_error: "merge_existing_replacements es rs = Err e \<Longrightarrow> e = EdgeAbsent"
proof (induction es rs rule: merge_existing_replacements.induct)
  case (4 l c es rl rc rs)
  then show ?case
    by (cases "merge_existing_replacements es rs"; cases "merge_existing_replacements es ((rl, rc) # rs)")
      (auto split: if_splits)
qed auto


text \<open>Two stores in the same tier, the byte tiers with the same index.\<close>

fun same_tier :: "('l, 'c) adaptive_edge_store \<Rightarrow> ('l, 'c) adaptive_edge_store \<Rightarrow> bool" where
  "same_tier (Tiny _) (Tiny _) = True"
| "same_tier (Small _) (Small _) = True"
| "same_tier (Sorted _) (Sorted _) = True"
| "same_tier (SparseIndexed _ _) (SparseIndexed _ _) = True"
| "same_tier (ByteIndexed48 index _) (ByteIndexed48 index' _) = (index' = index)"
| "same_tier (ByteDense256 index _) (ByteDense256 index' _) = (index' = index)"
| "same_tier _ _ = False"

lemma replace_in_tier_Ok:
  assumes "edge_inv L s" and "merge_existing_replacements (edge_entries s) rs = Ok es"
    and "map fst es = map fst (edge_entries s)"
  shows "\<exists>s'. replace_in_tier s rs = Ok s' \<and> edge_entries s' = es \<and> edge_inv L s' \<and> same_tier s s'"
proof -
  have asc: "ascending es"
    using assms(1,3) by (simp add: edge_inv_def)
  have len: "length es = length (edge_entries s)"
    using assms(3) by (rule map_eq_imp_length_eq)
  have idx: "build_byte_index48 L es = build_byte_index48 L (edge_entries s)"
      "build_byte_dense_index L es = build_byte_dense_index L (edge_entries s)"
    unfolding build_byte_index48_def build_byte_dense_index_def
    using byte_index_from_labels [OF assms(3)] by metis+
  have hd: "es \<noteq> [] \<and> fst (hd es) = fst (hd (edge_entries s))" if "edge_entries s \<noteq> []"
    using that assms(3) by (metis hd_map map_is_Nil_conv)
  show ?thesis
    using assms(1,2) asc len idx hd
    by (cases s) (auto simp: edge_inv_def TINY_LIMIT_def SMALL_LIMIT_def)
qed

lemma replace_in_tier_Err:
  assumes "edge_inv L s" and "merge_existing_replacements (edge_entries s) rs = Err e"
  shows "replace_in_tier s rs = Err EdgeAbsent"
  using assms merge_error [OF assms(2)] by (cases s) (auto simp: edge_inv_def)

subsection \<open>The contract of an edge store\<close>

text \<open>What a trie node relies on when it looks up, lists, adds and removes edges.
  A sequence of edits acts on a store through its two operations and on a map
  through update and removal; removing an absent edge changes nothing.\<close>

datatype ('l, 'c) edge_edit = PutEdge 'l 'c | DropEdge 'l

fun edit_with ::
    "('s \<Rightarrow> 'l \<Rightarrow> 'c \<Rightarrow> 's) \<Rightarrow> ('s \<Rightarrow> 'l \<Rightarrow> 's option) \<Rightarrow> ('l, 'c) edge_edit \<Rightarrow> 's \<Rightarrow> 's" where
  "edit_with put_edge drop_edge (PutEdge l c) s = put_edge s l c"
| "edit_with put_edge drop_edge (DropEdge l) s = (case drop_edge s l of None \<Rightarrow> s | Some s' \<Rightarrow> s')"

fun edit_map :: "('l, 'c) edge_edit \<Rightarrow> ('l \<rightharpoonup> 'c) \<Rightarrow> 'l \<rightharpoonup> 'c" where
  "edit_map (PutEdge l c) M = M(l \<mapsto> c)"
| "edit_map (DropEdge l) M = M(l := None)"

locale edge_map =
  fixes lookup :: "'s \<Rightarrow> 'l::linorder \<Rightarrow> 'c option"
    and entries :: "'s \<Rightarrow> ('l \<times> 'c) list"
    and put_edge :: "'s \<Rightarrow> 'l \<Rightarrow> 'c \<Rightarrow> 's"
    and drop_edge :: "'s \<Rightarrow> 'l \<Rightarrow> 's option"
    and inv :: "'s \<Rightarrow> bool"
  assumes lookup_entries: "inv s \<Longrightarrow> lookup s = map_of (entries s)"
    and ascending_entries: "inv s \<Longrightarrow> ascending (entries s)"
    and lookup_put: "inv s \<Longrightarrow> lookup (put_edge s l c) = (lookup s)(l \<mapsto> c)"
    and inv_put: "inv s \<Longrightarrow> inv (put_edge s l c)"
    and drop_None: "inv s \<Longrightarrow> drop_edge s l = None \<longleftrightarrow> lookup s l = None"
    and lookup_drop: "inv s \<Longrightarrow> drop_edge s l = Some s' \<Longrightarrow> lookup s' = (lookup s)(l := None)"
    and inv_drop: "inv s \<Longrightarrow> drop_edge s l = Some s' \<Longrightarrow> inv s'"
begin

lemma in_entries_iff: "inv s \<Longrightarrow> (l, c) \<in> set (entries s) \<longleftrightarrow> lookup s l = Some c"
  by (simp add: lookup_entries ascending_entries ascending_distinct)

lemma length_entries:
  assumes "inv s"
  shows "length (entries s) = card (dom (lookup s))"
  using distinct_card [OF ascending_distinct [OF ascending_entries [OF assms]]]
  by (simp add: lookup_entries [OF assms] dom_map_of_conv_image_fst)

lemma edit_step:
  assumes "inv s"
  shows "inv (edit_with put_edge drop_edge e s) \<and> lookup (edit_with put_edge drop_edge e s) = edit_map e (lookup s)"
proof (cases e)
  case (DropEdge l)
  show ?thesis
  proof (cases "drop_edge s l")
    case None
    then have "lookup s l = None"
      using drop_None [OF assms] by simp
    then show ?thesis
      using None assms DropEdge by (auto simp: fun_eq_iff)
  next
    case (Some s')
    then show ?thesis
      using inv_drop [OF assms] lookup_drop [OF assms] DropEdge by simp
  qed
qed (use assms in \<open>simp add: inv_put lookup_put\<close>)

lemma edits:
  assumes "inv s"
  shows "inv (fold (edit_with put_edge drop_edge) es s)
    \<and> lookup (fold (edit_with put_edge drop_edge) es s) = fold edit_map es (lookup s)"
  using assms by (induction es arbitrary: s) (simp_all add: edit_step)

lemma same_entries:
  assumes "inv s" "inv s'" "lookup s = lookup s'"
  shows "entries s = entries s'"
  using assms by (intro ascending_map_of_eq) (simp_all add: ascending_entries lookup_entries)

end

lemma edge_map_label:
  assumes "label_ok L"
  shows "edge_map (edge_find L) edge_entries (with_edge L) (without_edge L) (edge_inv L)"
proof
  fix s :: "('a, 'b) adaptive_edge_store" and l c s'
  assume inv: "edge_inv L s"
  show "edge_find L s = map_of (edge_entries s)"
    using assms inv by (rule edge_find_map_of)
  show "ascending (edge_entries s)"
    using inv by (rule edge_inv_ascending)
  show "edge_inv L (with_edge L s l c)"
    using inv by (rule with_edge_inv)
  show "edge_find L (with_edge L s l c) = (edge_find L s)(l \<mapsto> c)"
    using with_edge_entries [OF inv] by (simp add: edge_find_map_of assms inv with_edge_inv)
  show "(without_edge L s l = None) = (edge_find L s l = None)"
    using without_edge_entries [OF inv, of l]
    by (auto simp: edge_find_map_of assms inv split: option.splits)
  assume d: "without_edge L s l = Some s'"
  show inv': "edge_inv L s'"
    using inv d by (rule without_edge_inv)
  show "edge_find L s' = (edge_find L s)(l := None)"
    using without_edge_entries [OF inv, of l] d by (simp add: edge_find_map_of assms inv inv')
qed

lemma edits_canonical:
  "fold (edit_with (with_edge L) (without_edge L)) edits (from_sorted_entries L es)
   = from_sorted_entries L (edge_entries (fold (edit_with (with_edge L) (without_edge L)) edits (from_sorted_entries L es)))"
proof (induction edits arbitrary: es)
  case (Cons e edits)
  have "\<exists>fs. edit_with (with_edge L) (without_edge L) e (from_sorted_entries L es) = from_sorted_entries L fs"
    by (cases e) (auto simp: with_edge_def without_edge_def Let_def split: sum.split)
  then show ?case
    using Cons by auto
qed simp

interpretation byte_edges: edge_map
  "edge_find u8_label" edge_entries "with_edge u8_label" "without_edge u8_label" "edge_inv u8_label"
  by (rule edge_map_label) simp

interpretation char_edges: edge_map
  "edge_find u32_label" edge_entries "with_edge u32_label" "without_edge u32_label" "edge_inv u32_label"
  by (rule edge_map_label) simp

interpretation token_edges: edge_map
  "edge_find u64_label" edge_entries "with_edge u64_label" "without_edge u64_label" "edge_inv u64_label"
  by (rule edge_map_label) simp

text \<open>
  C16: The edge store is the finite map its entries describe, for byte, character
  and token labels and whatever the tiers it passes through.  Built from an
  ascending edge list and edited by any sequence of additions and removals, the
  store looks up what the same edits make of the map of that list; its entries
  are the one ascending listing of this map, their number is its size, and the
  tier and index are those of a store built from them.  So two histories with
  the same map end in equal stores.
\<close>

theorem edge_store_is_map:
  assumes "label_ok L" "ascending es" "ascending es'"
    and "s = fold (edit_with (with_edge L) (without_edge L)) edits (from_sorted_entries L es)"
    and "s' = fold (edit_with (with_edge L) (without_edge L)) edits' (from_sorted_entries L es')"
  shows "edge_find L s = fold edit_map edits (map_of es) \<and> map_of (edge_entries s) = edge_find L s
    \<and> ascending (edge_entries s) \<and> edge_len s = card (dom (edge_find L s))
    \<and> s = from_sorted_entries L (edge_entries s)
    \<and> (edge_find L s = edge_find L s' \<longleftrightarrow> s = s')"
proof -
  note store = edge_map_label [OF assms(1)]
  note start = from_sorted_entries_inv [OF assms(2), of L] from_sorted_entries_inv [OF assms(3), of L]
  have inv: "edge_inv L s" "edge_inv L s'" and find: "edge_find L s = fold edit_map edits (map_of es)"
    using edge_map.edits [OF store start(1)] edge_map.edits [OF store start(2)]
    by (simp_all add: assms(4,5) edge_find_map_of [OF assms(1) start(1)])
  moreover have canon: "s = from_sorted_entries L (edge_entries s)" "s' = from_sorted_entries L (edge_entries s')"
    unfolding assms(4,5) by (rule edits_canonical)+
  moreover have "edge_find L s = edge_find L s' \<longleftrightarrow> s = s'"
    using edge_map.same_entries [OF store inv] canon by metis
  ultimately show ?thesis
    using edge_map.length_entries [OF store inv(1)]
    by (simp add: edge_len_eq edge_find_map_of assms(1) edge_inv_ascending)
qed

theorem edge_store_is_map_witness:
  "edge_find u8_label (fold (edit_with (with_edge u8_label) (without_edge u8_label))
      [PutEdge 5 True, DropEdge 9] (from_sorted_entries u8_label [(1, True), (9, False)])) = [1 \<mapsto> True, 5 \<mapsto> True]"
  using edge_store_is_map [of u8_label "[(1, True), (9, False)]" "[]", OF _ _ _ refl refl, where edits = "[PutEdge 5 True, DropEdge 9]"]
  by (auto simp: fun_eq_iff)

text \<open>
  C17: \<open>try_with_existing_replacements\<close> either fails for one of its documented
  reasons (no replacements, replacements not strictly ascending, a label that
  has no edge) or returns a store in the same tier, a byte tier with the same
  index, that keeps the invariant and the labels and whose lookups are the old
  ones overridden by the replacements.  The inline-capacity error is unreachable.
\<close>

theorem existing_replacements_spec:
  assumes "label_ok L" and "edge_inv L s"
  shows "case try_with_existing_replacements s rs of
      Inr s' \<Rightarrow> same_tier s s' \<and> edge_inv L s' \<and> map fst (edge_entries s') = map fst (edge_entries s) \<and>
        edge_find L s' = edge_find L s ++ map_of rs \<and> fst ` set rs \<subseteq> dom (edge_find L s)
    | Inl Empty \<Rightarrow> rs = []
    | Inl NotStrictlyAscending \<Rightarrow> \<not> ascending rs
    | Inl EdgeAbsent \<Rightarrow> \<not> fst ` set rs \<subseteq> dom (edge_find L s)
    | Inl TierInvariant \<Rightarrow> False"
proof (cases "rs = [] \<or> \<not> ascending rs")
  case True
  then show ?thesis
    by (auto simp: try_with_existing_replacements_def first_non_ascending_None)
next
  case False
  then have rs: "rs \<noteq> []" "ascending rs"
    by auto
  have eq: "try_with_existing_replacements s rs = replace_in_tier s rs"
    using rs by (simp add: try_with_existing_replacements_def first_non_ascending_None [THEN iffD2])
  have asc: "ascending (edge_entries s)"
    using assms(2) by (rule edge_inv_ascending)
  have dom: "dom (edge_find L s) = fst ` set (edge_entries s)"
    using assms by (simp add: edge_find_map_of dom_map_of_conv_image_fst)
  show ?thesis
  proof (cases "merge_existing_replacements (edge_entries s) rs")
    case (Inl e)
    then show ?thesis
      using replace_in_tier_Err [OF assms(2) Inl] merge_total [OF asc rs(2)] eq dom by auto
  next
    case (Inr es)
    note m = merge_Ok [OF Inr asc rs(2)]
    from m obtain s' where "replace_in_tier s rs = Ok s'" "edge_entries s' = es" "edge_inv L s'" "same_tier s s'"
      using replace_in_tier_Ok [OF assms(2) Inr] by blast
    then show ?thesis
      using m eq dom assms by (simp add: edge_find_map_of)
  qed
qed

theorem existing_replacements_spec_witness:
  "case try_with_existing_replacements (Tiny [(1, True), (9 :: u64, False)]) [(9, True)] of
      Inr s' \<Rightarrow> same_tier (Tiny []) s' \<and> edge_inv u64_label s' \<and>
        edge_find u64_label s' = edge_find u64_label (Tiny [(1, True), (9, False)]) ++ map_of [(9, True)]
    | Inl _ \<Rightarrow> False"
proof -
  have "try_with_existing_replacements (Tiny [(1, True), (9 :: u64, False)]) [(9, True)]
      = Ok (Tiny [(1, True), (9, True)])"
    by (simp add: try_with_existing_replacements_def TINY_LIMIT_def)
  then show ?thesis
    using existing_replacements_spec [of u64_label "Tiny [(1, True), (9, False)]" "[(9, True)]"]
    by (simp add: edge_inv_def TINY_LIMIT_def)
qed

end
