(* ===== verification/Swizzled_Ptr.thy ===== *)
theory Swizzled_Ptr
  imports Prelude
begin

text \<open>
  Swizzled pointers (\<open>persistent_artrie/core/swizzled_ptr.rs\<close> and
  \<open>core/arena_slot.rs\<close>): a 64-bit state word that is zero for null, carries a
  packed disk location while its top bit is clear, and otherwise says that the
  companion word holds a memory address.

  The first part is the packed encoding and the operations as they run
  undisturbed.  The second part splits \<open>swizzle\<close> and \<open>unswizzle\<close> into
  their atomic accesses and interleaves any number of threads calling them.
  Memory orderings are sequentially consistent in the model.
\<close>

unbundle bit_operations_syntax

subsection \<open>Layout\<close>

definition SWIZZLE_FLAG :: u64 where "SWIZZLE_FLAG = push_bit 63 1"
definition MEMORY_STATE :: u64 where "MEMORY_STATE = SWIZZLE_FLAG"
definition INSTALLING_MEMORY_STATE :: u64 where "INSTALLING_MEMORY_STATE = SWIZZLE_FLAG OR 1"
definition EVICTING_MEMORY_STATE :: u64 where "EVICTING_MEMORY_STATE = SWIZZLE_FLAG OR 2"

definition BLOCK_ID_SHIFT :: nat where "BLOCK_ID_SHIFT = 40"
definition OFFSET_SHIFT :: nat where "OFFSET_SHIFT = 18"
definition BLOCK_ID_BITS :: nat where "BLOCK_ID_BITS = 23"
definition OFFSET_BITS :: nat where "OFFSET_BITS = 22"
definition FLAGS_BITS :: nat where "FLAGS_BITS = 18"

definition BLOCK_ID_MASK :: u64 where "BLOCK_ID_MASK = push_bit BLOCK_ID_BITS 1 - 1"
definition OFFSET_MASK :: u64 where "OFFSET_MASK = push_bit OFFSET_BITS 1 - 1"
definition FLAGS_MASK :: u64 where "FLAGS_MASK = push_bit FLAGS_BITS 1 - 1"
definition MAX_BLOCK_ID :: u32 where "MAX_BLOCK_ID = push_bit BLOCK_ID_BITS 1 - 1"
definition MAX_OFFSET :: u32 where "MAX_OFFSET = push_bit OFFSET_BITS 1 - 1"

datatype node_type =
    Node4 | Node16 | Node48 | Node256 | Bucket
  | CharNode4 | CharNode16 | CharNode48 | CharBucket

fun node_type_code :: "node_type \<Rightarrow> u8" where
  "node_type_code Node4 = 4"
| "node_type_code Node16 = 16"
| "node_type_code Node48 = 48"
| "node_type_code Node256 = 0"
| "node_type_code Bucket = 1"
| "node_type_code CharNode4 = 104"
| "node_type_code CharNode16 = 116"
| "node_type_code CharNode48 = 148"
| "node_type_code CharBucket = 101"

definition node_type_from_u8 :: "u8 \<Rightarrow> node_type option" where
  "node_type_from_u8 v =
     (if v = 4 then Some Node4
      else if v = 16 then Some Node16
      else if v = 48 then Some Node48
      else if v = 0 then Some Node256
      else if v = 1 then Some Bucket
      else if v = 104 then Some CharNode4
      else if v = 116 then Some CharNode16
      else if v = 148 then Some CharNode48
      else if v = 101 then Some CharBucket
      else None)"

fun is_byte_level :: "node_type \<Rightarrow> bool" where
  "is_byte_level t = (t \<in> {Node4, Node16, Node48, Node256, Bucket})"

fun is_char_level :: "node_type \<Rightarrow> bool" where
  "is_char_level t = (t \<in> {CharNode4, CharNode16, CharNode48, CharBucket})"

datatype swizzle_error =
    AlreadySwizzled | AlreadyUnswizzled | RaceCondition | NullPointer
  | BlockIdOverflow u32 | OffsetOverflow u32

text \<open>An address is a word, zero being the null pointer.\<close>

type_synonym address = u64

record swizzled_ptr =
  sp_state :: u64
  memory_ptr :: address

record disk_location =
  dl_block_id :: u32
  dl_offset :: u32
  dl_node_type :: node_type

record arena_slot =
  arena_id :: u32
  slot_id :: u32

definition arena_slot_to_u64 :: "arena_slot \<Rightarrow> u64" where
  "arena_slot_to_u64 s = push_bit 32 (ucast (arena_id s)) OR ucast (slot_id s)"

definition arena_slot_from_u64 :: "u64 \<Rightarrow> arena_slot" where
  "arena_slot_from_u64 v =
     \<lparr> arena_id = ucast (drop_bit 32 v), slot_id = ucast (v AND 0xFFFFFFFF) \<rparr>"

subsection \<open>Operations\<close>

definition sp_null :: swizzled_ptr where
  "sp_null = \<lparr> sp_state = 0, memory_ptr = 0 \<rparr>"

definition sp_encode :: "u32 \<Rightarrow> u32 \<Rightarrow> node_type \<Rightarrow> u64" where
  "sp_encode block_id offset node_type =
     push_bit BLOCK_ID_SHIFT (ucast block_id AND BLOCK_ID_MASK)
     OR push_bit OFFSET_SHIFT (ucast offset AND OFFSET_MASK)
     OR (ucast (node_type_code node_type) AND FLAGS_MASK)"

text \<open>The range checks of \<open>on_disk\<close> are debug assertions; the release build
  masks the coordinates.\<close>

definition on_disk :: "u32 \<Rightarrow> u32 \<Rightarrow> node_type \<Rightarrow> swizzled_ptr" where
  "on_disk block_id offset node_type =
     \<lparr> sp_state = sp_encode block_id offset node_type, memory_ptr = 0 \<rparr>"

definition try_on_disk :: "u32 \<Rightarrow> u32 \<Rightarrow> node_type \<Rightarrow> swizzle_error + swizzled_ptr" where
  "try_on_disk block_id offset node_type =
     (if MAX_BLOCK_ID < block_id then Err (BlockIdOverflow block_id)
      else if MAX_OFFSET < offset then Err (OffsetOverflow offset)
      else Ok (on_disk block_id offset node_type))"

definition in_memory :: "address \<Rightarrow> swizzled_ptr option" where
  "in_memory p = (if p = 0 then None else Some \<lparr> sp_state = MEMORY_STATE, memory_ptr = p \<rparr>)"

definition sp_is_null :: "swizzled_ptr \<Rightarrow> bool" where
  "sp_is_null s = (sp_state s = 0)"

definition is_swizzled :: "swizzled_ptr \<Rightarrow> bool" where
  "is_swizzled s = (sp_state s = MEMORY_STATE \<and> memory_ptr s \<noteq> 0)"

definition sp_is_on_disk :: "swizzled_ptr \<Rightarrow> bool" where
  "sp_is_on_disk s = (sp_state s \<noteq> 0 \<and> sp_state s AND SWIZZLE_FLAG = 0)"

definition as_ptr :: "swizzled_ptr \<Rightarrow> address option" where
  "as_ptr s =
     (if sp_state s \<noteq> MEMORY_STATE then None
      else if memory_ptr s \<noteq> 0 then Some (memory_ptr s) else None)"

definition sp_disk_location :: "swizzled_ptr \<Rightarrow> disk_location option" where
  "sp_disk_location s =
     (let val = sp_state s in
      if val = 0 \<or> val AND SWIZZLE_FLAG \<noteq> 0 then None
      else let block_id = ucast (drop_bit BLOCK_ID_SHIFT val AND BLOCK_ID_MASK);
               offset = ucast (drop_bit OFFSET_SHIFT val AND OFFSET_MASK);
               type_byte = ucast (val AND FLAGS_MASK)
           in case node_type_from_u8 type_byte of
                None \<Rightarrow> None
              | Some t \<Rightarrow>
                  Some \<lparr> dl_block_id = block_id, dl_offset = offset, dl_node_type = t \<rparr>)"

definition file_offset :: "disk_location \<Rightarrow> u64 \<Rightarrow> u64" where
  "file_offset l block_size = ucast (dl_block_id l) * block_size + ucast (dl_offset l)"

definition to_raw :: "swizzled_ptr \<Rightarrow> u64" where
  "to_raw s = sp_state s"

definition from_raw :: "u64 \<Rightarrow> swizzled_ptr" where
  "from_raw raw = \<lparr> sp_state = raw, memory_ptr = 0 \<rparr>"

definition as_arena_slot :: "swizzled_ptr \<Rightarrow> arena_slot option" where
  "as_arena_slot s =
     (case sp_disk_location s of
        None \<Rightarrow> None
      | Some loc \<Rightarrow>
          if dl_block_id loc = 0 then None
          else Some \<lparr> arena_id = dl_block_id loc - 1, slot_id = dl_offset loc \<rparr>)"

definition from_arena_slot :: "arena_slot \<Rightarrow> node_type \<Rightarrow> swizzled_ptr" where
  "from_arena_slot slot node_type =
     (let block_id = (if arena_id slot = - 1 then - 1 else arena_id slot + 1)
      in on_disk block_id (slot_id slot) node_type)"

definition try_from_arena_slot :: "arena_slot \<Rightarrow> node_type \<Rightarrow> swizzle_error + swizzled_ptr" where
  "try_from_arena_slot slot node_type =
     (if arena_id slot = - 1 then Err (BlockIdOverflow (arena_id slot))
      else try_on_disk (arena_id slot + 1) (slot_id slot) node_type)"

definition store_raw :: "swizzled_ptr \<Rightarrow> u64 \<Rightarrow> swizzled_ptr" where
  "store_raw s v = \<lparr> sp_state = v, memory_ptr = 0 \<rparr>"

definition compare_exchange_raw ::
    "swizzled_ptr \<Rightarrow> u64 \<Rightarrow> u64 \<Rightarrow> (u64 + u64) \<times> swizzled_ptr" where
  "compare_exchange_raw s expected new =
     (if expected AND SWIZZLE_FLAG \<noteq> 0 \<or> new AND SWIZZLE_FLAG \<noteq> 0 then (Err (sp_state s), s)
      else if sp_state s = expected then (Ok expected, s\<lparr> sp_state := new \<rparr>)
      else (Err (sp_state s), s))"

definition try_insert_child :: "swizzled_ptr \<Rightarrow> swizzled_ptr \<Rightarrow> (u64 + unit) \<times> swizzled_ptr" where
  "try_insert_child s new_child =
     (let new_raw = sp_state new_child in
      if new_raw = MEMORY_STATE then
        (let new_ptr = memory_ptr new_child in
         if new_ptr = 0 then (Err (sp_state s), s)
         else if sp_state s = 0 then (Ok (), \<lparr> sp_state = MEMORY_STATE, memory_ptr = new_ptr \<rparr>)
         else (Err (sp_state s), s))
      else if new_raw AND SWIZZLE_FLAG \<noteq> 0 then (Err (sp_state s), s)
      else (case compare_exchange_raw s 0 new_raw of
              (Inr _, s') \<Rightarrow> (Ok (), s')
            | (Inl actual, s') \<Rightarrow> (Err actual, s')))"

definition try_update_child ::
    "swizzled_ptr \<Rightarrow> swizzled_ptr \<Rightarrow> swizzled_ptr \<Rightarrow> (u64 + unit) \<times> swizzled_ptr" where
  "try_update_child s expected_child new_child =
     (let expected_raw = sp_state expected_child; new_raw = sp_state new_child;
          expected_ptr = memory_ptr expected_child; new_ptr = memory_ptr new_child in
      if (expected_raw AND SWIZZLE_FLAG \<noteq> 0 \<and> expected_raw \<noteq> MEMORY_STATE)
         \<or> (new_raw AND SWIZZLE_FLAG \<noteq> 0 \<and> new_raw \<noteq> MEMORY_STATE)
      then (Err (sp_state s), s)
      else if expected_raw \<noteq> MEMORY_STATE \<and> new_raw \<noteq> MEMORY_STATE then
        (case compare_exchange_raw s expected_raw new_raw of
           (Inr _, s') \<Rightarrow> (Ok (), s'\<lparr> memory_ptr := 0 \<rparr>)
         | (Inl actual, s') \<Rightarrow> (Err actual, s'))
      else if expected_raw \<noteq> MEMORY_STATE then
        (if new_ptr = 0 then (Err (sp_state s), s)
         else if sp_state s = expected_raw
         then (Ok (), \<lparr> sp_state = MEMORY_STATE, memory_ptr = new_ptr \<rparr>)
         else (Err (sp_state s), s))
      else if new_raw \<noteq> MEMORY_STATE then
        (if expected_ptr = 0 then (Err (sp_state s), s)
         else if sp_state s \<noteq> MEMORY_STATE \<or> memory_ptr s \<noteq> expected_ptr then (Err (sp_state s), s)
         else (Ok (), \<lparr> sp_state = new_raw, memory_ptr = 0 \<rparr>))
      else
        (if expected_ptr = 0 \<or> new_ptr = 0 then (Err (sp_state s), s)
         else if sp_state s \<noteq> MEMORY_STATE \<or> memory_ptr s \<noteq> expected_ptr then (Err (sp_state s), s)
         else (Ok (), \<lparr> sp_state = MEMORY_STATE, memory_ptr = new_ptr \<rparr>)))"

text \<open>\<open>swizzle\<close> and \<open>unswizzle\<close> run alone; the outer option is the
  assertion on a null address.\<close>

definition swizzle :: "swizzled_ptr \<Rightarrow> address \<Rightarrow> ((swizzle_error + unit) \<times> swizzled_ptr) option" where
  "swizzle s p =
     (if p = 0 then None
      else let old = sp_state s in
        Some (if old = MEMORY_STATE then (Err AlreadySwizzled, s)
              else if old AND SWIZZLE_FLAG \<noteq> 0 then (Err RaceCondition, s)
              else if old = 0 then (Err AlreadyUnswizzled, s)
              else (Ok (), \<lparr> sp_state = MEMORY_STATE, memory_ptr = p \<rparr>)))"

definition unswizzle ::
    "swizzled_ptr \<Rightarrow> u32 \<Rightarrow> u32 \<Rightarrow> node_type \<Rightarrow> (swizzle_error + address) \<times> swizzled_ptr" where
  "unswizzle s block_id offset node_type =
     (if MAX_BLOCK_ID < block_id then (Err (BlockIdOverflow block_id), s)
      else if MAX_OFFSET < offset then (Err (OffsetOverflow offset), s)
      else let old = sp_state s in
        if old AND SWIZZLE_FLAG = 0 then (Err AlreadyUnswizzled, s)
        else if old \<noteq> MEMORY_STATE then (Err RaceCondition, s)
        else if memory_ptr s = 0 then (Err RaceCondition, s)
        else (Ok (memory_ptr s),
              \<lparr> sp_state = sp_encode block_id offset node_type, memory_ptr = 0 \<rparr>))"

subsection \<open>Atomic accesses and interleaving\<close>

text \<open>The program counter of a thread: which access of \<open>swizzle\<close> or
  \<open>unswizzle\<close> comes next, with the locals the rest of the call needs.\<close>

datatype swizzle_pc =
    Idle
  | Panicked
  | SwizzleLoad address
  | SwizzleExchange address u64
  | SwizzleStorePtr address
  | SwizzleStoreState address
  | UnswizzleLoad u64
  | UnswizzleExchange u64
  | UnswizzleLoadPtr u64
  | UnswizzleRestore
  | UnswizzleClearPtr u64 address
  | UnswizzleStoreState u64 address

datatype swizzle_event =
    SwizzleReturned "swizzle_error + address"
  | UnswizzleReturned "swizzle_error + address"

text \<open>Entering a call: the checks made before the first atomic access.\<close>

definition swizzle_call :: "address \<Rightarrow> swizzle_pc" where
  "swizzle_call p = (if p = 0 then Panicked else SwizzleLoad p)"

definition unswizzle_call :: "u32 \<Rightarrow> u32 \<Rightarrow> node_type \<Rightarrow> swizzle_error + swizzle_pc" where
  "unswizzle_call block_id offset node_type =
     (if MAX_BLOCK_ID < block_id then Err (BlockIdOverflow block_id)
      else if MAX_OFFSET < offset then Err (OffsetOverflow offset)
      else Ok (UnswizzleLoad (sp_encode block_id offset node_type)))"

text \<open>One atomic access; a returning call leaves an event, in which a
  successful \<open>swizzle\<close> is given with the address it installed.\<close>

fun pc_step :: "swizzle_pc \<Rightarrow> swizzled_ptr \<Rightarrow> swizzle_pc \<times> swizzled_ptr \<times> swizzle_event list" where
  "pc_step Idle s = (Idle, s, [])"
| "pc_step Panicked s = (Panicked, s, [])"
| "pc_step (SwizzleLoad p) s =
     (let old = sp_state s in
      if old = MEMORY_STATE then (Idle, s, [SwizzleReturned (Err AlreadySwizzled)])
      else if old AND SWIZZLE_FLAG \<noteq> 0 then (Idle, s, [SwizzleReturned (Err RaceCondition)])
      else if old = 0 then (Idle, s, [SwizzleReturned (Err AlreadyUnswizzled)])
      else (SwizzleExchange p old, s, []))"
| "pc_step (SwizzleExchange p old) s =
     (if sp_state s = old
      then (SwizzleStorePtr p, s\<lparr> sp_state := INSTALLING_MEMORY_STATE \<rparr>, [])
      else (Idle, s, [SwizzleReturned (Err RaceCondition)]))"
| "pc_step (SwizzleStorePtr p) s = (SwizzleStoreState p, s\<lparr> memory_ptr := p \<rparr>, [])"
| "pc_step (SwizzleStoreState p) s =
     (Idle, s\<lparr> sp_state := MEMORY_STATE \<rparr>, [SwizzleReturned (Ok p)])"
| "pc_step (UnswizzleLoad new) s =
     (let old = sp_state s in
      if old AND SWIZZLE_FLAG = 0 then (Idle, s, [UnswizzleReturned (Err AlreadyUnswizzled)])
      else if old \<noteq> MEMORY_STATE then (Idle, s, [UnswizzleReturned (Err RaceCondition)])
      else (UnswizzleExchange new, s, []))"
| "pc_step (UnswizzleExchange new) s =
     (if sp_state s = MEMORY_STATE
      then (UnswizzleLoadPtr new, s\<lparr> sp_state := EVICTING_MEMORY_STATE \<rparr>, [])
      else (Idle, s, [UnswizzleReturned (Err RaceCondition)]))"
| "pc_step (UnswizzleLoadPtr new) s =
     (if memory_ptr s = 0 then (UnswizzleRestore, s, [])
      else (UnswizzleClearPtr new (memory_ptr s), s, []))"
| "pc_step UnswizzleRestore s =
     (Idle, s\<lparr> sp_state := MEMORY_STATE \<rparr>, [UnswizzleReturned (Err RaceCondition)])"
| "pc_step (UnswizzleClearPtr new old) s = (UnswizzleStoreState new old, s\<lparr> memory_ptr := 0 \<rparr>, [])"
| "pc_step (UnswizzleStoreState new old) s =
     (Idle, s\<lparr> sp_state := new \<rparr>, [UnswizzleReturned (Ok old)])"

record swizzle_machine =
  shared :: swizzled_ptr
  threads :: "nat \<Rightarrow> swizzle_pc"
  history :: "swizzle_event list"

inductive swizzle_machine_step :: "swizzle_machine \<Rightarrow> swizzle_machine \<Rightarrow> bool" where
  call_swizzle:
    "threads m i = Idle \<Longrightarrow>
     swizzle_machine_step m (m\<lparr> threads := (threads m)(i := swizzle_call p) \<rparr>)"
| call_unswizzle:
    "threads m i = Idle \<Longrightarrow> unswizzle_call block_id offset node_type = Inr pc \<Longrightarrow>
     swizzle_machine_step m (m\<lparr> threads := (threads m)(i := pc) \<rparr>)"
| call_unswizzle_rejected:
    "threads m i = Idle \<Longrightarrow> unswizzle_call block_id offset node_type = Inl e \<Longrightarrow>
     swizzle_machine_step m (m\<lparr> history := history m @ [UnswizzleReturned (Inl e)] \<rparr>)"
| access:
    "pc_step (threads m i) (shared m) = (pc, s, events) \<Longrightarrow>
     swizzle_machine_step m
       \<lparr> shared = s, threads = (threads m)(i := pc), history = history m @ events \<rparr>"

definition swizzle_init :: "swizzled_ptr \<Rightarrow> swizzle_machine" where
  "swizzle_init s = \<lparr> shared = s, threads = (\<lambda>_. Idle), history = [] \<rparr>"

abbreviation swizzle_reach :: "swizzle_machine \<Rightarrow> swizzle_machine \<Rightarrow> bool" where
  "swizzle_reach \<equiv> swizzle_machine_step\<^sup>*\<^sup>*"

text \<open>The memory addresses a history installed and gave back, in order.\<close>

fun transfers :: "swizzle_event list \<Rightarrow> (bool \<times> address) list" where
  "transfers [] = []"
| "transfers (SwizzleReturned (Inr p) # es) = (True, p) # transfers es"
| "transfers (UnswizzleReturned (Inr p) # es) = (False, p) # transfers es"
| "transfers (_ # es) = transfers es"

text \<open>Runs of the installed and returned addresses starting from a disk
  reference: \<open>Some None\<close> after a complete pair, \<open>Some (Some p)\<close> while
  \<open>p\<close> is installed, \<open>None\<close> when the order is broken.\<close>

fun handover :: "address option \<Rightarrow> (bool \<times> address) list \<Rightarrow> address option option" where
  "handover cur [] = Some cur"
| "handover None ((True, p) # ts) = handover (Some p) ts"
| "handover (Some q) ((False, p) # ts) = (if p = q then handover None ts else None)"
| "handover _ _ = None"

fun owns :: "swizzle_pc \<Rightarrow> bool" where
  "owns (SwizzleStorePtr _) = True"
| "owns (SwizzleStoreState _) = True"
| "owns (UnswizzleLoadPtr _) = True"
| "owns UnswizzleRestore = True"
| "owns (UnswizzleClearPtr _ _) = True"
| "owns (UnswizzleStoreState _ _) = True"
| "owns _ = False"

text \<open>Run without interference, the accesses of a call add up to the call.\<close>

fun run_alone :: "nat \<Rightarrow> swizzle_pc \<Rightarrow> swizzled_ptr \<Rightarrow> swizzle_pc \<times> swizzled_ptr \<times> swizzle_event list" where
  "run_alone 0 pc s = (pc, s, [])"
| "run_alone (Suc n) pc s =
     (case pc_step pc s of (pc', s', es) \<Rightarrow>
        case run_alone n pc' s' of (pc'', s'', es') \<Rightarrow> (pc'', s'', es @ es'))"

text \<open>A thread installs address 7 in the pointer and another evicts it again.\<close>

definition swizzle_example :: swizzle_machine where
  "swizzle_example =
     \<lparr> shared = on_disk 9 1 Node4, threads = (\<lambda>_. Idle),
       history = [SwizzleReturned (Ok 7), UnswizzleReturned (Ok 7)] \<rparr>"

subsection \<open>The packed encoding\<close>

lemma masks: "BLOCK_ID_MASK = mask 23" "OFFSET_MASK = mask 22" "FLAGS_MASK = mask 18"
  "MAX_BLOCK_ID = mask 23" "MAX_OFFSET = mask 22"
  by (simp_all add: BLOCK_ID_MASK_def OFFSET_MASK_def FLAGS_MASK_def MAX_BLOCK_ID_def MAX_OFFSET_def
      BLOCK_ID_BITS_def OFFSET_BITS_def FLAGS_BITS_def mask_eq_exp_minus_1)

lemma le_mask_bits:
  fixes w :: "'a::len word"
  assumes "w \<le> mask n" "bit w k"
  shows "k < n"
proof -
  have "unat w \<le> mask n"
    using assms(1) by (metis le_unat_uoi linorder_linear of_nat_mask_eq word_le_nat_alt)
  then have "unat w < 2 ^ n"
    by (rule le_less_trans) (rule mask_nat_less_exp)
  then have "take_bit n (unat w) = unat w"
    by (simp add: take_bit_nat_eq_self)
  moreover have "bit (unat w) k"
    using assms(2) by (simp add: bit_unsigned_iff)
  ultimately show ?thesis
    by (metis bit_take_bit_iff)
qed

lemma SWIZZLE_FLAG_zero: "w AND SWIZZLE_FLAG = 0 \<longleftrightarrow> \<not> bit w 63"
  using and_exp_eq_0_iff_not_bit [of w 63] by (simp add: SWIZZLE_FLAG_def)

lemma sp_encode_flag [simp]: "sp_encode b off t AND SWIZZLE_FLAG = 0"
  by (simp add: SWIZZLE_FLAG_zero sp_encode_def masks bit_simps BLOCK_ID_SHIFT_def OFFSET_SHIFT_def)

lemma node_type_from_code [simp]: "node_type_from_u8 (node_type_code t) = Some t"
  by (cases t) (simp_all add: node_type_from_u8_def)

lemma sp_encode_fields:
  assumes "b \<le> MAX_BLOCK_ID" "off \<le> MAX_OFFSET"
  shows "ucast (drop_bit BLOCK_ID_SHIFT (sp_encode b off t) AND BLOCK_ID_MASK) = b"
    and "ucast (drop_bit OFFSET_SHIFT (sp_encode b off t) AND OFFSET_MASK) = off"
    and "ucast (sp_encode b off t AND FLAGS_MASK) = node_type_code t"
proof -
  have bits: "bit b k \<Longrightarrow> k < 23" "bit b k \<Longrightarrow> k < 24" "bit off k \<Longrightarrow> k < 22" for k
    using le_mask_bits [of b 23 k] le_mask_bits [of off 22 k] assms by (auto simp: masks)
  show "ucast (drop_bit BLOCK_ID_SHIFT (sp_encode b off t) AND BLOCK_ID_MASK) = b"
    and "ucast (drop_bit OFFSET_SHIFT (sp_encode b off t) AND OFFSET_MASK) = off"
    and "ucast (sp_encode b off t AND FLAGS_MASK) = node_type_code t"
    by (auto intro!: bit_word_eqI simp: masks sp_encode_def bit_simps BLOCK_ID_SHIFT_def
        OFFSET_SHIFT_def intro: bits)
qed

lemma sp_encode_zero:
  assumes "b \<le> MAX_BLOCK_ID" "off \<le> MAX_OFFSET"
  shows "sp_encode b off t = 0 \<longleftrightarrow> b = 0 \<and> off = 0 \<and> t = Node256"
proof
  assume "sp_encode b off t = 0"
  then have "b = 0" "off = 0" "node_type_code t = 0"
    using sp_encode_fields [OF assms, of t] by simp_all
  then show "b = 0 \<and> off = 0 \<and> t = Node256"
    by (cases t) simp_all
next
  assume "b = 0 \<and> off = 0 \<and> t = Node256"
  then show "sp_encode b off t = 0"
    by (simp add: sp_encode_def)
qed

subsection \<open>Interference\<close>

lemmas state_defs = MEMORY_STATE_def INSTALLING_MEMORY_STATE_def EVICTING_MEMORY_STATE_def SWIZZLE_FLAG_def

lemma states_distinct [simp]:
  "MEMORY_STATE \<noteq> INSTALLING_MEMORY_STATE" "MEMORY_STATE \<noteq> EVICTING_MEMORY_STATE"
  "INSTALLING_MEMORY_STATE \<noteq> EVICTING_MEMORY_STATE" "INSTALLING_MEMORY_STATE \<noteq> MEMORY_STATE"
  "EVICTING_MEMORY_STATE \<noteq> MEMORY_STATE" "EVICTING_MEMORY_STATE \<noteq> INSTALLING_MEMORY_STATE"
  "MEMORY_STATE AND SWIZZLE_FLAG \<noteq> 0" "INSTALLING_MEMORY_STATE AND SWIZZLE_FLAG \<noteq> 0"
  "EVICTING_MEMORY_STATE AND SWIZZLE_FLAG \<noteq> 0" "MEMORY_STATE \<noteq> 0"
  by (simp_all add: state_defs)

text \<open>What holds of the shared words while a thread stands at an access, and
  which address is installed according to the returned calls.\<close>

fun pc_ok :: "swizzled_ptr \<Rightarrow> address option option \<Rightarrow> swizzle_pc \<Rightarrow> bool" where
  "pc_ok s cur (SwizzleLoad p) = (p \<noteq> 0)"
| "pc_ok s cur (SwizzleExchange p old) = (p \<noteq> 0 \<and> old AND SWIZZLE_FLAG = 0)"
| "pc_ok s cur (SwizzleStorePtr p) =
     (p \<noteq> 0 \<and> sp_state s = INSTALLING_MEMORY_STATE \<and> memory_ptr s = 0 \<and> cur = Some None)"
| "pc_ok s cur (SwizzleStoreState p) =
     (p \<noteq> 0 \<and> sp_state s = INSTALLING_MEMORY_STATE \<and> memory_ptr s = p \<and> cur = Some None)"
| "pc_ok s cur (UnswizzleLoad new) = (new AND SWIZZLE_FLAG = 0)"
| "pc_ok s cur (UnswizzleExchange new) = (new AND SWIZZLE_FLAG = 0)"
| "pc_ok s cur (UnswizzleLoadPtr new) =
     (new AND SWIZZLE_FLAG = 0 \<and> sp_state s = EVICTING_MEMORY_STATE \<and> memory_ptr s \<noteq> 0
      \<and> cur = Some (Some (memory_ptr s)))"
| "pc_ok s cur UnswizzleRestore = False"
| "pc_ok s cur (UnswizzleClearPtr new old) =
     (new AND SWIZZLE_FLAG = 0 \<and> sp_state s = EVICTING_MEMORY_STATE \<and> memory_ptr s = old
      \<and> old \<noteq> 0 \<and> cur = Some (Some old))"
| "pc_ok s cur (UnswizzleStoreState new old) =
     (new AND SWIZZLE_FLAG = 0 \<and> sp_state s = EVICTING_MEMORY_STATE \<and> memory_ptr s = 0
      \<and> cur = Some (Some old))"
| "pc_ok s cur _ = True"

definition settled :: "swizzled_ptr \<Rightarrow> address option option \<Rightarrow> bool" where
  "settled s cur \<longleftrightarrow>
     (sp_state s = MEMORY_STATE \<and> memory_ptr s \<noteq> 0 \<and> cur = Some (Some (memory_ptr s)))
     \<or> (sp_state s AND SWIZZLE_FLAG = 0 \<and> memory_ptr s = 0 \<and> cur = Some None)"

abbreviation installed :: "swizzle_machine \<Rightarrow> address option option" where
  "installed m \<equiv> handover None (transfers (history m))"

definition swizzle_inv :: "swizzle_machine \<Rightarrow> bool" where
  "swizzle_inv m \<longleftrightarrow>
     (\<forall>i. pc_ok (shared m) (installed m) (threads m i))
     \<and> (\<forall>i j. owns (threads m i) \<longrightarrow> owns (threads m j) \<longrightarrow> i = j)
     \<and> ((\<forall>i. \<not> owns (threads m i)) \<longrightarrow> settled (shared m) (installed m))"

lemma transfers_append [simp]: "transfers (xs @ ys) = transfers xs @ transfers ys"
  by (induction xs rule: transfers.induct) auto

lemma handover_append:
  "handover cur (xs @ ys) = (case handover cur xs of None \<Rightarrow> None | Some c \<Rightarrow> handover c ys)"
  by (induction cur xs rule: handover.induct) auto

lemma pc_ok_foreign: "\<not> owns pc \<Longrightarrow> pc_ok s cur pc \<Longrightarrow> pc_ok s' cur' pc"
  by (cases pc) auto

lemma pc_ok_state: "owns pc \<Longrightarrow> pc_ok s cur pc \<Longrightarrow>
    sp_state s = INSTALLING_MEMORY_STATE \<or> sp_state s = EVICTING_MEMORY_STATE"
  by (cases pc) auto

text \<open>One access of a thread, when no other thread owns the pointer.\<close>

lemma pc_step_ok:
  assumes step: "pc_step pc s = (pc', s', events)"
    and ok: "pc_ok s (handover None ts) pc"
    and stable: "\<not> owns pc \<Longrightarrow> owns pc' \<Longrightarrow> settled s (handover None ts)"
    and cur: "cur' = handover None (ts @ transfers events)"
  shows "pc_ok s' cur' pc'"
    and "owns pc \<Longrightarrow> \<not> owns pc' \<Longrightarrow> settled s' cur'"
    and "\<not> owns pc \<Longrightarrow> \<not> owns pc' \<Longrightarrow> s' = s \<and> cur' = handover None ts"
  using assms
  by (cases pc; auto simp: settled_def handover_append Let_def split: if_splits)+

lemma pc_step_foreign:
  assumes inv: "swizzle_inv m" and step: "pc_step (threads m i) (shared m) = (pc, s, events)"
    and j: "j \<noteq> i" "owns (threads m j)"
  shows "\<not> owns pc \<and> s = shared m \<and> transfers events = []"
proof -
  have "\<not> owns (threads m i)"
    using inv j by (auto simp: swizzle_inv_def)
  moreover have "sp_state (shared m) = INSTALLING_MEMORY_STATE \<or> sp_state (shared m) = EVICTING_MEMORY_STATE"
    using inv j pc_ok_state by (auto simp: swizzle_inv_def)
  moreover have "pc_ok (shared m) (installed m) (threads m i)"
    using inv by (simp add: swizzle_inv_def)
  ultimately show ?thesis
    using step by (cases "threads m i") (auto simp: Let_def split: if_splits)
qed

lemma swizzle_inv_access:
  assumes inv: "swizzle_inv m" and step: "pc_step (threads m i) (shared m) = (pc, s, events)"
  defines "m' \<equiv> \<lparr> shared = s, threads = (threads m)(i := pc), history = history m @ events \<rparr>"
  shows "swizzle_inv m'"
proof (cases "\<exists>j. j \<noteq> i \<and> owns (threads m j)")
  case True
  then obtain j where j: "j \<noteq> i" "owns (threads m j)" by blast
  have same: "\<not> owns pc" "s = shared m" "transfers events = []"
    using pc_step_foreign [OF inv step j] by auto
  have "pc_ok s (installed m) pc"
    using step inv same j by (cases "threads m i") (auto simp: swizzle_inv_def Let_def
        dest: spec [of _ i] split: if_splits)
  with same inv j show ?thesis
    by (auto simp: m'_def swizzle_inv_def)
next
  case False
  have ok: "pc_ok (shared m) (installed m) (threads m i)"
    using inv by (simp add: swizzle_inv_def)
  have stable: "\<not> owns (threads m i) \<Longrightarrow> settled (shared m) (installed m)"
    using inv False by (auto simp: swizzle_inv_def)
  have cur: "installed m' = handover None (transfers (history m) @ transfers events)"
    by (simp add: m'_def)
  note facts = pc_step_ok [OF step ok stable cur]
  have "pc_ok s (installed m') (threads m' j)" for j
  proof (cases "j = i")
    case False
    then have "\<not> owns (threads m j)" "pc_ok (shared m) (installed m) (threads m j)"
      using inv \<open>\<not> (\<exists>j. j \<noteq> i \<and> owns (threads m j))\<close> by (auto simp: swizzle_inv_def)
    then show ?thesis
      using False pc_ok_foreign by (simp add: m'_def)
  qed (use facts(1) in \<open>simp add: m'_def\<close>)
  moreover have "settled s (installed m')" if "\<not> owns pc"
    using facts(2,3) stable that by (cases "owns (threads m i)") auto
  ultimately show ?thesis
    using False unfolding swizzle_inv_def by (auto simp: m'_def split: if_splits)
qed

lemma swizzle_inv_call:
  assumes "swizzle_inv m" "threads m i = Idle" "\<not> owns pc" "\<And>s cur. pc_ok s cur pc"
  shows "swizzle_inv (m\<lparr> threads := (threads m)(i := pc) \<rparr>)"
proof -
  have idle: "\<not> owns (threads m i)"
    using assms(2) by simp
  show ?thesis
    using assms(1,3,4) idle by (auto simp: swizzle_inv_def split: if_splits) metis
qed

lemma swizzle_inv_step: "swizzle_machine_step m m' \<Longrightarrow> swizzle_inv m \<Longrightarrow> swizzle_inv m'"
proof (induction rule: swizzle_machine_step.induct)
  case (call_swizzle m i p)
  then show ?case by (intro swizzle_inv_call) (auto simp: swizzle_call_def)
next
  case (call_unswizzle m i block_id offset node_type pc)
  then show ?case by (intro swizzle_inv_call) (auto simp: unswizzle_call_def split: if_splits)
next
  case (call_unswizzle_rejected m i block_id offset node_type e)
  then show ?case by (simp add: swizzle_inv_def)
next
  case (access m i pc s events)
  then show ?case by (simp add: swizzle_inv_access)
qed

lemma swizzle_inv_reach:
  assumes "swizzle_reach (swizzle_init s) m" "sp_state s AND SWIZZLE_FLAG = 0" "memory_ptr s = 0"
  shows "swizzle_inv m"
  using assms(1)
proof (induction rule: rtranclp_induct)
  case base
  then show ?case using assms(2,3) by (simp add: swizzle_init_def swizzle_inv_def settled_def)
qed (rule swizzle_inv_step)

lemma run_alone_stopped [simp]: "run_alone n Idle s = (Idle, s, [])" "run_alone n Panicked s = (Panicked, s, [])"
  by (induction n) auto

lemma swizzle_alone:
  "run_alone 4 (swizzle_call p) s =
     (case swizzle s p of
        None \<Rightarrow> (Panicked, s, [])
      | Some (Inl e, s') \<Rightarrow> (Idle, s', [SwizzleReturned (Inl e)])
      | Some (Inr _, s') \<Rightarrow> (Idle, s', [SwizzleReturned (Inr p)]))"
  by (auto simp: swizzle_call_def swizzle_def Let_def eval_nat_numeral split: prod.splits)

lemma unswizzle_alone:
  "(case unswizzle_call b off t of
      Inl e \<Rightarrow> (Idle, s, [UnswizzleReturned (Inl e)])
    | Inr pc \<Rightarrow> run_alone 5 pc s) =
   (case unswizzle s b off t of (r, s') \<Rightarrow> (Idle, s', [UnswizzleReturned r]))"
  by (auto simp: unswizzle_call_def unswizzle_def Let_def eval_nat_numeral split: prod.splits)

subsection \<open>Properties\<close>

text \<open>
  C19: A packed disk reference within the field limits is read back exactly: it
  is unswizzled, its location has the given block, offset and node type, and a
  raw copy of it is the same pointer.  The single exception is block 0, offset 0,
  type \<open>Node256\<close>, whose encoding is the null pointer.  Coordinates beyond the
  limits are refused.
\<close>

theorem disk_location_roundtrip:
  "try_on_disk b off t =
     (if MAX_BLOCK_ID < b then Err (BlockIdOverflow b)
      else if MAX_OFFSET < off then Err (OffsetOverflow off)
      else Ok (on_disk b off t))
   \<and> (if b = 0 \<and> off = 0 \<and> t = Node256 then on_disk b off t = sp_null
      else case try_on_disk b off t of
             Inl _ \<Rightarrow> MAX_BLOCK_ID < b \<or> MAX_OFFSET < off
           | Inr s \<Rightarrow> sp_is_on_disk s \<and> \<not> sp_is_null s \<and> \<not> is_swizzled s \<and> as_ptr s = None
               \<and> sp_disk_location s = Some \<lparr> dl_block_id = b, dl_offset = off, dl_node_type = t \<rparr>
               \<and> from_raw (to_raw s) = s)"
proof (cases "b \<le> MAX_BLOCK_ID \<and> off \<le> MAX_OFFSET")
  case True
  then show ?thesis
    using sp_encode_fields [of b off t] sp_encode_zero [of b off t] states_distinct(7)
      sp_encode_flag [of b off t]
    by (auto simp: try_on_disk_def on_disk_def sp_null_def sp_is_on_disk_def sp_is_null_def is_swizzled_def
        as_ptr_def sp_disk_location_def Let_def from_raw_def to_raw_def not_less
        simp del: sp_encode_flag states_distinct)
next
  case False
  then show ?thesis
    by (auto simp: try_on_disk_def on_disk_def sp_null_def sp_encode_def not_le)
qed

text \<open>
  C20: An arena slot is recovered from its 64-bit image, and from the checked
  pointer made from it for every arena and slot number the constructor accepts;
  it refuses only numbers beyond the packed fields.
\<close>

theorem arena_slot_roundtrip:
  "arena_slot_from_u64 (arena_slot_to_u64 slot) = slot
   \<and> (case try_from_arena_slot slot t of
        Inl _ \<Rightarrow> MAX_BLOCK_ID \<le> arena_id slot \<or> MAX_OFFSET < slot_id slot
      | Inr s \<Rightarrow> s = from_arena_slot slot t \<and> as_arena_slot s = Some slot)"
proof
  show "arena_slot_from_u64 (arena_slot_to_u64 slot) = slot"
  proof -
    have "\<not> bit (slot_id slot) (32 + n)" for n
      using bit_imp_le_length [of "slot_id slot" "32 + n"] by auto
    then have "ucast (drop_bit 32 (arena_slot_to_u64 slot)) = arena_id slot"
      "ucast (arena_slot_to_u64 slot AND mask 32) = slot_id slot"
      by (auto intro!: bit_word_eqI simp: arena_slot_to_u64_def bit_simps )
    moreover have "(mask 32 :: u64) = 0xFFFFFFFF"
      by (simp add: mask_eq_exp_minus_1)
    ultimately show ?thesis
      by (simp add: arena_slot_from_u64_def)
  qed
  show "case try_from_arena_slot slot t of
        Inl _ \<Rightarrow> MAX_BLOCK_ID \<le> arena_id slot \<or> MAX_OFFSET < slot_id slot
      | Inr s \<Rightarrow> s = from_arena_slot slot t \<and> as_arena_slot s = Some slot"
  proof (cases "arena_id slot = - 1 \<or> MAX_BLOCK_ID < arena_id slot + 1 \<or> MAX_OFFSET < slot_id slot")
    case True
    have "MAX_BLOCK_ID \<le> (-1 :: u32)" by simp
    moreover have "MAX_BLOCK_ID < a + 1 \<Longrightarrow> MAX_BLOCK_ID \<le> a" for a
      by (metis inc_le not_le)
    ultimately show ?thesis
      using True by (auto simp: try_from_arena_slot_def try_on_disk_def)
  next
    case False
    then have bounds: "arena_id slot + 1 \<le> MAX_BLOCK_ID" "slot_id slot \<le> MAX_OFFSET"
      "arena_id slot + 1 \<noteq> 0" "arena_id slot \<noteq> - 1"
      by (auto simp: not_less) (metis add.commute add_eq_0_iff)
    then show ?thesis
      using sp_encode_fields [of "arena_id slot + 1" "slot_id slot" t]
        sp_encode_zero [of "arena_id slot + 1" "slot_id slot" t]
      by (auto simp: try_from_arena_slot_def from_arena_slot_def try_on_disk_def on_disk_def
          as_arena_slot_def sp_disk_location_def Let_def dest: leD)
  qed
qed

text \<open>
  C18: Any number of threads race \<open>swizzle\<close> and \<open>unswizzle\<close> on one pointer that
  started as a disk reference, with their atomic accesses interleaved at will.
  The addresses the returned calls installed and gave back alternate, each
  address given back being the one installed last, so that no address is given
  back twice and none is overwritten while installed.  A reader that finds the
  pointer swizzled finds the installed address, at most one thread is inside a
  transition, and a pointer no call is working on is in a stable state.
\<close>

theorem swizzle_handover:
  assumes "swizzle_reach (swizzle_init s) m" "sp_state s AND SWIZZLE_FLAG = 0" "memory_ptr s = 0"
  shows "\<exists>cur. handover None (transfers (history m)) = Some cur
      \<and> (is_swizzled (shared m) \<longrightarrow> cur = as_ptr (shared m))
      \<and> (\<forall>i j. owns (threads m i) \<longrightarrow> owns (threads m j) \<longrightarrow> i = j)
      \<and> ((\<forall>i. threads m i \<in> {Idle, Panicked}) \<longrightarrow>
           (if cur = None then sp_state (shared m) AND SWIZZLE_FLAG = 0 else is_swizzled (shared m)))"
proof -
  have inv: "swizzle_inv m"
    by (rule swizzle_inv_reach [OF assms])
  show ?thesis
  proof (cases "\<exists>i. owns (threads m i)")
    case True
    then obtain i where i: "owns (threads m i)" by blast
    then have ok: "pc_ok (shared m) (installed m) (threads m i)" "threads m i \<notin> {Idle, Panicked}"
      using inv by (auto simp: swizzle_inv_def)
    then obtain cur where cur: "installed m = Some cur"
      using i by (cases "threads m i") auto
    have "\<not> is_swizzled (shared m)"
      using pc_ok_state [OF i ok(1)] by (auto simp: is_swizzled_def)
    moreover have "\<forall>i j. owns (threads m i) \<longrightarrow> owns (threads m j) \<longrightarrow> i = j"
      using inv by (simp add: swizzle_inv_def)
    ultimately show ?thesis
      using cur ok(2) by blast
  next
    case False
    then have "settled (shared m) (installed m)"
      using inv by (simp add: swizzle_inv_def)
    then show ?thesis
      using False by (auto simp: settled_def is_swizzled_def as_ptr_def)
  qed
qed

lemma access_alone:
  assumes "pc_step (threads m i) (shared m) = (pc, s, events)"
    "m' = \<lparr> shared = s, threads = (threads m)(i := pc), history = history m @ events \<rparr>"
  shows "swizzle_machine_step m m'"
  using swizzle_machine_step.access [OF assms(1)] assms(2) by simp

lemma swizzle_example_reached: "swizzle_reach (swizzle_init (on_disk 3 4 Node4)) swizzle_example"
proof -
  let ?th = "\<lambda>i pc. (\<lambda>_. Idle)(i := pc) :: nat \<Rightarrow> swizzle_pc"
  let ?old = "sp_encode 3 4 Node4" and ?new = "sp_encode 9 1 Node4"
  let ?m = "\<lambda>st p i pc h. \<lparr> shared = \<lparr> sp_state = st, memory_ptr = p \<rparr>, threads = ?th i pc, history = h \<rparr>"
  let ?h = "[SwizzleReturned (Ok 7)]"
  have old: "?old \<noteq> 0" "?old \<noteq> MEMORY_STATE" "?old AND SWIZZLE_FLAG = 0"
    using sp_encode_zero [of 3 4 Node4] states_distinct(7) sp_encode_flag [of 3 4 Node4]
    by (auto simp: masks mask_eq_exp_minus_1 simp del: sp_encode_flag states_distinct)
  have new: "unswizzle_call 9 1 Node4 = Inr (UnswizzleLoad ?new)"
    by (simp add: unswizzle_call_def masks mask_eq_exp_minus_1)
  have "swizzle_machine_step (swizzle_init (on_disk 3 4 Node4)) (?m ?old 0 0 (SwizzleLoad 7) [])"
    using call_swizzle [of "swizzle_init (on_disk 3 4 Node4)" 0 7]
    by (simp add: swizzle_init_def on_disk_def swizzle_call_def)
  moreover have "swizzle_machine_step (?m ?old 0 0 (SwizzleLoad 7) []) (?m ?old 0 0 (SwizzleExchange 7 ?old) [])"
    by (rule access_alone [where i = 0]) (use old in \<open>auto simp: Let_def\<close>)
  moreover have "swizzle_machine_step (?m ?old 0 0 (SwizzleExchange 7 ?old) [])
      (?m INSTALLING_MEMORY_STATE 0 0 (SwizzleStorePtr 7) [])"
    by (rule access_alone [where i = 0]) auto
  moreover have "swizzle_machine_step (?m INSTALLING_MEMORY_STATE 0 0 (SwizzleStorePtr 7) [])
      (?m INSTALLING_MEMORY_STATE 7 0 (SwizzleStoreState 7) [])"
    by (rule access_alone [where i = 0]) auto
  moreover have "swizzle_machine_step (?m INSTALLING_MEMORY_STATE 7 0 (SwizzleStoreState 7) [])
      (?m MEMORY_STATE 7 0 Idle ?h)"
    by (rule access_alone [where i = 0]) auto
  moreover have "swizzle_machine_step (?m MEMORY_STATE 7 0 Idle ?h) (?m MEMORY_STATE 7 1 (UnswizzleLoad ?new) ?h)"
    using call_unswizzle [OF _ new, of "?m MEMORY_STATE 7 0 Idle ?h" 1] by (simp add: fun_upd_idem)
  moreover have "swizzle_machine_step (?m MEMORY_STATE 7 1 (UnswizzleLoad ?new) ?h)
      (?m MEMORY_STATE 7 1 (UnswizzleExchange ?new) ?h)"
    by (rule access_alone [where i = 1]) (auto simp: Let_def)
  moreover have "swizzle_machine_step (?m MEMORY_STATE 7 1 (UnswizzleExchange ?new) ?h)
      (?m EVICTING_MEMORY_STATE 7 1 (UnswizzleLoadPtr ?new) ?h)"
    by (rule access_alone [where i = 1]) auto
  moreover have "swizzle_machine_step (?m EVICTING_MEMORY_STATE 7 1 (UnswizzleLoadPtr ?new) ?h)
      (?m EVICTING_MEMORY_STATE 7 1 (UnswizzleClearPtr ?new 7) ?h)"
    by (rule access_alone [where i = 1]) auto
  moreover have "swizzle_machine_step (?m EVICTING_MEMORY_STATE 7 1 (UnswizzleClearPtr ?new 7) ?h)
      (?m EVICTING_MEMORY_STATE 0 1 (UnswizzleStoreState ?new 7) ?h)"
    by (rule access_alone [where i = 1]) auto
  moreover have "swizzle_machine_step (?m EVICTING_MEMORY_STATE 0 1 (UnswizzleStoreState ?new 7) ?h) swizzle_example"
    by (rule access_alone [where i = 1]) (auto simp: swizzle_example_def on_disk_def)
  ultimately show ?thesis
    by (meson rtranclp.rtrancl_refl converse_rtranclp_into_rtranclp)
qed

theorem swizzle_handover_witness:
  "swizzle_reach (swizzle_init (on_disk 3 4 Node4)) swizzle_example
   \<and> (\<exists>cur. handover None (transfers (history swizzle_example)) = Some cur)"
  using swizzle_handover [OF swizzle_example_reached] swizzle_example_reached
  by (auto simp: on_disk_def)

end
