(* ===== verification/Overlay_Node.thy ===== *)
theory Overlay_Node
  imports Edge_Store Swizzled_Ptr
begin

text \<open>
  The immutable node of the lock-free trie overlay
  (\<open>persistent_artrie/core/overlay/node.rs\<close>): a version, the stamp of its last
  durable image, the child store, flags, an optional value and a prefix.  Every
  operation returns a new node.  A child slot owns a node or refers to a
  serialised subtree.  The label dictionary \<open>L\<close> stands for the key encoding.

  The lemmas show which children, finality and value each operation leaves, that
  the invariant of the child stores is kept throughout a tree, and that the bulk
  constructor builds the node that inserting the children one by one would.
\<close>

unbundle bit_operations_syntax

subsection \<open>Nodes\<close>

definition IS_FINAL :: u8 where "IS_FINAL = 0x01"
definition IS_DIRTY :: u8 where "IS_DIRTY = 0x02"
definition IS_LEAF :: u8 where "IS_LEAF = 0x04"
definition HAS_VALUE :: u8 where "HAS_VALUE = 0x08"

datatype (dead 'l, 'v) overlay_node = OverlayNode
    (node_version: u64)
    (serial_disk_ptr: u64)
    (node_store: "('l, ('l, 'v) child) adaptive_edge_store")
    (node_flags: u8)
    (node_value: "'v option")
    (node_prefix_data: "'l list")
    (node_prefix_len: u8)
and (dead 'l, 'v) child =
    InMem "('l, 'v) overlay_node"
  | OnDisk swizzled_ptr

fun child_is_null :: "('l, 'v) child \<Rightarrow> bool" where
  "child_is_null (OnDisk p) = sp_is_null p"
| "child_is_null (InMem _) = False"

fun child_is_on_disk :: "('l, 'v) child \<Rightarrow> bool" where
  "child_is_on_disk (OnDisk _) = True"
| "child_is_on_disk (InMem _) = False"

fun as_in_mem :: "('l, 'v) child \<Rightarrow> ('l, 'v) overlay_node option" where
  "as_in_mem (InMem n) = Some n"
| "as_in_mem (OnDisk _) = None"

fun as_on_disk :: "('l, 'v) child \<Rightarrow> swizzled_ptr option" where
  "as_on_disk (OnDisk p) = Some p"
| "as_on_disk (InMem _) = None"

datatype child_replacement_error =
    ZeroVersionDelta | VersionDeltaOverflow | VersionOverflow
  | StoreError existing_replacement_error

subsection \<open>Operations\<close>

definition node_new :: "('l, 'v) overlay_node" where
  "node_new = OverlayNode 0 0 edge_new 0 None [] 0"

definition node_with_prefix :: "nat \<Rightarrow> 'l list \<Rightarrow> ('l, 'v) overlay_node" where
  "node_with_prefix max_prefix_len prefix =
     (let prefix_len = (of_nat (min (length prefix) max_prefix_len) :: u8)
      in OverlayNode 0 0 edge_new 0 None (take (unat prefix_len) prefix) prefix_len)"

definition from_sorted_children ::
    "'l adaptive_label \<Rightarrow> bool \<Rightarrow> 'v option \<Rightarrow> ('l, ('l, 'v) child) entries \<Rightarrow> ('l, 'v) overlay_node" where
  "from_sorted_children L final v children =
     (let flags0 = (if final then IS_FINAL else 0);
          flags1 = (if v \<noteq> None then flags0 OR HAS_VALUE else flags0);
          version = of_nat (length children) + (if final then 1 else 0) + (if v \<noteq> None then 1 else 0)
      in OverlayNode version 0 (from_sorted_entries L children) flags1 v [] 0)"

definition set_durable_stamp :: "('l, 'v) overlay_node \<Rightarrow> u64 \<Rightarrow> ('l, 'v) overlay_node" where
  "set_durable_stamp n raw =
     OverlayNode (node_version n) raw (node_store n) (node_flags n) (node_value n)
       (node_prefix_data n) (node_prefix_len n)"

definition num_children :: "('l, 'v) overlay_node \<Rightarrow> nat" where
  "num_children n = edge_len (node_store n)"

definition node_is_empty :: "('l, 'v) overlay_node \<Rightarrow> bool" where
  "node_is_empty n = edge_is_empty (node_store n)"

definition node_prefix :: "('l, 'v) overlay_node \<Rightarrow> 'l list" where
  "node_prefix n = take (unat (node_prefix_len n)) (node_prefix_data n)"

definition is_final :: "('l, 'v) overlay_node \<Rightarrow> bool" where
  "is_final n = (node_flags n AND IS_FINAL \<noteq> 0)"

definition has_value :: "('l, 'v) overlay_node \<Rightarrow> bool" where
  "has_value n = (node_value n \<noteq> None)"

definition get_value :: "('l, 'v) overlay_node \<Rightarrow> 'v option" where
  "get_value n = node_value n"

definition find_child ::
    "'l adaptive_label \<Rightarrow> ('l::linorder, 'v) overlay_node \<Rightarrow> 'l \<Rightarrow> ('l, 'v) child option" where
  "find_child L n key = edge_find L (node_store n) key"

definition has_child :: "'l adaptive_label \<Rightarrow> ('l::linorder, 'v) overlay_node \<Rightarrow> 'l \<Rightarrow> bool" where
  "has_child L n key = edge_contains_key L (node_store n) key"

definition child_at :: "('l, 'v) overlay_node \<Rightarrow> nat \<Rightarrow> ('l \<times> ('l, 'v) child) option" where
  "child_at n index = edge_entry_at (node_store n) index"

definition iter_children :: "('l, 'v) overlay_node \<Rightarrow> ('l, ('l, 'v) child) entries" where
  "iter_children n = edge_entries (node_store n)"

definition with_child ::
    "'l adaptive_label \<Rightarrow> ('l::linorder, 'v) overlay_node \<Rightarrow> 'l \<Rightarrow> ('l, 'v) child \<Rightarrow> ('l, 'v) overlay_node" where
  "with_child L n key c =
     OverlayNode (node_version n + 1) 0 (with_edge L (node_store n) key c) (node_flags n)
       (node_value n) (node_prefix_data n) (node_prefix_len n)"

text \<open>A \<open>usize\<close> always fits \<open>u64\<close> on the supported targets, so the delta is a
  word and its overflow branch cannot be taken.\<close>

definition try_with_child_replacements ::
    "('l::linorder, 'v) overlay_node \<Rightarrow> ('l, ('l, 'v) child) entries \<Rightarrow> u64
     \<Rightarrow> child_replacement_error + ('l, 'v) overlay_node" where
  "try_with_child_replacements n replacements version_delta =
     (if version_delta = 0 then Err ZeroVersionDelta
      else if 2 ^ 64 \<le> unat (node_version n) + unat version_delta then Err VersionOverflow
      else case try_with_existing_replacements (node_store n) replacements of
             Inl e \<Rightarrow> Err (StoreError e)
           | Inr store \<Rightarrow>
               Ok (OverlayNode (node_version n + version_delta) 0 store (node_flags n) (node_value n)
                     (node_prefix_data n) (node_prefix_len n)))"

definition without_child ::
    "'l adaptive_label \<Rightarrow> ('l::linorder, 'v) overlay_node \<Rightarrow> 'l \<Rightarrow> ('l, 'v) overlay_node option" where
  "without_child L n key =
     map_option (\<lambda>store. OverlayNode (node_version n + 1) 0 store (node_flags n) (node_value n)
                   (node_prefix_data n) (node_prefix_len n))
       (without_edge L (node_store n) key)"

definition with_prefix_replaced ::
    "'l adaptive_label \<Rightarrow> nat \<Rightarrow> ('l, 'v) overlay_node \<Rightarrow> 'l list \<Rightarrow> ('l, 'v) overlay_node" where
  "with_prefix_replaced L max_prefix_len n prefix =
     (let prefix_len = (of_nat (min (length prefix) max_prefix_len) :: u8)
      in OverlayNode (node_version n + 1) 0 (edge_clone L (node_store n)) (node_flags n)
           (node_value n) (take (unat prefix_len) prefix) prefix_len)"

definition as_final :: "'l adaptive_label \<Rightarrow> ('l, 'v) overlay_node \<Rightarrow> ('l, 'v) overlay_node" where
  "as_final L n =
     OverlayNode (node_version n + 1) 0 (edge_clone L (node_store n)) (node_flags n OR IS_FINAL)
       (node_value n) (node_prefix_data n) (node_prefix_len n)"

definition as_non_final :: "'l adaptive_label \<Rightarrow> ('l, 'v) overlay_node \<Rightarrow> ('l, 'v) overlay_node" where
  "as_non_final L n =
     OverlayNode (node_version n + 1) 0 (edge_clone L (node_store n))
       (node_flags n AND NOT (IS_FINAL OR HAS_VALUE)) None (node_prefix_data n) (node_prefix_len n)"

definition with_value :: "'l adaptive_label \<Rightarrow> ('l, 'v) overlay_node \<Rightarrow> 'v \<Rightarrow> ('l, 'v) overlay_node" where
  "with_value L n v =
     OverlayNode (node_version n + 1) 0 (edge_clone L (node_store n)) (node_flags n OR HAS_VALUE)
       (Some v) (node_prefix_data n) (node_prefix_len n)"

fun common_length :: "'l list \<Rightarrow> 'l list \<Rightarrow> nat" where
  "common_length (x # xs) (y # ys) = (if x \<noteq> y then 0 else Suc (common_length xs ys))"
| "common_length _ _ = 0"

definition match_prefix :: "('l, 'v) overlay_node \<Rightarrow> 'l list \<Rightarrow> nat" where
  "match_prefix n key = common_length (node_prefix n) key"

definition prefix_matches :: "('l, 'v) overlay_node \<Rightarrow> 'l list \<Rightarrow> bool" where
  "prefix_matches n key = (match_prefix n key = unat (node_prefix_len n))"

definition node_clone :: "'l adaptive_label \<Rightarrow> ('l, 'v) overlay_node \<Rightarrow> ('l, 'v) overlay_node" where
  "node_clone L n =
     OverlayNode (node_version n) 0 (edge_clone L (node_store n)) (node_flags n) (node_value n)
       (node_prefix_data n) (node_prefix_len n)"

text \<open>The construction the bulk constructor shortcuts.\<close>

definition incremental_build ::
    "'l adaptive_label \<Rightarrow> bool \<Rightarrow> 'v option \<Rightarrow> ('l::linorder, ('l, 'v) child) entries \<Rightarrow> ('l, 'v) overlay_node" where
  "incremental_build L final v children =
     (let n0 = (if final then as_final L node_new else node_new);
          n1 = (case v of None \<Rightarrow> n0 | Some x \<Rightarrow> with_value L n0 x)
      in fold (\<lambda>(l, c) n. with_child L n l c) children n1)"

subsection \<open>Well-formed trees\<close>

text \<open>Every child store in the resident part of a tree satisfies its invariant,
  and a node carries a value only when it is final.\<close>

inductive node_wf :: "'l adaptive_label \<Rightarrow> ('l::linorder, 'v) overlay_node \<Rightarrow> bool" for L where
  node_wfI: "edge_inv L (node_store n) \<Longrightarrow> (node_value n \<noteq> None \<Longrightarrow> is_final n) \<Longrightarrow>
    (\<And>l m. (l, InMem m) \<in> set (edge_entries (node_store n)) \<Longrightarrow> node_wf L m) \<Longrightarrow> node_wf L n"

inductive_simps node_wf_iff: "node_wf L n"

fun child_wf :: "'l adaptive_label \<Rightarrow> ('l::linorder, 'v) child \<Rightarrow> bool" where
  "child_wf L (InMem m) = node_wf L m"
| "child_wf L (OnDisk _) = True"

subsection \<open>Effects of the operations\<close>

named_theorems node_simps \<open>fields after a node operation\<close>

lemma edge_entries_clone [simp]: "edge_entries (edge_clone L s) = edge_entries s"
  by (simp add: edge_clone_def)

lemma edge_clone_inv: "edge_inv L s \<Longrightarrow> edge_inv L (edge_clone L s)"
  by (simp add: edge_clone_def from_sorted_entries_inv edge_inv_ascending)

lemma final_flag: "w AND IS_FINAL = 0 \<longleftrightarrow> \<not> bit w 0"
  using and_exp_eq_0_iff_not_bit [of w 0] by (simp add: IS_FINAL_def)

lemma is_final_bit: "is_final n \<longleftrightarrow> bit (node_flags n) 0"
  by (simp add: is_final_def final_flag)

lemma flag_bits [simp]: "bit IS_FINAL 0" "\<not> bit HAS_VALUE 0"
  by (simp_all add: IS_FINAL_def HAS_VALUE_def)

lemma is_final_ops [node_simps]:
  "\<not> is_final node_new" "is_final (as_final L n)" "\<not> is_final (as_non_final L n)"
  "is_final (with_value L n v) = is_final n" "is_final (with_child L n u c) = is_final n"
  "is_final (node_clone L n) = is_final n" "is_final (set_durable_stamp n w) = is_final n"
  by (simp_all add: is_final_bit bit_simps node_new_def as_final_def as_non_final_def with_value_def
      with_child_def node_clone_def set_durable_stamp_def)

lemma get_value_ops [node_simps]:
  "get_value node_new = None" "get_value (as_final L n) = get_value n"
  "get_value (as_non_final L n) = None" "get_value (with_value L n v) = Some v"
  "get_value (with_child L n u c) = get_value n" "get_value (node_clone L n) = get_value n"
  by (simp_all add: get_value_def node_new_def as_final_def as_non_final_def with_value_def
      with_child_def node_clone_def)

lemma iter_children_ops [node_simps]:
  "iter_children node_new = []" "iter_children (as_final L n) = iter_children n"
  "iter_children (as_non_final L n) = iter_children n"
  "iter_children (with_value L n v) = iter_children n" "iter_children (node_clone L n) = iter_children n"
  by (simp_all add: iter_children_def node_new_def edge_new_def as_final_def as_non_final_def
      with_value_def node_clone_def)

lemma durable_stamp_ops [node_simps]:
  "serial_disk_ptr node_new = 0" "serial_disk_ptr (as_final L n) = 0"
  "serial_disk_ptr (as_non_final L n) = 0" "serial_disk_ptr (with_value L n v) = 0"
  "serial_disk_ptr (with_child L n u c) = 0" "serial_disk_ptr (node_clone L n) = 0"
  by (simp_all add: node_new_def as_final_def as_non_final_def with_value_def with_child_def node_clone_def)

lemma find_child_map_of:
  assumes "label_ok L" "edge_inv L (node_store n)"
  shows "find_child L n u = map_of (iter_children n) u"
  using assms by (simp add: find_child_def iter_children_def edge_find_map_of)

lemma node_wf_new [simp]: "node_wf L node_new"
  by (rule node_wfI) (use edge_new_inv [of L] in \<open>simp_all add: node_new_def edge_new_def\<close>)

lemma node_wf_as_final: "node_wf L n \<Longrightarrow> node_wf L (as_final L n)"
  by (subst node_wf_iff) (auto simp: node_simps as_final_def is_final_bit bit_simps edge_clone_inv elim: node_wf.cases)

lemma node_wf_as_non_final: "node_wf L n \<Longrightarrow> node_wf L (as_non_final L n)"
  by (subst node_wf_iff) (auto simp: as_non_final_def edge_clone_inv elim: node_wf.cases)

lemma node_wf_with_value: "node_wf L n \<Longrightarrow> is_final n \<Longrightarrow> node_wf L (with_value L n v)"
  by (subst node_wf_iff) (auto simp: with_value_def is_final_bit bit_simps edge_clone_inv elim: node_wf.cases)

lemma node_wf_set_durable_stamp: "node_wf L n \<Longrightarrow> node_wf L (set_durable_stamp n raw)"
  by (subst node_wf_iff) (auto simp: set_durable_stamp_def is_final_def elim: node_wf.cases)

lemma node_wf_inv: "node_wf L n \<Longrightarrow> edge_inv L (node_store n)"
  by (erule node_wf.cases) simp

lemma node_wf_nonfinal: "node_wf L n \<Longrightarrow> \<not> is_final n \<Longrightarrow> get_value n = None"
  by (erule node_wf.cases) (fastforce simp: get_value_def)

text \<open>The child store contract, for any label dictionary with its law.\<close>

lemma find_child_with_child:
  assumes "label_ok L" "node_wf L n"
  shows "find_child L (with_child L n u c) = (find_child L n)(u \<mapsto> c)"
  using edge_map.lookup_put [OF edge_map_label [OF assms(1)] node_wf_inv [OF assms(2)]]
  by (auto simp: find_child_def with_child_def fun_eq_iff)

lemma find_child_clones [node_simps]:
  assumes "label_ok L" "node_wf L n"
  shows "find_child L (as_final L n) = find_child L n" "find_child L (as_non_final L n) = find_child L n"
    "find_child L (with_value L n v) = find_child L n"
  using assms
  by (simp_all add: find_child_map_of node_wf_inv fun_eq_iff as_final_def as_non_final_def with_value_def
      iter_children_def edge_clone_inv find_child_def edge_find_map_of)

lemma find_child_wf:
  assumes "label_ok L" "node_wf L n" "find_child L n u = Some c"
  shows "child_wf L c"
proof (cases c)
  case (InMem m)
  have "(u, InMem m) \<in> set (edge_entries (node_store n))"
    using assms InMem by (simp add: find_child_map_of node_wf_inv iter_children_def map_of_SomeD)
  then show ?thesis
    using assms(2) InMem by (auto elim: node_wf.cases)
qed simp

lemma node_wf_with_child:
  assumes "label_ok L" "node_wf L n" "child_wf L c"
  shows "node_wf L (with_child L n u c)"
proof (rule node_wfI)
  let ?s = "with_edge L (node_store n) u c"
  show inv: "edge_inv L (node_store (with_child L n u c))"
    using assms by (simp add: with_child_def with_edge_inv node_wf_inv)
  show "node_value (with_child L n u c) \<noteq> None \<Longrightarrow> is_final (with_child L n u c)"
    using assms(2) by (auto simp: with_child_def is_final_def elim: node_wf.cases)
  fix l m assume "(l, InMem m) \<in> set (edge_entries (node_store (with_child L n u c)))"
  then have "find_child L (with_child L n u c) l = Some (InMem m)"
    using inv assms(1) by (simp add: find_child_map_of iter_children_def
        edge_inv_ascending ascending_distinct)
  then show "node_wf L m"
    using assms find_child_with_child [OF assms(1,2), of u c] find_child_wf [OF assms(1,2)]
    by (auto split: if_splits) fastforce
qed

subsection \<open>Bulk construction\<close>

lemma with_edge_snoc:
  assumes "ascending (es @ [(l, c)])" "edge_entries s = es"
  shows "with_edge L s l c = from_sorted_entries L (es @ [(l, c)])"
proof (cases "binary_search_by_key es l")
  case (Inl i)
  have asc: "ascending es" and below: "\<forall>x\<in>fst ` set es. x < l"
    using assms(1) by (auto simp: sorted_wrt_append)
  have "\<forall>x\<in>fst ` set (drop i es). l < x"
    using search_missing [OF asc Inl] by simp
  then have "drop i es = []"
    using below by (metis (no_types, lifting) in_set_dropD image_eqI list.set_intros(1) neq_Nil_conv order_less_asym)
  then show ?thesis
    using Inl assms(2) by (simp add: with_edge_def)
next
  case (Inr i)
  have asc: "ascending es" and below: "\<forall>x\<in>fst ` set es. x < l"
    using assms(1) by (auto simp: sorted_wrt_append)
  obtain A d B where "es = A @ (l, d) # B"
    using search_found [OF asc Inr] by metis
  then show ?thesis
    using below by simp
qed

lemma fold_with_child:
  assumes "ascending (es @ children)" "node_store n = from_sorted_entries L es"
  shows "fold (\<lambda>(l, c) n. with_child L n l c) children n =
    OverlayNode (node_version n + of_nat (length children))
      (if children = [] then serial_disk_ptr n else 0) (from_sorted_entries L (es @ children))
      (node_flags n) (node_value n) (node_prefix_data n) (node_prefix_len n)"
  using assms
proof (induction children arbitrary: es n)
  case Nil
  then show ?case by (cases n) simp
next
  case (Cons e children)
  obtain l c where e: "e = (l, c)" by force
  have asc: "ascending (es @ [(l, c)])"
    using Cons.prems(1) by (auto simp: sorted_wrt_append e)
  then have "node_store (with_child L n l c) = from_sorted_entries L (es @ [(l, c)])"
    using with_edge_snoc [OF asc, of "node_store n" L] Cons.prems(2) by (simp add: with_child_def)
  then show ?case
    using Cons.IH [of "es @ [(l, c)]" "with_child L n l c"] Cons.prems(1)
    by (simp add: e with_child_def ac_simps)
qed

text \<open>
  C26: The bulk constructor used when a dense image is loaded builds exactly the
  node that starting from the empty node, making it final, giving it the value
  and then adding the children one at a time would build: same version, stamp,
  flags, value, prefix, child entries and storage tier.
\<close>

theorem bulk_build_is_incremental:
  assumes "ascending children"
  shows "from_sorted_children L final v children = incremental_build L final v children"
proof -
  have "from_sorted_entries L [] = edge_new"
    by (simp add: from_sorted_entries_def edge_new_def)
  then show ?thesis
    using assms fold_with_child [of "[]" children _ L]
    by (auto simp: from_sorted_children_def incremental_build_def Let_def node_new_def as_final_def
        with_value_def edge_clone_def edge_new_def split: option.split)
qed

theorem bulk_build_is_incremental_witness:
  "ascending [(1 :: u8, OnDisk sp_null), (2, InMem node_new)]
   \<and> from_sorted_children u8_label True (Some (7 :: nat)) [(1, OnDisk sp_null), (2, InMem node_new)]
     = incremental_build u8_label True (Some 7) [(1, OnDisk sp_null), (2, InMem node_new)]"
  using bulk_build_is_incremental [of "[(1 :: u8, OnDisk sp_null), (2, InMem node_new)]" u8_label True "Some (7::nat)"]
  by simp

end
