(* ===== verification/Cas_Walk.thy ===== *)
theory Cas_Walk
  imports Overlay_Node
begin

text \<open>
  Walks and path copies over the overlay trie
  (\<open>persistent_artrie/core/overlay/cas_walk.rs\<close>, the builders of
  \<open>persistent_artrie/lockfree_cas.rs\<close>, the loader tail of
  \<open>persistent_artrie/overlay_fault.rs\<close> and the snapshot walk of
  \<open>core/overlay/evict.rs\<close>).  The worklist of a path copy is a list of frames,
  root first; reserving its memory succeeds.  Evicted children are read through
  the loader argument \<open>fault_in\<close>, as in the source.

  A tree denotes a finite map from keys to optional values.  The lemmas show that
  the reads compute that map, and that each builder returns the tree of the
  updated map, sharing everything off the path, or an error in exactly the cases
  the code documents.
\<close>

subsection \<open>Errors and resolution\<close>

text \<open>The error variants these walks build or forward.\<close>

datatype persistent_artrie_error =
    IoError string
  | CorruptedFile string
  | InternalError string
  | InvalidOperation string
  | WalErr string

type_synonym ('l, 'v) fault_in = "swizzled_ptr \<Rightarrow> persistent_artrie_error + ('l, 'v) overlay_node"

datatype (dead 'l, 'v) child_resolution =
    Resident "('l, 'v) overlay_node"
  | Faulted "('l, 'v) overlay_node"
  | FaultFailed persistent_artrie_error
  | NullSlot
  | Absent

datatype fault_mode = Fault | NoFaultIn

definition resolve_or_fault ::
    "'l adaptive_label \<Rightarrow> ('l::linorder, 'v) overlay_node \<Rightarrow> 'l \<Rightarrow> fault_mode \<Rightarrow> ('l, 'v) fault_in
     \<Rightarrow> ('l, 'v) child_resolution" where
  "resolve_or_fault L n unit fault fault_in =
     (case find_child L n unit of
        Some c \<Rightarrow>
          (case as_in_mem c of
             Some m \<Rightarrow> Resident m
           | None \<Rightarrow>
               (case as_on_disk c of
                  Some p \<Rightarrow>
                    if sp_is_null p then NullSlot
                    else (case fault of
                            NoFaultIn \<Rightarrow> NullSlot
                          | Fault \<Rightarrow>
                              (case fault_in p of
                                 Inr loaded \<Rightarrow> Faulted loaded
                               | Inl e \<Rightarrow> FaultFailed e))
                | None \<Rightarrow> NullSlot))
      | None \<Rightarrow> Absent)"

subsection \<open>Reads\<close>

fun find_leaf_from ::
    "'l adaptive_label \<Rightarrow> ('l::linorder, 'v) overlay_node \<Rightarrow> 'l list \<Rightarrow> ('l, 'v) overlay_node option" where
  "find_leaf_from L current [] = (if is_final current then Some current else None)"
| "find_leaf_from L current (u # us) =
     (case find_child L current u of
        None \<Rightarrow> None
      | Some c \<Rightarrow> (case as_in_mem c of None \<Rightarrow> None | Some m \<Rightarrow> find_leaf_from L m us))"

definition find_leaf_iterative ::
    "'l adaptive_label \<Rightarrow> ('l::linorder, 'v) overlay_node \<Rightarrow> 'l list \<Rightarrow> nat \<Rightarrow> ('l, 'v) overlay_node option" where
  "find_leaf_iterative L n key depth = find_leaf_from L n (drop depth key)"

fun find_in_from :: "'l adaptive_label \<Rightarrow> ('l::linorder, 'v) overlay_node \<Rightarrow> 'l list \<Rightarrow> bool" where
  "find_in_from L current [] = is_final current"
| "find_in_from L current (u # us) =
     (case find_child L current u of
        None \<Rightarrow> False
      | Some c \<Rightarrow> (case as_in_mem c of None \<Rightarrow> False | Some m \<Rightarrow> find_in_from L m us))"

definition find_in_lockfree_trie ::
    "'l adaptive_label \<Rightarrow> ('l::linorder, 'v) overlay_node \<Rightarrow> 'l list \<Rightarrow> nat \<Rightarrow> bool" where
  "find_in_lockfree_trie L n key depth = find_in_from L n (drop depth key)"

fun walk_faulting_snapshot ::
    "'l adaptive_label \<Rightarrow> ('l, 'v) fault_in \<Rightarrow> ('l::linorder, 'v) overlay_node \<Rightarrow> 'l list
     \<Rightarrow> persistent_artrie_error + ('l, 'v) overlay_node option" where
  "walk_faulting_snapshot L fault_in current [] =
     Ok (if is_final current then Some current else None)"
| "walk_faulting_snapshot L fault_in current (edge # suffix) =
     (case find_child L current edge of
        None \<Rightarrow> Ok None
      | Some (InMem m) \<Rightarrow> walk_faulting_snapshot L fault_in m suffix
      | Some (OnDisk p) \<Rightarrow>
          if sp_is_null p then Ok None
          else try_res (fault_in p) (\<lambda>m. walk_faulting_snapshot L fault_in m suffix))"

subsection \<open>Path copies\<close>

type_synonym ('l, 'v) path_spine = "(('l, 'v) overlay_node \<times> 'l) list"

definition create_spine ::
    "'l adaptive_label \<Rightarrow> 'l list \<Rightarrow> ('l::linorder, 'v) overlay_node
     \<Rightarrow> ('l, 'v) overlay_node \<times> ('l, 'v) overlay_node" where
  "create_spine L suffix leaf =
     (fold (\<lambda>unit current. with_child L node_new unit (InMem current)) (rev suffix) leaf, leaf)"

definition unwind_spine ::
    "'l adaptive_label \<Rightarrow> ('l::linorder, 'v) path_spine \<Rightarrow> ('l, 'v) overlay_node \<Rightarrow> ('l, 'v) overlay_node" where
  "unwind_spine L spine child =
     fold (\<lambda>(n, unit) c. with_child L n unit (InMem c)) (rev spine) child"

fun build_value_loop ::
    "'l adaptive_label \<Rightarrow> fault_mode \<Rightarrow> ('l, 'v) fault_in \<Rightarrow> 'v \<Rightarrow> ('l::linorder, 'v) path_spine
     \<Rightarrow> ('l, 'v) overlay_node \<Rightarrow> 'l list \<Rightarrow> persistent_artrie_error + ('l, 'v) overlay_node" where
  "build_value_loop L fault fault_in v spine current [] =
     Ok (unwind_spine L spine (with_value L (as_final L current) v))"
| "build_value_loop L fault fault_in v spine current (unit # rest) =
     (case resolve_or_fault L current unit fault fault_in of
        Resident next \<Rightarrow> build_value_loop L fault fault_in v (spine @ [(current, unit)]) next rest
      | Faulted next \<Rightarrow> build_value_loop L fault fault_in v (spine @ [(current, unit)]) next rest
      | FaultFailed e \<Rightarrow> Err e
      | NullSlot \<Rightarrow>
          Err (case fault of
                 NoFaultIn \<Rightarrow> InternalError
                   ''valued overlay path-copy encountered an evicted child while fault-in was disabled''
               | Fault \<Rightarrow> CorruptedFile ''valued overlay path-copy encountered a null child edge'')
      | Absent \<Rightarrow>
          let leaf = with_value L (as_final L node_new) v;
              sub = fold (\<lambda>u c. with_child L node_new u (InMem c)) (rev rest) leaf
          in Ok (unwind_spine L spine (with_child L current unit (InMem sub))))"

definition build_value_spine ::
    "'l adaptive_label \<Rightarrow> ('l::linorder, 'v) overlay_node \<Rightarrow> 'l list \<Rightarrow> nat \<Rightarrow> 'v \<Rightarrow> fault_mode
     \<Rightarrow> ('l, 'v) fault_in \<Rightarrow> persistent_artrie_error + ('l, 'v) overlay_node" where
  "build_value_spine L n key depth v fault fault_in =
     (if length key < depth then Err (InternalError ''valued overlay path depth exceeds key length'')
      else build_value_loop L fault fault_in v [] n (drop depth key))"

datatype durable_build_error = AlreadyExists | Failure persistent_artrie_error

definition create_lockfree_path_final ::
    "'l adaptive_label \<Rightarrow> 'l list \<Rightarrow> ('l::linorder, 'v) overlay_node \<times> ('l, 'v) overlay_node" where
  "create_lockfree_path_final L term = create_spine L term (as_final L node_new)"

fun build_final_loop ::
    "'l adaptive_label \<Rightarrow> ('l, 'v) fault_in \<Rightarrow> ('l::linorder, 'v) path_spine \<Rightarrow> ('l, 'v) overlay_node
     \<Rightarrow> 'l list \<Rightarrow> durable_build_error + ('l, 'v) overlay_node" where
  "build_final_loop L fault_in spine current [] =
     (if is_final current then Err AlreadyExists
      else Ok (unwind_spine L spine (as_final L current)))"
| "build_final_loop L fault_in spine current (key # rest) =
     (case resolve_or_fault L current key Fault fault_in of
        Resident child \<Rightarrow> build_final_loop L fault_in (spine @ [(current, key)]) child rest
      | Faulted child \<Rightarrow> build_final_loop L fault_in (spine @ [(current, key)]) child rest
      | FaultFailed e \<Rightarrow> Err (Failure e)
      | NullSlot \<Rightarrow> Err (Failure (CorruptedFile ''byte overlay insert encountered a null child edge''))
      | Absent \<Rightarrow>
          Ok (unwind_spine L spine
                (with_child L current key (InMem (fst (create_lockfree_path_final L rest))))))"

definition build_final_path_iterative ::
    "'l adaptive_label \<Rightarrow> ('l, 'v) fault_in \<Rightarrow> ('l::linorder, 'v) overlay_node \<Rightarrow> 'l list \<Rightarrow> nat
     \<Rightarrow> durable_build_error + ('l, 'v) overlay_node" where
  "build_final_path_iterative L fault_in n term depth =
     (if length term < depth
      then Err (Failure (InternalError ''byte overlay insert depth exceeds key length''))
      else build_final_loop L fault_in [] n (drop depth term))"

fun build_remove_loop ::
    "'l adaptive_label \<Rightarrow> ('l, 'v) fault_in \<Rightarrow> ('l::linorder, 'v) path_spine \<Rightarrow> ('l, 'v) overlay_node
     \<Rightarrow> 'l list \<Rightarrow> durable_build_error + ('l, 'v) overlay_node" where
  "build_remove_loop L fault_in spine current [] =
     (if \<not> is_final current then Err AlreadyExists
      else Ok (unwind_spine L spine (as_non_final L current)))"
| "build_remove_loop L fault_in spine current (key # rest) =
     (case resolve_or_fault L current key Fault fault_in of
        Resident child \<Rightarrow> build_remove_loop L fault_in (spine @ [(current, key)]) child rest
      | Faulted child \<Rightarrow> build_remove_loop L fault_in (spine @ [(current, key)]) child rest
      | FaultFailed e \<Rightarrow> Err (Failure e)
      | NullSlot \<Rightarrow> Err AlreadyExists
      | Absent \<Rightarrow> Err AlreadyExists)"

definition build_remove_path_iterative ::
    "'l adaptive_label \<Rightarrow> ('l, 'v) fault_in \<Rightarrow> ('l::linorder, 'v) overlay_node \<Rightarrow> 'l list \<Rightarrow> nat
     \<Rightarrow> durable_build_error + ('l, 'v) overlay_node" where
  "build_remove_path_iterative L fault_in n term depth =
     (if length term < depth
      then Err (Failure (InternalError ''byte overlay remove depth exceeds key length''))
      else build_remove_loop L fault_in [] n (drop depth term))"

definition build_value_path_iterative ::
    "'l adaptive_label \<Rightarrow> ('l, 'v) fault_in \<Rightarrow> ('l::linorder, 'v) overlay_node \<Rightarrow> 'l list \<Rightarrow> nat \<Rightarrow> 'v
     \<Rightarrow> persistent_artrie_error + ('l, 'v) overlay_node" where
  "build_value_path_iterative L fault_in n key depth v =
     build_value_spine L n key depth v Fault fault_in"

subsection \<open>Loading an evicted node\<close>

text \<open>What the node decoder yields for one arena slot: finality, the value, the
  child pointers and the compressed prefix.  Reading the arena and decoding the
  bytes are the argument \<open>read_record\<close>.\<close>

record 'v dense_record =
  rec_is_final :: bool
  rec_value :: "'v option"
  rec_children :: "(u8 \<times> swizzled_ptr) list"
  rec_prefix :: "u8 list"

definition overlay_from_record :: "'v dense_record \<Rightarrow> u64 \<Rightarrow> (u8, 'v) overlay_node" where
  "overlay_from_record r raw =
     (let child_ptrs = filter (\<lambda>(_, p). \<not> sp_is_null p) (rec_children r);
          real0 = (if rec_is_final r then as_final u8_label node_new else node_new);
          real1 = (case rec_value r of Some v \<Rightarrow> with_value u8_label real0 v | None \<Rightarrow> real0);
          real = fold (\<lambda>(edge, p) n. with_child u8_label n edge (OnDisk p)) child_ptrs real1;
          cur = fold (\<lambda>b n. with_child u8_label node_new b (InMem n)) (rev (rec_prefix r)) real
      in set_durable_stamp cur raw)"

definition load_overlay_node_from_disk ::
    "(arena_slot \<Rightarrow> persistent_artrie_error + 'v dense_record) option \<Rightarrow> (u8, 'v) fault_in" where
  "load_overlay_node_from_disk arena_manager disk_ptr =
     (case arena_manager of
        None \<Rightarrow> Err (InternalError ''No arena manager for overlay fault-in load'')
      | Some read_record \<Rightarrow>
          (case sp_disk_location disk_ptr of
             None \<Rightarrow> Err (InternalError ''Node pointer is swizzled or null'')
           | Some loc \<Rightarrow>
               if dl_block_id loc = 0 then Err (InternalError ''Invalid block_id 0 for arena node'')
               else try_res (read_record \<lparr> arena_id = dl_block_id loc - 1, slot_id = dl_offset loc \<rparr>)
                      (\<lambda>r. Ok (overlay_from_record r (to_raw disk_ptr)))))"

subsection \<open>The map a tree denotes\<close>

text \<open>The node an edge leads to, reading evicted children, and the key map.\<close>

fun child_node :: "('l, 'v) fault_in \<Rightarrow> ('l, 'v) child \<Rightarrow> ('l, 'v) overlay_node option" where
  "child_node fault_in (InMem m) = Some m"
| "child_node fault_in (OnDisk p) =
     (if sp_is_null p then None
      else case fault_in p of Inr m \<Rightarrow> Some m | Inl _ \<Rightarrow> None)"

definition next_node ::
    "'l adaptive_label \<Rightarrow> ('l, 'v) fault_in \<Rightarrow> ('l::linorder, 'v) overlay_node \<Rightarrow> 'l
     \<Rightarrow> ('l, 'v) overlay_node option" where
  "next_node L fault_in n u =
     (case find_child L n u of None \<Rightarrow> None | Some c \<Rightarrow> child_node fault_in c)"

fun term_map ::
    "'l adaptive_label \<Rightarrow> ('l, 'v) fault_in \<Rightarrow> ('l::linorder, 'v) overlay_node \<Rightarrow> 'l list \<rightharpoonup> 'v option" where
  "term_map L fault_in n [] = (if is_final n then Some (get_value n) else None)"
| "term_map L fault_in n (u # us) =
     (case next_node L fault_in n u of None \<Rightarrow> None | Some m \<Rightarrow> term_map L fault_in m us)"

text \<open>The storage error met on the way to a key, if any, and whether the way is
  blocked by a null slot.\<close>

fun path_error ::
    "'l adaptive_label \<Rightarrow> ('l, 'v) fault_in \<Rightarrow> ('l::linorder, 'v) overlay_node \<Rightarrow> 'l list
     \<Rightarrow> persistent_artrie_error option" where
  "path_error L fault_in n [] = None"
| "path_error L fault_in n (u # us) =
     (case find_child L n u of
        None \<Rightarrow> None
      | Some (InMem m) \<Rightarrow> path_error L fault_in m us
      | Some (OnDisk p) \<Rightarrow>
          if sp_is_null p then None
          else (case fault_in p of Inl e \<Rightarrow> Some e | Inr m \<Rightarrow> path_error L fault_in m us))"

fun path_null ::
    "'l adaptive_label \<Rightarrow> ('l, 'v) fault_in \<Rightarrow> ('l::linorder, 'v) overlay_node \<Rightarrow> 'l list \<Rightarrow> bool" where
  "path_null L fault_in n [] = False"
| "path_null L fault_in n (u # us) =
     (case find_child L n u of
        None \<Rightarrow> False
      | Some (InMem m) \<Rightarrow> path_null L fault_in m us
      | Some (OnDisk p) \<Rightarrow>
          sp_is_null p
          \<or> (case fault_in p of Inl e \<Rightarrow> False | Inr m \<Rightarrow> path_null L fault_in m us))"

text \<open>Every loaded node is well-formed.\<close>

definition loader_ok :: "'l adaptive_label \<Rightarrow> ('l::linorder, 'v) fault_in \<Rightarrow> bool" where
  "loader_ok L fault_in \<longleftrightarrow> (\<forall>p m. fault_in p = Inr m \<longrightarrow> node_wf L m)"

text \<open>The frames of a descent: each edge leads to the next frame, the last one to
  the current node.\<close>

fun spine_path ::
    "'l adaptive_label \<Rightarrow> ('l, 'v) fault_in \<Rightarrow> ('l::linorder, 'v) overlay_node \<Rightarrow> ('l, 'v) path_spine
     \<Rightarrow> ('l, 'v) overlay_node \<Rightarrow> bool" where
  "spine_path L fault_in root [] cur = (root = cur)"
| "spine_path L fault_in root ((n, u) # spine) cur =
     (n = root \<and> node_wf L n
      \<and> (\<exists>m. next_node L fault_in n u = Some m \<and> spine_path L fault_in m spine cur))"

text \<open>What a record stands for below its prefix.\<close>

definition record_map :: "(u8, 'v) fault_in \<Rightarrow> 'v dense_record \<Rightarrow> u8 list \<rightharpoonup> 'v option" where
  "record_map fault_in r k =
     (case k of
        [] \<Rightarrow> if rec_is_final r then Some (rec_value r) else None
      | u # us \<Rightarrow>
          (case map_of (rec_children r) u of
             None \<Rightarrow> None
           | Some p \<Rightarrow>
               (case child_node fault_in (OnDisk p) of
                  None \<Rightarrow> None
                | Some m \<Rightarrow> term_map u8_label fault_in m us)))"

definition record_ok :: "'v dense_record \<Rightarrow> bool" where
  "record_ok r \<longleftrightarrow> distinct (map fst (rec_children r)) \<and> (rec_value r \<noteq> None \<longrightarrow> rec_is_final r)"

text \<open>A loader that never answers, and a record for examples.\<close>

abbreviation no_disk :: "('l, 'v) fault_in" where
  "no_disk \<equiv> \<lambda>_. Err (IoError ''unreachable'')"

definition example_record :: "nat dense_record" where
  "example_record =
     \<lparr> rec_is_final = True, rec_value = Some 3, rec_children = [(4, sp_null)], rec_prefix = [1, 2] \<rparr>"

subsection \<open>Reads compute the map\<close>

lemma resolve_cases:
  "resolve_or_fault L n u Fault fault_in =
     (case find_child L n u of
        None \<Rightarrow> Absent
      | Some (InMem m) \<Rightarrow> Resident m
      | Some (OnDisk p) \<Rightarrow>
          if sp_is_null p then NullSlot
          else case fault_in p of Inr m \<Rightarrow> Faulted m | Inl e \<Rightarrow> FaultFailed e)"
  by (simp add: resolve_or_fault_def split: option.split child.split)

lemma next_node_wf:
  assumes "label_ok L" "loader_ok L fault_in" "node_wf L n" "next_node L fault_in n u = Some m"
  shows "node_wf L m"
proof -
  obtain c where c: "find_child L n u = Some c" "child_node fault_in c = Some m"
    using assms(4) by (auto simp: next_node_def split: option.splits)
  then show ?thesis
    using find_child_wf [OF assms(1,3) c(1)] assms(2)
    by (cases c) (auto simp: loader_ok_def split: if_splits sum.splits)
qed

lemma find_in_from_leaf: "find_in_from L n key \<longleftrightarrow> find_leaf_from L n key \<noteq> None"
  by (induction L n key rule: find_in_from.induct) (auto split: option.splits)

lemma find_leaf_from_sound:
  "find_leaf_from L n key = Some leaf \<Longrightarrow>
     walk_faulting_snapshot L fault_in n key = Ok (Some leaf)"
proof (induction L n key rule: find_leaf_from.induct)
  case (2 L current u us)
  then show ?case
    by (auto split: option.splits child.splits elim!: as_in_mem.elims)
qed (auto split: if_splits)

lemma find_leaf_from_map:
  fixes n :: "('a::linorder, 'b) overlay_node"
  shows "map_option get_value (find_leaf_from L n key) = term_map L no_disk n key"
proof -
  have "child_node no_disk c = as_in_mem c" for c :: "('a, 'b) child"
    by (cases c) simp_all
  then show ?thesis
    by (induction L n key rule: find_leaf_from.induct) (auto simp: next_node_def split: option.splits)
qed

lemma walk_faulting_snapshot_spec:
  "case walk_faulting_snapshot L fault_in n key of
     Inl e \<Rightarrow> path_error L fault_in n key = Some e
   | Inr r \<Rightarrow> path_error L fault_in n key = None
       \<and> map_option get_value r = term_map L fault_in n key"
proof (induction key arbitrary: n)
  case (Cons u us)
  show ?case
  proof (cases "find_child L n u")
    case (Some c)
    then show ?thesis
    proof (cases c)
      case (OnDisk p)
      then show ?thesis
        using Cons Some
        by (cases "sp_is_null p"; cases "fault_in p") (simp_all add: next_node_def cong: sum.case_cong)
    qed (use Cons in \<open>simp add: next_node_def cong: sum.case_cong\<close>)
  qed (simp add: next_node_def)
qed simp

subsection \<open>Path copies update the map\<close>

lemma next_node_with_child:
  assumes "label_ok L" "node_wf L n"
  shows "next_node L fault_in (with_child L n u (InMem m)) x =
    (if x = u then Some m else next_node L fault_in n x)"
  using find_child_with_child [OF assms, of u "InMem m"] by (simp add: next_node_def)

lemma term_map_with_child:
  assumes "label_ok L" "node_wf L n"
  shows "term_map L fault_in (with_child L n u (InMem m)) k =
    (case k of [] \<Rightarrow> term_map L fault_in n []
     | x # xs \<Rightarrow> if x = u then term_map L fault_in m xs else term_map L fault_in n k)"
  by (cases k) (simp_all add: next_node_with_child [OF assms] node_simps)

lemma term_map_clones:
  assumes "label_ok L" "node_wf L n"
  shows "term_map L fault_in (as_final L n) = (term_map L fault_in n)([] \<mapsto> get_value n)"
    and "term_map L fault_in (as_non_final L n) = (term_map L fault_in n)([] := None)"
    and "is_final n \<Longrightarrow> term_map L fault_in (with_value L n v) = (term_map L fault_in n)([] \<mapsto> Some v)"
proof -
  have "next_node L fault_in (as_final L n) = next_node L fault_in n"
    "next_node L fault_in (as_non_final L n) = next_node L fault_in n"
    "next_node L fault_in (with_value L n v) = next_node L fault_in n"
    by (simp_all add: next_node_def fun_eq_iff node_simps assms)
  note nx = this
  show "term_map L fault_in (as_final L n) = (term_map L fault_in n)([] \<mapsto> get_value n)"
  proof
    fix k show "term_map L fault_in (as_final L n) k = ((term_map L fault_in n)([] \<mapsto> get_value n)) k"
      by (cases k) (simp_all add: nx node_simps)
  qed
  show "term_map L fault_in (as_non_final L n) = (term_map L fault_in n)([] := None)"
  proof
    fix k show "term_map L fault_in (as_non_final L n) k = ((term_map L fault_in n)([] := None)) k"
      by (cases k) (simp_all add: nx node_simps)
  qed
  assume "is_final n"
  show "term_map L fault_in (with_value L n v) = (term_map L fault_in n)([] \<mapsto> Some v)"
  proof
    fix k show "term_map L fault_in (with_value L n v) k = ((term_map L fault_in n)([] \<mapsto> Some v)) k"
      using \<open>is_final n\<close> by (cases k) (simp_all add: nx node_simps)
  qed
qed

lemma next_node_new [simp]: "next_node L fault_in node_new u = None"
  by (simp add: next_node_def find_child_def node_new_def edge_new_def)

lemma term_map_new [simp]: "term_map L fault_in node_new = Map.empty"
proof
  show "term_map L fault_in node_new k = None" for k
    by (cases k) (simp_all add: node_simps)
qed

lemma create_spine_Cons:
  "fst (create_spine L (u # us) leaf) = with_child L node_new u (InMem (fst (create_spine L us leaf)))"
  by (simp add: create_spine_def)

lemma create_spine_spec:
  assumes "label_ok L" "node_wf L leaf" "term_map L fault_in leaf = [[] \<mapsto> x]"
  shows "node_wf L (fst (create_spine L us leaf))
    \<and> term_map L fault_in (fst (create_spine L us leaf)) = [us \<mapsto> x]"
proof (induction us)
  case Nil
  then show ?case using assms by (simp add: create_spine_def)
next
  case (Cons u us)
  let ?sub = "fst (create_spine L us leaf)"
  have "term_map L fault_in (fst (create_spine L (u # us) leaf)) k = [u # us \<mapsto> x] k" for k
    using Cons by (cases k) (simp_all add: create_spine_Cons node_simps next_node_with_child [OF assms(1)])
  then show ?case
    using Cons by (simp add: create_spine_Cons fun_eq_iff node_wf_with_child [OF assms(1)])
qed

lemma unwind_Cons: "unwind_spine L ((n, u) # spine) c = with_child L n u (InMem (unwind_spine L spine c))"
  by (simp add: unwind_spine_def)

lemma unwind_Nil [simp]: "unwind_spine L [] c = c"
  by (simp add: unwind_spine_def)

lemma spine_path_snoc:
  "spine_path L fault_in root (spine @ [(cur, u)]) m \<longleftrightarrow>
     spine_path L fault_in root spine cur \<and> node_wf L cur \<and> next_node L fault_in cur u = Some m"
  by (induction L fault_in root spine cur rule: spine_path.induct) auto

lemma unwind_spec:
  assumes "label_ok L" "node_wf L new" "term_map L fault_in new = (term_map L fault_in cur)(k := x)"
  shows "spine_path L fault_in root spine cur \<Longrightarrow>
    node_wf L (unwind_spine L spine new)
    \<and> term_map L fault_in (unwind_spine L spine new) = (term_map L fault_in root)(map snd spine @ k := x)"
proof (induction spine arbitrary: root)
  case Nil
  then show ?case using assms by simp
next
  case (Cons f spine)
  obtain n u where f: "f = (n, u)" by force
  obtain m where m: "n = root" "node_wf L n" "next_node L fault_in n u = Some m"
      "spine_path L fault_in m spine cur"
    using Cons.prems by (auto simp: f)
  note IH = Cons.IH [OF m(4)]
  have "term_map L fault_in (unwind_spine L (f # spine) new) j =
      ((term_map L fault_in root)(map snd (f # spine) @ k := x)) j" for j
    using IH m(1,3) next_node_with_child [OF assms(1) m(2)]
    by (cases j) (simp_all add: f unwind_Cons node_simps)
  then show ?case
    using IH m by (simp add: f unwind_Cons fun_eq_iff node_wf_with_child [OF assms(1)])
qed

lemma final_leaf:
  assumes "label_ok L"
  shows "node_wf L (as_final L node_new)" "term_map L fault_in (as_final L node_new) = [[] \<mapsto> None]"
    "node_wf L (with_value L (as_final L node_new) v)"
    "term_map L fault_in (with_value L (as_final L node_new) v) = [[] \<mapsto> Some v]"
  using assms
  by (simp_all add: node_wf_as_final node_wf_with_value node_simps term_map_clones)

lemma term_map_absent:
  assumes "find_child L cur u = None"
  shows "term_map L fault_in cur (u # us) = None"
  using assms by (simp add: next_node_def)

text \<open>Splicing a fresh path under a missing edge.\<close>

lemma graft_spec:
  assumes "label_ok L" "node_wf L cur" "find_child L cur u = None"
    and "node_wf L sub" "term_map L fault_in sub = [us \<mapsto> x]"
  shows "node_wf L (with_child L cur u (InMem sub))
    \<and> term_map L fault_in (with_child L cur u (InMem sub)) = (term_map L fault_in cur)(u # us \<mapsto> x)"
proof -
  have "next_node L fault_in cur u = None"
    using assms(3) by (simp add: next_node_def)
  then have "term_map L fault_in (with_child L cur u (InMem sub)) k =
      ((term_map L fault_in cur)(u # us \<mapsto> x)) k" for k
    using assms(5) by (cases k) (simp_all add: next_node_with_child [OF assms(1,2)] node_simps)
  then show ?thesis
    using assms by (simp add: fun_eq_iff node_wf_with_child)
qed

lemma build_final_loop_Ok:
  fixes root :: "('l::linorder, 'v) overlay_node"
  assumes "label_ok L" "loader_ok L fault_in" "node_wf L cur" "spine_path L fault_in root spine cur"
    and "build_final_loop L fault_in spine cur key = Ok root'"
  shows "node_wf L root'
    \<and> term_map L fault_in root' = (term_map L fault_in root)(map snd spine @ key \<mapsto> None)"
  using assms(3-5)
proof (induction key arbitrary: spine cur)
  case Nil
  then have "\<not> is_final cur" "root' = unwind_spine L spine (as_final L cur)"
    by (auto split: if_splits)
  then show ?case
    using unwind_spec [OF assms(1) node_wf_as_final [OF Nil.prems(1)], of fault_in cur "[]" "Some None"]
      Nil.prems node_wf_nonfinal [OF Nil.prems(1)] by (simp add: term_map_clones assms(1))
next
  case (Cons u us)
  show ?case
  proof (cases "next_node L fault_in cur u")
    case (Some m)
    then have "build_final_loop L fault_in (spine @ [(cur, u)]) m us = Ok root'"
      using Cons.prems(3) by (auto simp: resolve_cases next_node_def split: option.splits child.splits
          if_splits sum.splits)
    then show ?thesis
      using Cons.IH [of m "spine @ [(cur, u)]"] Cons.prems next_node_wf [OF assms(1,2) Cons.prems(1) Some] Some
      by (simp add: spine_path_snoc)
  next
    case None
    let ?sub = "fst (create_lockfree_path_final L us) :: ('l, 'v) overlay_node"
    have gone: "find_child L cur u = None"
      and root': "root' = unwind_spine L spine (with_child L cur u (InMem ?sub))"
      using Cons.prems(3) None
      by (auto simp: resolve_cases next_node_def split: option.splits child.splits if_splits sum.splits)
    have "node_wf L ?sub \<and> term_map L fault_in ?sub = [us \<mapsto> None]"
      unfolding create_lockfree_path_final_def
      by (rule create_spine_spec [OF assms(1) final_leaf(1,2) [OF assms(1)]])
    then have "node_wf L (with_child L cur u (InMem ?sub))
        \<and> term_map L fault_in (with_child L cur u (InMem ?sub)) = (term_map L fault_in cur)(u # us \<mapsto> None)"
      using graft_spec [OF assms(1) Cons.prems(1) gone] by blast
    then show ?thesis
      using unwind_spec [OF assms(1), of "with_child L cur u (InMem ?sub)" fault_in cur "u # us" "Some None"]
        Cons.prems(2) root' by simp
  qed
qed

lemma build_final_loop_outcome:
  "case build_final_loop L fault_in spine cur key of
     Inl AlreadyExists \<Rightarrow> term_map L fault_in cur key \<noteq> None
   | Inl (Failure e) \<Rightarrow> path_error L fault_in cur key = Some e
       \<or> path_null L fault_in cur key
         \<and> e = CorruptedFile ''byte overlay insert encountered a null child edge''
   | Inr _ \<Rightarrow> term_map L fault_in cur key = None \<and> path_error L fault_in cur key = None
       \<and> \<not> path_null L fault_in cur key"
proof (induction key arbitrary: cur spine)
  case (Cons u us)
  show ?case
  proof (cases "find_child L cur u")
    case (Some c)
    then show ?thesis
    proof (cases c)
      case (OnDisk p)
      then show ?thesis
        using Cons Some by (cases "sp_is_null p"; cases "fault_in p")
          (simp_all add: next_node_def resolve_cases cong: sum.case_cong durable_build_error.case_cong)
    qed (use Cons in \<open>simp add: next_node_def resolve_cases
        cong: sum.case_cong durable_build_error.case_cong\<close>)
  qed (simp add: next_node_def resolve_cases)
qed simp

lemma build_remove_loop_Ok:
  assumes "label_ok L" "loader_ok L fault_in" "node_wf L cur" "spine_path L fault_in root spine cur"
    and "build_remove_loop L fault_in spine cur key = Ok root'"
  shows "node_wf L root'
    \<and> term_map L fault_in root' = (term_map L fault_in root)(map snd spine @ key := None)"
  using assms(3-5)
proof (induction key arbitrary: spine cur)
  case Nil
  then have "root' = unwind_spine L spine (as_non_final L cur)"
    by (auto split: if_splits)
  then show ?case
    using unwind_spec [OF assms(1) node_wf_as_non_final [OF Nil.prems(1)], of fault_in cur "[]" None]
      Nil.prems by (simp add: term_map_clones assms(1))
next
  case (Cons u us)
  then obtain m where m: "next_node L fault_in cur u = Some m"
      "build_remove_loop L fault_in (spine @ [(cur, u)]) m us = Ok root'"
    by (auto simp: resolve_cases next_node_def split: option.splits child.splits if_splits sum.splits)
  then show ?case
    using Cons.IH [of m "spine @ [(cur, u)]"] Cons.prems next_node_wf [OF assms(1,2) Cons.prems(1) m(1)]
    by (simp add: spine_path_snoc)
qed

lemma build_remove_loop_outcome:
  "case build_remove_loop L fault_in spine cur key of
     Inl AlreadyExists \<Rightarrow> term_map L fault_in cur key = None \<and> path_error L fault_in cur key = None
   | Inl (Failure e) \<Rightarrow> path_error L fault_in cur key = Some e
   | Inr _ \<Rightarrow> term_map L fault_in cur key \<noteq> None \<and> path_error L fault_in cur key = None"
proof (induction key arbitrary: cur spine)
  case (Cons u us)
  show ?case
  proof (cases "find_child L cur u")
    case (Some c)
    then show ?thesis
    proof (cases c)
      case (OnDisk p)
      then show ?thesis
        using Cons Some by (cases "sp_is_null p"; cases "fault_in p")
          (simp_all add: next_node_def resolve_cases cong: sum.case_cong durable_build_error.case_cong)
    qed (use Cons in \<open>simp add: next_node_def resolve_cases
        cong: sum.case_cong durable_build_error.case_cong\<close>)
  qed (simp add: next_node_def resolve_cases)
qed simp

lemma build_value_loop_Ok:
  fixes root :: "('l::linorder, 'v) overlay_node"
  assumes "label_ok L" "loader_ok L fault_in" "node_wf L cur" "spine_path L fault_in root spine cur"
    and "build_value_loop L Fault fault_in v spine cur key = Ok root'"
  shows "node_wf L root'
    \<and> term_map L fault_in root' = (term_map L fault_in root)(map snd spine @ key \<mapsto> Some v)"
  using assms(3-5)
proof (induction key arbitrary: spine cur)
  case Nil
  let ?leaf = "with_value L (as_final L cur) v"
  have "node_wf L (as_final L cur)"
    using Nil.prems by (simp add: node_wf_as_final)
  moreover have "node_wf L ?leaf" "root' = unwind_spine L spine ?leaf"
    using Nil.prems by (simp_all add: node_wf_as_final node_wf_with_value node_simps)
  ultimately show ?case
    using unwind_spec [OF assms(1), of ?leaf fault_in cur "[]" "Some (Some v)"] Nil.prems
    by (simp add: term_map_clones assms(1) node_simps)
next
  case (Cons u us)
  show ?case
  proof (cases "next_node L fault_in cur u")
    case (Some m)
    then have "build_value_loop L Fault fault_in v (spine @ [(cur, u)]) m us = Ok root'"
      using Cons.prems(3) by (auto simp: resolve_cases next_node_def split: option.splits child.splits
          if_splits sum.splits)
    then show ?thesis
      using Cons.IH [of m "spine @ [(cur, u)]"] Cons.prems next_node_wf [OF assms(1,2) Cons.prems(1) Some] Some
      by (simp add: spine_path_snoc)
  next
    case None
    let ?sub = "fst (create_spine L us (with_value L (as_final L node_new) v)) :: ('l, 'v) overlay_node"
    have gone: "find_child L cur u = None"
      and root': "root' = unwind_spine L spine (with_child L cur u (InMem ?sub))"
      using Cons.prems(3) None
      by (auto simp: resolve_cases next_node_def create_spine_def Let_def
          split: option.splits child.splits if_splits sum.splits)
    have "node_wf L ?sub \<and> term_map L fault_in ?sub = [us \<mapsto> Some v]"
      by (rule create_spine_spec [OF assms(1) final_leaf(3,4) [OF assms(1)]])
    then have "node_wf L (with_child L cur u (InMem ?sub))
        \<and> term_map L fault_in (with_child L cur u (InMem ?sub)) = (term_map L fault_in cur)(u # us \<mapsto> Some v)"
      using graft_spec [OF assms(1) Cons.prems(1) gone] by blast
    then show ?thesis
      using unwind_spec [OF assms(1), of "with_child L cur u (InMem ?sub)" fault_in cur "u # us" "Some (Some v)"]
        Cons.prems(2) root' by simp
  qed
qed

lemma build_value_loop_outcome:
  "case build_value_loop L Fault fault_in v spine cur key of
     Inl e \<Rightarrow> path_error L fault_in cur key = Some e
       \<or> path_null L fault_in cur key
         \<and> e = CorruptedFile ''valued overlay path-copy encountered a null child edge''
   | Inr _ \<Rightarrow> path_error L fault_in cur key = None \<and> \<not> path_null L fault_in cur key"
proof (induction key arbitrary: cur spine)
  case (Cons u us)
  show ?case
  proof (cases "find_child L cur u")
    case (Some c)
    then show ?thesis
    proof (cases c)
      case (OnDisk p)
      then show ?thesis
        using Cons Some by (cases "sp_is_null p"; cases "fault_in p")
          (simp_all add: resolve_cases cong: sum.case_cong)
    qed (use Cons in \<open>simp add: resolve_cases cong: sum.case_cong\<close>)
  qed (simp add: resolve_cases Let_def)
qed simp

subsection \<open>Loaded nodes\<close>

lemma fold_on_disk_spec:
  assumes "node_wf u8_label n"
  shows "node_wf u8_label (fold (\<lambda>(edge, p) n. with_child u8_label n edge (OnDisk p)) es n)
    \<and> find_child u8_label (fold (\<lambda>(edge, p) n. with_child u8_label n edge (OnDisk p)) es n)
      = find_child u8_label n ++ (map_option OnDisk \<circ> map_of (rev es))
    \<and> is_final (fold (\<lambda>(edge, p) n. with_child u8_label n edge (OnDisk p)) es n) = is_final n
    \<and> get_value (fold (\<lambda>(edge, p) n. with_child u8_label n edge (OnDisk p)) es n) = get_value n"
  using assms
proof (induction es arbitrary: n)
  case (Cons e es)
  obtain b p where e: "e = (b, p)" by force
  have "node_wf u8_label (with_child u8_label n b (OnDisk p))"
    using Cons.prems by (simp add: node_wf_with_child)
  from Cons.IH [OF this] show ?case
    using find_child_with_child [OF _ Cons.prems, of b "OnDisk p"]
    by (auto simp: e node_simps fun_eq_iff map_add_def split: option.splits)
qed simp

lemma prefix_chain_spec:
  assumes "node_wf u8_label n"
  defines "chain \<equiv> \<lambda>bs. fold (\<lambda>b n. with_child u8_label node_new b (InMem n)) (rev bs) n"
  shows "node_wf u8_label (chain bs)
    \<and> (\<forall>k. term_map u8_label fault_in (chain bs) k =
          (if take (length bs) k = bs then term_map u8_label fault_in n (drop (length bs) k) else None))"
proof (induction bs)
  case Nil
  then show ?case using assms by simp
next
  case (Cons b bs)
  have step: "chain (b # bs) = with_child u8_label node_new b (InMem (chain bs))"
    by (simp add: chain_def)
  have "term_map u8_label fault_in (chain (b # bs)) k =
      (if take (length (b # bs)) k = b # bs
       then term_map u8_label fault_in n (drop (length (b # bs)) k) else None)" for k
    using Cons unfolding step
    by (cases k) (auto simp: node_simps next_node_with_child)
  then show ?case
    using Cons by (simp add: step node_wf_with_child)
qed

lemma set_durable_stamp_term_map:
  "term_map L fault_in (set_durable_stamp n raw) = term_map L fault_in n"
proof
  have "next_node L fault_in (set_durable_stamp n raw) u = next_node L fault_in n u" for u
    by (simp add: next_node_def find_child_def set_durable_stamp_def)
  moreover have "get_value (set_durable_stamp n raw) = get_value n"
    by (simp add: get_value_def set_durable_stamp_def)
  ultimately show "term_map L fault_in (set_durable_stamp n raw) k = term_map L fault_in n k" for k
    by (cases k) (simp_all add: node_simps)
qed

lemma map_of_rev_filter:
  assumes "distinct (map fst xs)"
  shows "map_of (rev (filter (\<lambda>(_, p). P p) xs)) u =
       (case map_of xs u of Some p \<Rightarrow> if P p then Some p else None | None \<Rightarrow> None)"
proof -
  let ?ys = "rev (filter (\<lambda>(_, p). P p) xs)"
  show ?thesis
  proof (cases "map_of ?ys u")
    case None
    then have "(u, q) \<in> set xs \<Longrightarrow> \<not> P q" for q
      by (force simp: map_of_eq_None_iff)
    then show ?thesis
      using None by (auto split: option.split dest: map_of_SomeD)
  next
    case (Some q)
    then have "(u, q) \<in> set xs" "P q"
      by (auto dest: map_of_SomeD)
    then show ?thesis
      using Some assms by simp
  qed
qed

lemma overlay_from_record_spec:
  fixes r :: "'v dense_record"
  assumes "record_ok r"
  shows "node_wf u8_label (overlay_from_record r raw)
    \<and> term_map u8_label fault_in (overlay_from_record r raw) k =
       (if take (length (rec_prefix r)) k = rec_prefix r
        then record_map fault_in r (drop (length (rec_prefix r)) k) else None)"
proof -
  let ?ptrs = "filter (\<lambda>(_, p). \<not> sp_is_null p) (rec_children r)"
  define real0 :: "(u8, 'v) overlay_node"
    where "real0 = (if rec_is_final r then as_final u8_label node_new else node_new)"
  define real1 where "real1 = (case rec_value r of Some v \<Rightarrow> with_value u8_label real0 v | None \<Rightarrow> real0)"
  define real where "real = fold (\<lambda>(edge, p) n. with_child u8_label n edge (OnDisk p)) ?ptrs real1"
  define cur where "cur = fold (\<lambda>b n. with_child u8_label node_new b (InMem n)) (rev (rec_prefix r)) real"
  have node: "overlay_from_record r raw = set_durable_stamp cur raw"
    by (simp only: overlay_from_record_def real0_def real1_def real_def cur_def Let_def)
  have wf0: "node_wf u8_label real0" "is_final real0 = rec_is_final r" "get_value real0 = None"
    "find_child u8_label real0 = Map.empty"
    by (auto simp: real0_def node_wf_as_final node_simps fun_eq_iff)
      (simp_all add: find_child_def node_new_def edge_new_def)
  have wf1: "node_wf u8_label real1" "is_final real1 = rec_is_final r" "get_value real1 = rec_value r"
    "find_child u8_label real1 = Map.empty"
    using wf0 assms by (auto simp: real1_def record_ok_def node_wf_with_value node_simps split: option.split)
  have real: "node_wf u8_label real" "is_final real = rec_is_final r" "get_value real = rec_value r"
    "find_child u8_label real = map_option OnDisk \<circ> map_of (rev ?ptrs)"
    using fold_on_disk_spec [OF wf1(1), of ?ptrs] wf1(2-) unfolding real_def by simp_all
  have "term_map u8_label fault_in real j = record_map fault_in r j" for j
    using real(2-) assms
    by (cases j) (auto simp: record_map_def next_node_def map_of_rev_filter record_ok_def split: option.splits)
  then show ?thesis
    using prefix_chain_spec [OF real(1), of "rec_prefix r" fault_in]
    by (simp add: node cur_def set_durable_stamp_term_map node_wf_set_durable_stamp)
qed

lemma load_overlay_node_loader_ok:
  assumes "\<And>read_record slot r. arena_manager = Some read_record \<Longrightarrow> read_record slot = Ok r \<Longrightarrow> record_ok r"
  shows "loader_ok u8_label (load_overlay_node_from_disk arena_manager)"
proof -
  have wf: "node_wf u8_label (overlay_from_record r raw)" if "record_ok r" for r raw
    using overlay_from_record_spec [OF that, of raw "\<lambda>_. Err (IoError [])" "[]"] by blast
  have "node_wf u8_label n" if "load_overlay_node_from_disk arena_manager p = Ok n" for p n
    using that by (auto simp: load_overlay_node_from_disk_def try_res_eq_Ok split: option.splits if_splits intro!: wf intro: assms)
  then show ?thesis
    by (simp add: loader_ok_def)
qed

subsection \<open>Properties\<close>

lemma no_disk_ok [simp]: "loader_ok L no_disk"
  by (simp add: loader_ok_def)

text \<open>
  C21: Publishing a key by path copy refines inserting it into the map the tree
  denotes.  For every key, resident or evicted children alike, the builder
  returns a well-formed tree whose map is the old one with the key added and
  nothing else changed; it reports the key as present exactly when the map has
  it; and it fails only with the storage error met on the way, or on a null edge.
\<close>

theorem insert_path_refines_map:
  assumes "label_ok L" "loader_ok L fault_in" "node_wf L root"
  shows "case build_final_path_iterative L fault_in root key 0 of
     Inr root' \<Rightarrow> term_map L fault_in root key = None \<and> node_wf L root'
       \<and> term_map L fault_in root' = (term_map L fault_in root)(key \<mapsto> None)
   | Inl AlreadyExists \<Rightarrow> term_map L fault_in root key \<noteq> None
   | Inl (Failure e) \<Rightarrow> path_error L fault_in root key = Some e
       \<or> path_null L fault_in root key
         \<and> e = CorruptedFile ''byte overlay insert encountered a null child edge''"
  using build_final_loop_outcome [where spine = "[]" and cur = root and key = key and L = L and fault_in = fault_in]
    build_final_loop_Ok [OF assms, where spine = "[]" and root = root and key = key]
  by (auto simp: build_final_path_iterative_def split: sum.splits durable_build_error.splits)

theorem insert_path_refines_map_witness:
  "\<exists>root' :: (u8, nat) overlay_node.
     build_final_path_iterative u8_label no_disk node_new [99, 97, 116] 0 = Ok root'
     \<and> term_map u8_label no_disk root' = [[99, 97, 116] \<mapsto> None]"
proof -
  have "\<exists>root' :: (u8, nat) overlay_node.
      build_final_path_iterative u8_label no_disk node_new [99, 97, 116] 0 = Ok root'"
    by (simp add: build_final_path_iterative_def resolve_cases find_child_def node_new_def edge_new_def)
  then obtain root' :: "(u8, nat) overlay_node"
    where "build_final_path_iterative u8_label no_disk node_new [99, 97, 116] 0 = Ok root'" ..
  then show ?thesis
    using insert_path_refines_map [of u8_label no_disk "node_new :: (u8, nat) overlay_node" "[99, 97, 116]"]
    by simp
qed

text \<open>
  C22: Removing a key by path copy refines deleting it from the map.  Exactly the
  key disappears: keys that extend it, share its path or lie under evicted
  children keep their values.  An absent key is reported as such, and a storage
  error on the way is never taken for absence.
\<close>

theorem remove_path_refines_map:
  assumes "label_ok L" "loader_ok L fault_in" "node_wf L root"
  shows "case build_remove_path_iterative L fault_in root key 0 of
     Inr root' \<Rightarrow> term_map L fault_in root key \<noteq> None \<and> node_wf L root'
       \<and> term_map L fault_in root' = (term_map L fault_in root)(key := None)
   | Inl AlreadyExists \<Rightarrow> term_map L fault_in root key = None \<and> path_error L fault_in root key = None
   | Inl (Failure e) \<Rightarrow> path_error L fault_in root key = Some e"
  using build_remove_loop_outcome [where spine = "[]" and cur = root and key = key and L = L and fault_in = fault_in]
    build_remove_loop_Ok [OF assms, where spine = "[]" and root = root and key = key]
  by (auto simp: build_remove_path_iterative_def split: sum.splits durable_build_error.splits)

theorem remove_path_refines_map_witness:
  "let cs = with_child u8_label (as_final u8_label node_new) 115 (InMem (as_final u8_label node_new));
       root = with_child u8_label node_new 99 (InMem cs) :: (u8, nat) overlay_node
   in \<exists>root'. build_remove_path_iterative u8_label no_disk root [99] 0 = Ok root'
     \<and> term_map u8_label no_disk root' [99] = None
     \<and> term_map u8_label no_disk root' [99, 115] = Some None"
proof -
  let ?cs = "with_child u8_label (as_final u8_label node_new) 115 (InMem (as_final u8_label node_new))"
  let ?root = "with_child u8_label node_new 99 (InMem ?cs) :: (u8, nat) overlay_node"
  have wf: "node_wf u8_label ?root"
    by (simp add: node_wf_with_child node_wf_as_final)
  have maps: "term_map u8_label no_disk ?root [99] \<noteq> None" "term_map u8_label no_disk ?root [99, 115] = Some None"
    "path_error u8_label no_disk ?root [99] = None"
    by (simp_all add: next_node_with_child node_wf_as_final node_simps find_child_with_child)
  then show ?thesis
    using remove_path_refines_map [of u8_label no_disk ?root "[99]"] wf
    by (auto simp: Let_def simp del: term_map.simps path_error.simps
        split: sum.splits durable_build_error.splits)
qed

text \<open>
  C23: Publishing a value by path copy refines updating the map at the key,
  whether the key was absent, present without a value or present with another
  value.  The builder fails exactly when a child on the way cannot be loaded or
  a null edge is met.
\<close>

theorem value_path_refines_map:
  assumes "label_ok L" "loader_ok L fault_in" "node_wf L root"
  shows "case build_value_path_iterative L fault_in root key 0 v of
     Inr root' \<Rightarrow> node_wf L root' \<and> path_error L fault_in root key = None \<and> \<not> path_null L fault_in root key
       \<and> term_map L fault_in root' = (term_map L fault_in root)(key \<mapsto> Some v)
   | Inl e \<Rightarrow> path_error L fault_in root key = Some e
       \<or> path_null L fault_in root key
         \<and> e = CorruptedFile ''valued overlay path-copy encountered a null child edge''"
  using build_value_loop_outcome [where spine = "[]" and cur = root and key = key and v = v and L = L
        and fault_in = fault_in]
    build_value_loop_Ok [OF assms, where spine = "[]" and root = root and key = key and v = v]
  by (auto simp: build_value_path_iterative_def build_value_spine_def split: sum.splits)

theorem value_path_refines_map_witness:
  "\<exists>root'. build_value_path_iterative u8_label no_disk (as_final u8_label node_new) [7, 8] 0 (5 :: nat) = Ok root'
     \<and> term_map u8_label no_disk root' = [[] \<mapsto> None, [7, 8] \<mapsto> Some 5]"
proof -
  let ?root = "as_final u8_label node_new :: (u8, nat) overlay_node"
  have wf: "node_wf u8_label ?root" "term_map u8_label no_disk ?root = [[] \<mapsto> None]"
    by (simp_all add: final_leaf)
  have "find_child u8_label ?root 7 = None"
    by (simp add: node_simps) (simp add: find_child_def node_new_def edge_new_def)
  then have "path_error u8_label no_disk ?root [7, 8] = None" "\<not> path_null u8_label no_disk ?root [7, 8]"
    by simp_all
  then show ?thesis
    using value_path_refines_map [of u8_label no_disk ?root "[7, 8]" 5] wf
    by (auto split: sum.splits)
qed

text \<open>
  C24: The reads compute the map.  The walk that loads evicted children returns
  the final node of the key with its value, reports absence exactly for absent
  keys and otherwise the storage error; the resident walk returns a node only
  where the loading walk returns the same one, and sees precisely the keys
  reachable without the disk; and the membership walk agrees with it.
\<close>

theorem reads_compute_map:
  fixes n :: "('a::linorder, 'b) overlay_node"
  shows "(case walk_faulting_snapshot L fault_in n key of
      Inl e \<Rightarrow> path_error L fault_in n key = Some e
    | Inr r \<Rightarrow> path_error L fault_in n key = None \<and> map_option get_value r = term_map L fault_in n key)
   \<and> (\<forall>leaf. find_leaf_iterative L n key 0 = Some leaf \<longrightarrow>
        walk_faulting_snapshot L fault_in n key = Ok (Some leaf))
   \<and> map_option get_value (find_leaf_iterative L n key 0) = term_map L no_disk n key
   \<and> find_in_lockfree_trie L n key 0 = (find_leaf_iterative L n key 0 \<noteq> None)"
  using walk_faulting_snapshot_spec [of L fault_in n key] find_leaf_from_sound [of L n key _ fault_in]
    find_leaf_from_map [of L n key]
  by (simp add: find_leaf_iterative_def find_in_lockfree_trie_def find_in_from_leaf)

theorem reads_compute_map_witness:
  "find_leaf_iterative u8_label (with_child u8_label node_new 99 (InMem (as_final u8_label node_new))) [99] 0
     = Some (as_final u8_label node_new :: (u8, nat) overlay_node)
   \<and> walk_faulting_snapshot u8_label no_disk
       (with_child u8_label node_new 99 (InMem (as_final u8_label node_new))) [99]
     = Ok (Some (as_final u8_label node_new :: (u8, nat) overlay_node))"
proof -
  let ?n = "with_child u8_label node_new 99 (InMem (as_final u8_label node_new)) :: (u8, nat) overlay_node"
  have "find_leaf_iterative u8_label ?n [99] 0 = Some (as_final u8_label node_new)"
    by (simp add: find_leaf_iterative_def find_child_with_child node_simps)
  then show ?thesis
    using reads_compute_map [of u8_label no_disk ?n "[99]"] by blast
qed

text \<open>
  C25: Loading an evicted node rebuilds the subtree its record stands for.  The
  compressed prefix becomes a chain of edges, finality, value and child pointers
  are those of the record, null child slots disappear, and the node carries the
  pointer it was loaded from as its durable stamp.  A loader built on a record
  reader that yields well-formed records is one the path copies may rely on.
\<close>

theorem loaded_node_denotes_record:
  assumes "\<And>slot r. read_record slot = Ok r \<Longrightarrow> record_ok r"
    and "as_arena_slot p = Some slot" "read_record slot = Ok r"
  defines "fault_in \<equiv> load_overlay_node_from_disk (Some read_record)"
  shows "loader_ok u8_label fault_in
    \<and> (\<exists>n. fault_in p = Ok n \<and> node_wf u8_label n \<and> serial_disk_ptr n = to_raw p
        \<and> (\<forall>k. term_map u8_label fault_in n k =
             (if take (length (rec_prefix r)) k = rec_prefix r
              then record_map fault_in r (drop (length (rec_prefix r)) k) else None)))"
proof -
  have loader: "loader_ok u8_label fault_in"
    unfolding fault_in_def by (rule load_overlay_node_loader_ok) (simp add: assms(1))
  have "record_ok r"
    using assms(3) by (rule assms(1))
  moreover have "fault_in p = Ok (overlay_from_record r (to_raw p))"
    using assms(2,3) by (auto simp: fault_in_def load_overlay_node_from_disk_def as_arena_slot_def
        split: option.splits if_splits)
  moreover have "serial_disk_ptr (overlay_from_record r (to_raw p)) = to_raw p"
    by (simp add: overlay_from_record_def Let_def set_durable_stamp_def)
  ultimately show ?thesis
    using overlay_from_record_spec [of r "to_raw p" fault_in] loader by blast
qed

theorem loaded_node_denotes_record_witness:
  "\<exists>n. load_overlay_node_from_disk (Some (\<lambda>_. Ok example_record)) (on_disk 1 2 Node4) = Ok n
    \<and> term_map u8_label (load_overlay_node_from_disk (Some (\<lambda>_. Ok example_record))) n [1, 2] = Some (Some 3)"
proof -
  have "as_arena_slot (on_disk 1 2 Node4) = Some \<lparr> arena_id = 0, slot_id = 2 \<rparr>"
    by code_simp
  moreover have "record_ok example_record" "rec_prefix example_record = [1, 2]"
    "record_map fault_in example_record [] = Some (Some 3)" for fault_in
    by (simp_all add: record_ok_def example_record_def record_map_def)
  ultimately show ?thesis
    using loaded_node_denotes_record [of "\<lambda>_. Ok example_record" "on_disk 1 2 Node4"
        "\<lparr> arena_id = 0, slot_id = 2 \<rparr>" example_record]
    by (auto simp del: term_map.simps)
qed

end
