(* ===== verification/Recovery.thy ===== *)
theory Recovery
  imports Wal_Frame "HOL-Library.Product_Lexorder"
begin

text \<open>
  Crash recovery (\<open>persistent_artrie/core/recovery.rs\<close>): the replay operations a
  log record stands for, the reconciliation of records by commit generation, the
  analysis and redo phases, the incremental variant and the rebuild from archived
  segments.  A log file is its bytes, and a file that cannot be opened is
  \<open>None\<close>; logging and timing are left out.

  The lemmas show that reconciliation is a stable sort of exactly the retained
  operations, that it degenerates to in-order replay for logs without rank
  markers, that redo delivers the operations of closed transactions and of no
  other, that the incremental variant delivers the same sequence and always
  finishes, and where the archive rebuild stops.
\<close>

datatype recovered_operation =
    RInsert lsn term_bytes "byte list option"
  | RRemove lsn term_bytes
  | RIncrement lsn term_bytes i64 "i64 option"
  | RUpsert lsn term_bytes "byte list"
  | RCompareAndSwap lsn term_bytes "byte list" bool

fun op_lsn :: "recovered_operation \<Rightarrow> lsn" where
  "op_lsn (RInsert lsn _ _) = lsn"
| "op_lsn (RRemove lsn _) = lsn"
| "op_lsn (RIncrement lsn _ _ _) = lsn"
| "op_lsn (RUpsert lsn _ _) = lsn"
| "op_lsn (RCompareAndSwap lsn _ _ _) = lsn"

fun op_term :: "recovered_operation \<Rightarrow> term_bytes" where
  "op_term (RInsert _ t _) = t"
| "op_term (RRemove _ t) = t"
| "op_term (RIncrement _ t _ _) = t"
| "op_term (RUpsert _ t _) = t"
| "op_term (RCompareAndSwap _ t _ _) = t"

fun recovered_operations_from_record :: "lsn \<Rightarrow> wal_record \<Rightarrow> recovered_operation list" where
  "recovered_operations_from_record lsn (Insert t v) = [RInsert lsn t v]"
| "recovered_operations_from_record lsn (Remove t) = [RRemove lsn t]"
| "recovered_operations_from_record lsn (Increment t delta result) = [RIncrement lsn t delta (Some result)]"
| "recovered_operations_from_record lsn (Upsert t v) = [RUpsert lsn t v]"
| "recovered_operations_from_record lsn (CompareAndSwap t _ new_value success) =
     (if success then [RCompareAndSwap lsn t new_value success] else [])"
| "recovered_operations_from_record lsn (BatchInsert entries) = map (\<lambda>(t, v). RInsert lsn t v) entries"
| "recovered_operations_from_record lsn (BatchIncrement entries) =
     map (\<lambda>(t, delta). RIncrement lsn t delta None) entries"
| "recovered_operations_from_record lsn (BeginTx _) = []"
| "recovered_operations_from_record lsn (CommitTx _) = []"
| "recovered_operations_from_record lsn (AbortTx _) = []"
| "recovered_operations_from_record lsn (Checkpoint _ _) = []"
| "recovered_operations_from_record lsn (VersionUpdate _ _ _ _) = []"
| "recovered_operations_from_record lsn (VersionDurable _ _) = []"
| "recovered_operations_from_record lsn (VersionGc _) = []"
| "recovered_operations_from_record lsn (CommitRank _ _ _) = []"

subsection \<open>Reconciliation\<close>

text \<open>The rank map of pass 1; a later marker for the same record replaces an
  earlier one.\<close>

fun rank_of_marker :: "wal_record \<Rightarrow> (lsn \<rightharpoonup> u64) \<Rightarrow> (lsn \<rightharpoonup> u64)" where
  "rank_of_marker (CommitRank data_lsn _ generation) rank = rank(data_lsn \<mapsto> generation)"
| "rank_of_marker _ rank = rank"

definition rank_map :: "(lsn \<times> wal_record) list \<Rightarrow> lsn \<rightharpoonup> u64" where
  "rank_map recovered_ops = fold (\<lambda>(_, r) rank. rank_of_marker r rank) recovered_ops Map.empty"

text \<open>The generation a record is replayed at, \<open>None\<close> when it is skipped.\<close>

definition stamp_of ::
    "(lsn \<rightharpoonup> u64) \<Rightarrow> bool \<Rightarrow> lsn \<Rightarrow> (lsn \<Rightarrow> rank_regime) \<Rightarrow> lsn \<Rightarrow> u64 option" where
  "stamp_of rank loaded_from_disk checkpoint_lsn regime_of lsn =
     (if loaded_from_disk \<and> 0 < checkpoint_lsn \<and> lsn \<le> checkpoint_lsn then None
      else case rank lsn of
             Some commit_seq \<Rightarrow> Some commit_seq
           | None \<Rightarrow> (case regime_of lsn of Owned \<Rightarrow> Some lsn | Overlay \<Rightarrow> None))"

definition stamp_record ::
    "(lsn \<rightharpoonup> u64) \<Rightarrow> bool \<Rightarrow> lsn \<Rightarrow> (lsn \<Rightarrow> rank_regime) \<Rightarrow> lsn \<times> wal_record
     \<Rightarrow> (u64 \<times> lsn \<times> recovered_operation) list" where
  "stamp_record rank loaded_from_disk checkpoint_lsn regime_of = (\<lambda>(lsn, r).
     case stamp_of rank loaded_from_disk checkpoint_lsn regime_of lsn of
       None \<Rightarrow> []
     | Some g \<Rightarrow> map (\<lambda>op. (g, lsn, op)) (recovered_operations_from_record lsn r))"

definition reconcile_lww_with_regime ::
    "(lsn \<times> wal_record) list \<Rightarrow> bool \<Rightarrow> lsn \<Rightarrow> (lsn \<Rightarrow> rank_regime) \<Rightarrow> recovered_operation list" where
  "reconcile_lww_with_regime recovered_ops loaded_from_disk checkpoint_lsn regime_of =
     (let rank = rank_map recovered_ops;
          stamped = concat (map (stamp_record rank loaded_from_disk checkpoint_lsn regime_of) recovered_ops)
      in map (snd \<circ> snd) (sort_key (\<lambda>(g, lsn, _). (g, lsn)) stamped))"

definition reconcile_lww ::
    "(lsn \<times> wal_record) list \<Rightarrow> bool \<Rightarrow> lsn \<Rightarrow> rank_regime \<Rightarrow> recovered_operation list" where
  "reconcile_lww recovered_ops loaded_from_disk checkpoint_lsn rank_regime =
     reconcile_lww_with_regime recovered_ops loaded_from_disk checkpoint_lsn (\<lambda>_. rank_regime)"

subsection \<open>Log files\<close>

text \<open>The log as recovery reads it: the records of the trusted prefix and what ended
  it.\<close>

type_synonym log_scan = "(lsn \<times> wal_record) list \<times> read_end"

text \<open>A segment is the content of its file, or \<open>None\<close> when it cannot be opened.\<close>

type_synonym segment = "byte list option"

definition read_header :: "segment \<Rightarrow> wal_header option" where
  "read_header seg =
     (case seg of
        None \<Rightarrow> None
      | Some bytes \<Rightarrow>
          if length bytes < 64 then None
          else (case wal_header_from_bytes (take 64 bytes) of Inl _ \<Rightarrow> None | Inr h \<Rightarrow> Some h))"

definition segment_scan :: "byte list \<Rightarrow> log_scan" where
  "segment_scan bytes = read_records (drop 64 bytes)"

subsection \<open>Analysis and redo\<close>

datatype transaction_state = InProgress | Committed | Aborted

record recovery_stats =
  records_scanned :: u64
  valid_records :: u64
  corrupted_records :: u64
  committed_transactions :: u64
  aborted_transactions :: u64
  incomplete_transactions :: nat
  insert_operations :: u64
  remove_operations :: u64
  stats_checkpoint_lsn :: "lsn option"

definition stats_default :: recovery_stats where
  "stats_default = \<lparr> records_scanned = 0, valid_records = 0, corrupted_records = 0,
     committed_transactions = 0, aborted_transactions = 0, incomplete_transactions = 0,
     insert_operations = 0, remove_operations = 0, stats_checkpoint_lsn = None \<rparr>"

type_synonym analysis_state = "lsn option \<times> (u64 \<rightharpoonup> transaction_state) \<times> recovery_stats"

fun analysis_record :: "wal_record \<Rightarrow> analysis_state \<Rightarrow> analysis_state" where
  "analysis_record (Checkpoint cp_lsn _) (cp, txs, stats) = (Some cp_lsn, txs, stats)"
| "analysis_record (BeginTx tx_id) (cp, txs, stats) = (cp, txs(tx_id \<mapsto> InProgress), stats)"
| "analysis_record (CommitTx tx_id) (cp, txs, stats) =
     (case txs tx_id of
        None \<Rightarrow> (cp, txs, stats)
      | Some _ \<Rightarrow> (cp, txs(tx_id \<mapsto> Committed),
          stats\<lparr> committed_transactions := committed_transactions stats + 1 \<rparr>))"
| "analysis_record (AbortTx tx_id) (cp, txs, stats) =
     (case txs tx_id of
        None \<Rightarrow> (cp, txs, stats)
      | Some _ \<Rightarrow> (cp, txs(tx_id \<mapsto> Aborted),
          stats\<lparr> aborted_transactions := aborted_transactions stats + 1 \<rparr>))"
| "analysis_record _ st = st"

definition analysis_step :: "lsn \<times> wal_record \<Rightarrow> analysis_state \<Rightarrow> analysis_state" where
  "analysis_step = (\<lambda>(_, r) (cp, txs, stats).
     analysis_record r (cp, txs, stats\<lparr> records_scanned := records_scanned stats + 1,
       valid_records := valid_records stats + 1 \<rparr>))"

definition analysis_phase :: "log_scan \<Rightarrow> recovery_stats \<Rightarrow> analysis_state" where
  "analysis_phase = (\<lambda>(rs, e) stats0.
     let (cp, txs, stats) = fold analysis_step rs (None, Map.empty, stats0);
         stats = (case e of
                    EndOfLog \<Rightarrow> stats
                  | ReadError _ \<Rightarrow> stats\<lparr> records_scanned := records_scanned stats + 1,
                      corrupted_records := corrupted_records stats + 1 \<rparr>)
     in (cp, txs, stats\<lparr> incomplete_transactions := card {t. txs t = Some InProgress} \<rparr>))"

record redo_state =
  redo_operations :: "recovered_operation list"
  redo_next_lsn :: lsn
  redo_current_tx :: "u64 option"
  redo_pending :: "u64 \<rightharpoonup> recovered_operation list"

definition redo_init :: redo_state where
  "redo_init = \<lparr> redo_operations = [], redo_next_lsn = 1, redo_current_tx = None,
     redo_pending = Map.empty \<rparr>"

definition pending_of :: "(u64 \<rightharpoonup> recovered_operation list) \<Rightarrow> u64 \<Rightarrow> recovered_operation list" where
  "pending_of m tx = (case m tx of None \<Rightarrow> [] | Some ops \<Rightarrow> ops)"

definition redo_data :: "lsn \<Rightarrow> wal_record \<Rightarrow> redo_state \<Rightarrow> redo_state" where
  "redo_data lsn r st =
     (let ops = recovered_operations_from_record lsn r in
      case redo_current_tx st of
        Some tx_id \<Rightarrow>
          st\<lparr> redo_pending := (redo_pending st)(tx_id \<mapsto> pending_of (redo_pending st) tx_id @ ops) \<rparr>
      | None \<Rightarrow> st\<lparr> redo_operations := redo_operations st @ ops \<rparr>)"

fun redo_record :: "lsn \<Rightarrow> wal_record \<Rightarrow> redo_state \<Rightarrow> redo_state" where
  "redo_record lsn (BeginTx tx_id) st =
     st\<lparr> redo_current_tx := Some tx_id,
        redo_pending := (redo_pending st)(tx_id \<mapsto> pending_of (redo_pending st) tx_id) \<rparr>"
| "redo_record lsn (CommitTx tx_id) st =
     st\<lparr> redo_operations := redo_operations st @ pending_of (redo_pending st) tx_id,
        redo_pending := (redo_pending st)(tx_id := None),
        redo_current_tx := (if redo_current_tx st = Some tx_id then None else redo_current_tx st) \<rparr>"
| "redo_record lsn (AbortTx tx_id) st =
     st\<lparr> redo_pending := (redo_pending st)(tx_id := None),
        redo_current_tx := (if redo_current_tx st = Some tx_id then None else redo_current_tx st) \<rparr>"
| "redo_record lsn r st = redo_data lsn r st"

definition redo_step :: "lsn \<times> wal_record \<Rightarrow> redo_state \<Rightarrow> redo_state" where
  "redo_step = (\<lambda>(lsn, r) st. redo_record lsn r (st\<lparr> redo_next_lsn := lsn + 1 \<rparr>))"

fun count_operation :: "recovered_operation \<Rightarrow> recovery_stats \<Rightarrow> recovery_stats" where
  "count_operation (RRemove _ _) stats = stats\<lparr> remove_operations := remove_operations stats + 1 \<rparr>"
| "count_operation _ stats = stats\<lparr> insert_operations := insert_operations stats + 1 \<rparr>"

definition redo_phase :: "log_scan \<Rightarrow> recovery_stats \<Rightarrow> recovered_operation list \<times> lsn \<times> recovery_stats" where
  "redo_phase = (\<lambda>(rs, e) stats.
     let st = fold redo_step rs redo_init
     in (redo_operations st, redo_next_lsn st, fold count_operation (redo_operations st) stats))"

definition recover :: "segment \<Rightarrow> recovered_operation list \<times> lsn \<times> recovery_stats" where
  "recover wal =
     (case wal of
        None \<Rightarrow> ([], 1, stats_default)
      | Some bytes \<Rightarrow>
          (let log = segment_scan bytes;
               (cp, txs, stats) = analysis_phase log stats_default
           in redo_phase log (stats\<lparr> stats_checkpoint_lsn := cp \<rparr>)))"

definition needs_recovery :: "segment \<Rightarrow> bool" where
  "needs_recovery wal =
     (case wal of
        None \<Rightarrow> False
      | Some bytes \<Rightarrow> (case fst (next_record (drop 64 bytes)) of Some (Inr _) \<Rightarrow> True | _ \<Rightarrow> False))"

subsection \<open>Incremental recovery\<close>

record incremental_recovery =
  ir_reader :: "byte list"
  ir_current_tx :: "u64 option"
  ir_pending_ops :: "recovered_operation list"
  ir_next_lsn :: lsn
  ir_stopped :: bool

definition incremental_new :: "byte list \<Rightarrow> incremental_recovery" where
  "incremental_new bytes = \<lparr> ir_reader = drop 64 bytes, ir_current_tx = None, ir_pending_ops = [],
     ir_next_lsn = 1, ir_stopped = False \<rparr>"

definition process_data ::
    "lsn \<Rightarrow> wal_record \<Rightarrow> incremental_recovery \<Rightarrow> recovered_operation list option \<times> incremental_recovery" where
  "process_data lsn r ir =
     (let ops = recovered_operations_from_record lsn r in
      if ir_current_tx ir \<noteq> None then (None, ir\<lparr> ir_pending_ops := ir_pending_ops ir @ ops \<rparr>)
      else (if ops = [] then None else Some ops, ir))"

fun process_record ::
    "lsn \<Rightarrow> wal_record \<Rightarrow> incremental_recovery \<Rightarrow> recovered_operation list option \<times> incremental_recovery" where
  "process_record lsn (BeginTx tx_id) ir =
     (None, ir\<lparr> ir_current_tx := Some tx_id, ir_pending_ops := [] \<rparr>)"
| "process_record lsn (CommitTx tx_id) ir =
     (if ir_current_tx ir = Some tx_id
      then (Some (ir_pending_ops ir), ir\<lparr> ir_pending_ops := [], ir_current_tx := None \<rparr>)
      else (None, ir))"
| "process_record lsn (AbortTx tx_id) ir =
     (None, if ir_current_tx ir = Some tx_id then ir\<lparr> ir_pending_ops := [], ir_current_tx := None \<rparr> else ir)"
| "process_record lsn r ir = process_data lsn r ir"

lemma next_record_shorter:
  "Some (Inr r) = fst (next_record reader) \<Longrightarrow> length (snd (next_record reader)) < length reader"
  by (auto simp: next_record_def Let_def RECORD_HEADER_SIZE_def split: if_splits sum.splits)

lemma process_record_reader [simp]: "ir_reader (snd (process_record lsn r ir)) = ir_reader ir"
  by (cases r) (simp_all add: process_data_def Let_def)

function next_batch_loop ::
    "nat \<Rightarrow> recovered_operation list \<Rightarrow> incremental_recovery
     \<Rightarrow> recovered_operation list \<times> incremental_recovery" where
  "next_batch_loop max_ops batch ir =
     (if max_ops \<le> length batch then (batch, ir)
      else case next_record (ir_reader ir) of
             (Some (Inr (lsn, r)), reader) \<Rightarrow>
               (let (ops, ir') = process_record lsn r (ir\<lparr> ir_reader := reader, ir_next_lsn := lsn + 1 \<rparr>)
                in next_batch_loop max_ops (batch @ (case ops of None \<Rightarrow> [] | Some xs \<Rightarrow> xs)) ir')
           | (Some (Inl _), reader) \<Rightarrow> (batch, ir\<lparr> ir_reader := reader, ir_stopped := True \<rparr>)
           | (None, reader) \<Rightarrow> (batch, ir\<lparr> ir_reader := reader \<rparr>))"
  by pat_completeness auto
termination
  by (relation "measure (\<lambda>(_, _, ir). length (ir_reader ir))")
    (auto simp: prod_eq_iff intro: next_record_shorter)

declare next_batch_loop.simps [simp del]

definition next_batch ::
    "nat \<Rightarrow> incremental_recovery \<Rightarrow> recovered_operation list option \<times> incremental_recovery" where
  "next_batch max_ops ir =
     (if ir_stopped ir then (None, ir)
      else let (batch, ir') = next_batch_loop max_ops [] ir
           in (if batch = [] then None else Some batch, ir'))"

lemma next_record_le: "length (snd (next_record reader)) \<le> length reader"
  by (auto simp: next_record_def Let_def split: if_splits sum.splits)

lemma next_batch_loop_reader:
  "length (ir_reader (snd (next_batch_loop max_ops batch ir))) \<le> length (ir_reader ir)
   \<and> (fst (next_batch_loop max_ops batch ir) \<noteq> batch \<longrightarrow>
        length (ir_reader (snd (next_batch_loop max_ops batch ir))) < length (ir_reader ir))"
proof (induction max_ops batch ir rule: next_batch_loop.induct)
  case (1 max_ops batch ir)
  obtain res reader where nr: "next_record (ir_reader ir) = (res, reader)" by force
  have le: "length reader \<le> length (ir_reader ir)"
    using next_record_le [of "ir_reader ir"] nr by simp
  show ?case
  proof (cases "max_ops \<le> length batch")
    case True
    then show ?thesis by (subst (1 2 3) next_batch_loop.simps) simp
  next
    case False
    note unfold = next_batch_loop.simps [of max_ops batch ir] nr
    consider (none) "res = None" | (err) e where "res = Some (Inl e)" | (ok) lsn r where "res = Some (Inr (lsn, r))"
      by (metis old.sum.exhaust option.exhaust surj_pair)
    then show ?thesis
    proof cases
      case ok
      obtain ops ir' where p: "process_record lsn r (ir\<lparr> ir_reader := reader, ir_next_lsn := lsn + 1 \<rparr>) = (ops, ir')"
        by force
      have "ir_reader ir' = reader"
        using process_record_reader [of lsn r "ir\<lparr> ir_reader := reader, ir_next_lsn := lsn + 1 \<rparr>"] p by simp
      moreover have "length reader < length (ir_reader ir)"
        using next_record_shorter [of "(lsn, r)" "ir_reader ir"] nr ok by simp
      ultimately show ?thesis
        using 1 [OF False nr [symmetric] ok refl refl refl p [symmetric]] False ok p
        unfolding unfold by (simp add: Let_def) 
    qed (use False le in \<open>simp_all add: unfold\<close>)
  qed
qed

lemma next_batch_shorter:
  "(Some batch, ir') = next_batch max_ops ir \<Longrightarrow> length (ir_reader ir') < length (ir_reader ir)"
  using next_batch_loop_reader [of max_ops "[]" ir]
  by (auto simp: next_batch_def split: if_splits prod.splits)

text \<open>Calling \<open>next_batch\<close> until it reports completion.\<close>

function drain_batches :: "nat \<Rightarrow> incremental_recovery \<Rightarrow> recovered_operation list \<times> incremental_recovery" where
  "drain_batches max_ops ir =
     (case next_batch max_ops ir of
        (None, ir') \<Rightarrow> ([], ir')
      | (Some batch, ir') \<Rightarrow>
          (let (rest, ir'') = drain_batches max_ops ir' in (batch @ rest, ir'')))"
  by pat_completeness auto
termination
  by (relation "measure (\<lambda>(_, ir). length (ir_reader ir))") (auto dest: next_batch_shorter)

declare drain_batches.simps [simp del]

subsection \<open>Applying recovered operations\<close>

text \<open>\<open>insert_fn\<close> acts on a state and reports success or an error.\<close>

fun apply_to_trie ::
    "(term_bytes \<Rightarrow> byte list option \<Rightarrow> 's \<Rightarrow> (string + unit) \<times> 's) \<Rightarrow> recovered_operation list
     \<Rightarrow> nat \<Rightarrow> 's \<Rightarrow> (string + nat) \<times> 's" where
  "apply_to_trie insert_fn [] count s = (Ok count, s)"
| "apply_to_trie insert_fn (op # ops) count s =
     (let call = (\<lambda>t v. case insert_fn t v s of
                     (Inl e, s') \<Rightarrow> (Err e, s')
                   | (Inr _, s') \<Rightarrow> apply_to_trie insert_fn ops (count + 1) s')
      in case op of
           RInsert _ t v \<Rightarrow> call t v
         | RRemove _ t \<Rightarrow> call t None
         | RIncrement _ t _ result \<Rightarrow>
             call t (Some (u64_to_le_bytes (case result of Some v \<Rightarrow> v | None \<Rightarrow> 0)))
         | RUpsert _ t v \<Rightarrow> call t (Some v)
         | RCompareAndSwap _ t new_value success \<Rightarrow>
             if success then call t (Some new_value) else apply_to_trie insert_fn ops count s)"

text \<open>The first failed application ends the whole rebuild.\<close>

fun apply_ops ::
    "(recovered_operation \<Rightarrow> 's \<Rightarrow> (string + unit) \<times> 's) \<Rightarrow> recovered_operation list
     \<Rightarrow> nat \<Rightarrow> 's \<Rightarrow> bool \<times> nat \<times> 's" where
  "apply_ops apply_fn [] terms s = (True, terms, s)"
| "apply_ops apply_fn (op # ops) terms s =
     (case apply_fn op s of
        (Inl _, s') \<Rightarrow> (False, terms, s')
      | (Inr _, s') \<Rightarrow> apply_ops apply_fn ops (terms + 1) s')"

fun rebuild_records ::
    "(recovered_operation \<Rightarrow> 's \<Rightarrow> (string + unit) \<times> 's) \<Rightarrow> (lsn \<times> wal_record) list
     \<Rightarrow> nat \<times> nat \<times> 's \<Rightarrow> bool \<times> nat \<times> nat \<times> 's" where
  "rebuild_records apply_fn [] (records, terms, s) = (True, records, terms, s)"
| "rebuild_records apply_fn ((lsn, r) # rs) (records, terms, s) =
     (case apply_ops apply_fn (recovered_operations_from_record lsn r) terms s of
        (False, terms', s') \<Rightarrow> (False, records + 1, terms', s')
      | (True, terms', s') \<Rightarrow> rebuild_records apply_fn rs (records + 1, terms', s'))"

fun rebuild_segments ::
    "(recovered_operation \<Rightarrow> 's \<Rightarrow> (string + unit) \<times> 's) \<Rightarrow> segment list
     \<Rightarrow> nat \<times> nat \<times> 's \<Rightarrow> nat \<times> nat \<times> 's" where
  "rebuild_segments apply_fn [] st = st"
| "rebuild_segments apply_fn (None # segs) st = rebuild_segments apply_fn segs st"
| "rebuild_segments apply_fn (Some bytes # segs) st =
     (case segment_scan bytes of
        (rs, e) \<Rightarrow>
          (case rebuild_records apply_fn rs st of
             (False, st') \<Rightarrow> st'
           | (True, st') \<Rightarrow>
               (case e of ReadError _ \<Rightarrow> st' | EndOfLog \<Rightarrow> rebuild_segments apply_fn segs st')))"

definition rebuild_from_wal_segments ::
    "segment list \<Rightarrow> (recovered_operation \<Rightarrow> 's \<Rightarrow> (string + unit) \<times> 's) \<Rightarrow> 's \<Rightarrow> nat \<times> nat \<times> 's" where
  "rebuild_from_wal_segments segments apply_fn s = rebuild_segments apply_fn segments (0, 0, s)"

definition segment_regime :: "segment \<Rightarrow> rank_regime" where
  "segment_regime seg = (case read_header seg of None \<Rightarrow> Owned | Some h \<Rightarrow> regime h)"

fun collect_segments ::
    "segment list \<Rightarrow> (lsn \<times> wal_record) list \<times> (lsn \<rightharpoonup> rank_regime)
     \<Rightarrow> (lsn \<times> wal_record) list \<times> (lsn \<rightharpoonup> rank_regime)" where
  "collect_segments [] acc = acc"
| "collect_segments (None # segs) acc = collect_segments segs acc"
| "collect_segments (Some bytes # segs) (all_records, regime_by_lsn) =
     (case segment_scan bytes of
        (rs, e) \<Rightarrow>
          let acc = (all_records @ rs,
                     fold (\<lambda>(lsn, _) m. m(lsn \<mapsto> segment_regime (Some bytes))) rs regime_by_lsn)
          in case e of ReadError _ \<Rightarrow> acc | EndOfLog \<Rightarrow> collect_segments segs acc)"

definition rebuild_from_wal_segments_regime_aware ::
    "segment list \<Rightarrow> (recovered_operation \<Rightarrow> 's \<Rightarrow> (string + unit) \<times> 's) \<Rightarrow> 's
     \<Rightarrow> string + nat \<times> nat \<times> 's" where
  "rebuild_from_wal_segments_regime_aware segments apply_fn s =
     (if \<not> (\<exists>seg\<in>set segments. segment_regime seg = Overlay)
      then Ok (rebuild_from_wal_segments segments apply_fn s)
      else
        let (all_records, regime_by_lsn) = collect_segments segments ([], Map.empty) in
        if all_records \<noteq> [] \<and> 1 < Min (set (map fst all_records))
        then Err ''archive rebuild has a prefix gap''
        else
          let winners = reconcile_lww_with_regime all_records False 0
                (\<lambda>lsn. case regime_by_lsn lsn of Some r \<Rightarrow> r | None \<Rightarrow> Owned);
              (_, terms, s') = apply_ops apply_fn winners 0 s
          in Ok (length all_records, terms, s'))"

subsection \<open>Reconciliation\<close>

lemma sort_key_sorted: "sorted (map f xs) \<Longrightarrow> sort_key f xs = xs"
  by (induction xs) (auto simp: insort_is_Cons)

lemma rank_of_marker_other: "\<forall>d t g. r \<noteq> CommitRank d t g \<Longrightarrow> rank_of_marker r m = m"
  by (cases r) auto

lemma rank_map_no_markers:
  assumes "\<forall>(lsn, r)\<in>set rs. \<forall>d t g. r \<noteq> CommitRank d t g"
  shows "rank_map rs = Map.empty"
proof -
  have "fold (\<lambda>(_, r) rank. rank_of_marker r rank) rs m = m" for m
    using assms by (induction rs arbitrary: m) (auto simp: rank_of_marker_other)
  then show ?thesis
    by (simp add: rank_map_def)
qed

lemma stamp_record_unranked:
  "stamp_record Map.empty loaded cp regime_of (lsn, r) =
     (if loaded \<and> 0 < cp \<and> lsn \<le> cp \<or> regime_of lsn = Overlay then []
      else map (\<lambda>op. (lsn, lsn, op)) (recovered_operations_from_record lsn r))"
  by (cases "regime_of lsn") (simp_all add: stamp_record_def stamp_of_def)

lemma sorted_stamped:
  assumes "sorted (map fst rs)"
  shows "sorted (map (\<lambda>(g, lsn, _). (g, lsn)) (concat (map (stamp_record Map.empty loaded cp regime_of) rs)))"
  using assms
proof (induction rs)
  case (Cons e rs)
  obtain lsn r where e: "e = (lsn, r)" by force
  have "map ((\<lambda>(g, lsn, _). (g, lsn)) \<circ> (\<lambda>op. (lsn, lsn, op))) ops = replicate (length ops) (lsn, lsn)"
    for ops :: "recovered_operation list"
    by (induction ops) auto
  moreover have "\<forall>k\<in>set (map (\<lambda>(g, lsn, _). (g, lsn)) (concat (map (stamp_record Map.empty loaded cp regime_of) rs))).
      (lsn, lsn) \<le> k"
    using Cons.prems by (fastforce simp: e stamp_record_unranked less_eq_prod_def le_less split: if_splits)
  ultimately show ?case
    using Cons by (auto simp: e stamp_record_unranked sorted_append)
qed simp

text \<open>
  C30: What becomes of a log without rank markers whose records are in LSN order,
  whatever the regime of each record's segment.  The operations of the records of
  owned segments are replayed in log order, the entries of batch records
  included; every record of an overlay segment is dropped.  When an image was
  loaded and its checkpoint is not zero, the records up to the checkpoint are
  skipped as well.
\<close>

theorem rankless_log_replays_in_order:
  assumes "sorted (map fst rs)" "\<forall>(lsn, r)\<in>set rs. \<forall>d t g. r \<noteq> CommitRank d t g"
  shows "reconcile_lww_with_regime rs loaded cp regime_of =
    concat (map (\<lambda>(lsn, r). recovered_operations_from_record lsn r)
      (filter (\<lambda>(lsn, _). regime_of lsn = Owned \<and> \<not> (loaded \<and> 0 < cp \<and> lsn \<le> cp)) rs))"
proof -
  have "map (snd \<circ> snd) (concat (map (stamp_record Map.empty loaded cp regime_of) rs)) =
      concat (map (\<lambda>(lsn, r). recovered_operations_from_record lsn r)
        (filter (\<lambda>(lsn, _). regime_of lsn = Owned \<and> \<not> (loaded \<and> 0 < cp \<and> lsn \<le> cp)) rs))"
    by (induction rs) (auto simp: stamp_record_unranked comp_def, (metis rank_regime.exhaust)+)
  then show ?thesis
    using sort_key_sorted [OF sorted_stamped [OF assms(1)], of loaded cp regime_of]
    by (simp add: reconcile_lww_with_regime_def Let_def rank_map_no_markers [OF assms(2)])
qed

theorem rankless_log_replays_in_order_witness:
  "reconcile_lww_with_regime
      [(1, Insert [7] None), (2, BatchIncrement [([8], 1), ([8], 2)]), (3, Remove [7]), (4, Insert [9] None)]
      True 1 (\<lambda>lsn. if lsn < 4 then Owned else Overlay)
   = [RIncrement 2 [8] 1 None, RIncrement 2 [8] 2 None, RRemove 3 [7]]"
  by (subst rankless_log_replays_in_order) (auto simp: word_le_nat_alt word_less_nat_alt)

subsection \<open>Transactions\<close>

text \<open>Logs as the transaction API writes them: records outside transactions and
  closed transactions one after the other.\<close>

fun is_control :: "wal_record \<Rightarrow> bool" where
  "is_control (BeginTx _) = True"
| "is_control (CommitTx _) = True"
| "is_control (AbortTx _) = True"
| "is_control _ = False"

datatype log_unit =
    Loose "lsn \<times> wal_record"
  | Closed lsn u64 "(lsn \<times> wal_record) list" lsn bool

fun unit_records :: "log_unit \<Rightarrow> (lsn \<times> wal_record) list" where
  "unit_records (Loose lr) = [lr]"
| "unit_records (Closed b tx body e committed) =
     (b, BeginTx tx) # body @ [(e, if committed then CommitTx tx else AbortTx tx)]"

fun unit_ok :: "log_unit \<Rightarrow> bool" where
  "unit_ok (Loose lr) = (\<not> is_control (snd lr))"
| "unit_ok (Closed _ _ body _ _) = (\<forall>lr\<in>set body. \<not> is_control (snd lr))"

definition record_ops :: "(lsn \<times> wal_record) list \<Rightarrow> recovered_operation list" where
  "record_ops rs = concat (map (\<lambda>(lsn, r). recovered_operations_from_record lsn r) rs)"

fun unit_ops :: "log_unit \<Rightarrow> recovered_operation list" where
  "unit_ops (Loose lr) = record_ops [lr]"
| "unit_ops (Closed _ _ body _ committed) = (if committed then record_ops body else [])"

abbreviation units_records :: "log_unit list \<Rightarrow> (lsn \<times> wal_record) list" where
  "units_records us \<equiv> concat (map unit_records us)"

abbreviation units_ops :: "log_unit list \<Rightarrow> recovered_operation list" where
  "units_ops us \<equiv> concat (map unit_ops us)"

lemma record_ops_simps [simp]:
  "record_ops [] = []"
  "record_ops ((lsn, r) # rs) = recovered_operations_from_record lsn r @ record_ops rs"
  "record_ops (rs @ rs') = record_ops rs @ record_ops rs'"
  by (simp_all add: record_ops_def)

lemma redo_record_data: "\<not> is_control r \<Longrightarrow> redo_record lsn r st = redo_data lsn r st"
  by (cases r) auto

lemma redo_step_Pair: "redo_step (lsn, r) st = redo_record lsn r (st\<lparr> redo_next_lsn := lsn + 1 \<rparr>)"
  by (simp add: redo_step_def)

lemma redo_body:
  assumes "\<forall>lr\<in>set body. \<not> is_control (snd lr)" "redo_current_tx st = Some tx" "redo_pending st tx = Some ops"
  shows "redo_current_tx (fold redo_step body st) = Some tx
    \<and> redo_pending (fold redo_step body st) = (redo_pending st)(tx \<mapsto> ops @ record_ops body)
    \<and> redo_operations (fold redo_step body st) = redo_operations st"
  using assms
proof (induction body arbitrary: st ops)
  case (Cons lr body)
  obtain lsn r where lr: "lr = (lsn, r)" by force
  have step: "redo_step lr st = (st\<lparr> redo_next_lsn := lsn + 1 \<rparr>)\<lparr> redo_pending :=
      (redo_pending st)(tx \<mapsto> ops @ recovered_operations_from_record lsn r) \<rparr>"
    using Cons.prems by (simp add: lr redo_step_Pair redo_record_data redo_data_def pending_of_def Let_def)
  have "redo_pending (redo_step lr st) = (redo_pending st)(tx \<mapsto> ops @ recovered_operations_from_record lsn r)"
    "redo_current_tx (redo_step lr st) = Some tx" "redo_operations (redo_step lr st) = redo_operations st"
    using Cons.prems by (simp_all add: step fun_eq_iff)
  then show ?case
    using Cons.IH [of "redo_step lr st" "ops @ recovered_operations_from_record lsn r"] Cons.prems(1)
    by (simp add: lr fun_eq_iff)
qed (simp add: fun_upd_idem)

lemma redo_unit:
  assumes "unit_ok u" "redo_current_tx st = None" "redo_pending st = Map.empty"
  shows "redo_current_tx (fold redo_step (unit_records u) st) = None
    \<and> redo_pending (fold redo_step (unit_records u) st) = Map.empty
    \<and> redo_operations (fold redo_step (unit_records u) st) = redo_operations st @ unit_ops u"
proof (cases u)
  case (Loose lr)
  then show ?thesis
    using assms by (cases lr) (simp add: redo_step_def redo_record_data redo_data_def Let_def)
next
  case (Closed b tx body e committed)
  define st1 where "st1 = redo_step (b, BeginTx tx) st"
  have "redo_current_tx st1 = Some tx" "redo_pending st1 = [tx \<mapsto> []]" "redo_operations st1 = redo_operations st"
    using assms by (simp_all add: st1_def redo_step_def pending_of_def)
  then have body: "redo_current_tx (fold redo_step body st1) = Some tx"
      "redo_pending (fold redo_step body st1) = [tx \<mapsto> record_ops body]"
      "redo_operations (fold redo_step body st1) = redo_operations st"
    using redo_body [of body st1 tx "[]"] assms(1) Closed by auto
  have all: "fold redo_step (unit_records u) st =
      redo_step (e, if committed then CommitTx tx else AbortTx tx) (fold redo_step body st1)"
    by (simp add: Closed st1_def)
  show ?thesis
    unfolding all by (simp add: Closed body redo_step_Pair pending_of_def fun_eq_iff)
qed

lemma redo_units:
  assumes "\<forall>u\<in>set us. unit_ok u" "redo_current_tx st = None" "redo_pending st = Map.empty"
  shows "redo_current_tx (fold redo_step (units_records us) st) = None
    \<and> redo_pending (fold redo_step (units_records us) st) = Map.empty
    \<and> redo_operations (fold redo_step (units_records us) st) = redo_operations st @ units_ops us"
  using assms
proof (induction us arbitrary: st)
  case (Cons u us)
  then show ?case
    using redo_unit [of u st] Cons.IH [of "fold redo_step (unit_records u) st"] by simp
qed simp

text \<open>What a crash can leave after the last complete unit.\<close>

definition open_tail :: "(lsn \<times> wal_record) list \<Rightarrow> bool" where
  "open_tail t \<longleftrightarrow> t = [] \<or>
     (\<exists>b tx body. t = (b, BeginTx tx) # body \<and> (\<forall>lr\<in>set body. \<not> is_control (snd lr)))"

lemma redo_open_tail:
  assumes "open_tail t" "redo_current_tx st = None" "redo_pending st = Map.empty"
  shows "redo_operations (fold redo_step t st) = redo_operations st"
proof (cases t)
  case (Cons x body)
  then obtain b tx where t: "t = (b, BeginTx tx) # body" "\<forall>lr\<in>set body. \<not> is_control (snd lr)"
    using assms(1) by (auto simp: open_tail_def)
  define st1 where "st1 = redo_step (b, BeginTx tx) st"
  have "redo_current_tx st1 = Some tx" "redo_pending st1 = [tx \<mapsto> []]" "redo_operations st1 = redo_operations st"
    using assms by (simp_all add: st1_def redo_step_def pending_of_def)
  then show ?thesis
    using redo_body [OF t(2), of st1 tx "[]"] by (simp add: t(1) st1_def)
qed simp

lemma take_units:
  assumes "\<forall>u\<in>set us. unit_ok u"
  shows "\<exists>j t. take m (units_records us) = units_records (take j us) @ t \<and> open_tail t \<and> j \<le> length us
    \<and> (j < length us \<longrightarrow> m < length (units_records (take (Suc j) us)))"
  using assms
proof (induction us arbitrary: m)
  case (Cons u us)
  show ?case
  proof (cases "length (unit_records u) \<le> m")
    case True
    obtain j t where "take (m - length (unit_records u)) (units_records us) = units_records (take j us) @ t"
        "open_tail t" "j \<le> length us"
        "j < length us \<longrightarrow> m - length (unit_records u) < length (units_records (take (Suc j) us))"
      using Cons.IH [of "m - length (unit_records u)"] Cons.prems by auto
    then show ?thesis
      using True by (intro exI [of _ "Suc j"] exI [of _ t]) auto
  next
    case False
    have "open_tail (take m (unit_records u))"
    proof (cases u)
      case (Loose lr)
      then show ?thesis using False by (simp add: open_tail_def)
    next
      case (Closed b tx body e committed)
      then show ?thesis
        using False Cons.prems by (cases m) (auto simp: open_tail_def dest: in_set_takeD)
    qed
    then show ?thesis
      using False by (intro exI [of _ 0] exI [of _ "take m (unit_records u)"]) auto
  qed
qed (auto simp: open_tail_def)

lemma fst_recover: "fst (recover (Some bytes)) = redo_operations (fold redo_step (fst (segment_scan bytes)) redo_init)"
  by (simp add: recover_def redo_phase_def Let_def split: prod.split)

text \<open>
  C27: Recovery is transactional under any crash.  Take a log made of records
  outside transactions and of transactions that were committed or aborted, cut
  its file after an arbitrary number of bytes, and recover: the operations
  delivered are exactly those of some number of leading units, where an aborted
  transaction contributes nothing and a committed one all of its operations in
  order; the first unit not delivered is one whose bytes were cut.
\<close>

theorem crash_recovery_is_transactional:
  assumes "\<forall>u\<in>set us. unit_ok u" "\<forall>lr\<in>set (units_records us). frame_ok lr" "length hdr = 64"
  shows "\<exists>j\<le>length us. fst (recover (Some (hdr @ take n (log_bytes (units_records us))))) = units_ops (take j us)
    \<and> (j < length us \<longrightarrow> n < length (log_bytes (units_records (take (Suc j) us))))"
proof -
  obtain m e where m: "read_records (take n (log_bytes (units_records us))) = (take m (units_records us), e)"
      "m < length (units_records us) \<longrightarrow> n < length (log_bytes (take (Suc m) (units_records us)))"
    using read_records_prefix [OF assms(2), of n] by blast
  obtain j t where j: "take m (units_records us) = units_records (take j us) @ t" "open_tail t" "j \<le> length us"
      "j < length us \<longrightarrow> m < length (units_records (take (Suc j) us))"
    using take_units [OF assms(1)] by blast
  have ok: "\<forall>u\<in>set (take j us). unit_ok u"
    using assms(1) by (auto dest: in_set_takeD)
  have "fst (recover (Some (hdr @ take n (log_bytes (units_records us))))) = units_ops (take j us)"
    using redo_units [OF ok, of redo_init] redo_open_tail [OF j(2)] assms(3) m(1) j(1)
    by (simp add: fst_recover segment_scan_def redo_init_def)
  moreover have "n < length (log_bytes (units_records (take (Suc j) us)))" if "j < length us"
  proof -
    have split: "units_records us = units_records (take (Suc j) us) @ units_records (drop (Suc j) us)"
      by (metis append_take_drop_id concat_append map_append)
    then have "take (Suc m) (units_records us) = take (Suc m) (units_records (take (Suc j) us))"
      using j(4) that by simp
    then have "n < length (log_bytes (take (Suc m) (units_records (take (Suc j) us))))"
      using m(2) j(4) that split by (metis (no_types, lifting) length_append trans_less_add1)
    then show ?thesis
      by (metis append_take_drop_id length_append log_bytes_simps(3) trans_less_add1)
  qed
  ultimately show ?thesis
    using j(3) by blast
qed

theorem crash_recovery_is_transactional_witness:
  "\<exists>j\<le>length [Loose (1, Remove [7]), Closed 2 4 [(3, Insert [8] None)] 4 True].
     fst (recover (Some (replicate 64 0 @ take 60 (log_bytes (units_records
       [Loose (1, Remove [7]), Closed 2 4 [(3, Insert [8] None)] 4 True])))))
     = units_ops (take j [Loose (1, Remove [7]), Closed 2 4 [(3, Insert [8] None)] 4 True])
   \<and> (j < length [Loose (1, Remove [7]), Closed 2 4 [(3, Insert [8] None)] 4 True] \<longrightarrow>
        60 < length (log_bytes (units_records (take (Suc j)
          [Loose (1, Remove [7]), Closed 2 4 [(3, Insert [8] None)] 4 True]))))"
  by (rule crash_recovery_is_transactional)
    (simp_all add: frame_ok_def serialized_size_def RECORD_HEADER_SIZE_def short_def opt_len_def)

subsection \<open>Incremental recovery\<close>

definition ops_of :: "recovered_operation list option \<Rightarrow> recovered_operation list" where
  "ops_of ops = (case ops of None \<Rightarrow> [] | Some xs \<Rightarrow> xs)"

fun run_records :: "incremental_recovery \<Rightarrow> (lsn \<times> wal_record) list \<Rightarrow> recovered_operation list" where
  "run_records ir [] = []"
| "run_records ir ((lsn, r) # rs) =
     (let (ops, ir') = process_record lsn r ir in ops_of ops @ run_records ir' rs)"

definition remaining_ops :: "incremental_recovery \<Rightarrow> recovered_operation list" where
  "remaining_ops ir = (if ir_stopped ir then [] else run_records ir (fst (read_records (ir_reader ir))))"

lemma process_record_reader_lsn:
  "process_record lsn r (ir\<lparr> ir_reader := x, ir_next_lsn := y \<rparr>) =
     map_prod id (\<lambda>ir. ir\<lparr> ir_reader := x, ir_next_lsn := y \<rparr>) (process_record lsn r ir)"
  by (cases r) (simp_all add: process_data_def Let_def)

lemma process_record_stopped [simp]: "ir_stopped (snd (process_record lsn r ir)) = ir_stopped ir"
  by (cases r) (simp_all add: process_data_def Let_def)

lemma run_records_reader_lsn [simp]: "run_records (ir\<lparr> ir_reader := x, ir_next_lsn := y \<rparr>) rs = run_records ir rs"
proof (induction rs arbitrary: ir)
  case (Cons lr rs)
  then show ?case
    by (cases lr) (simp add: process_record_reader_lsn split: prod.split)
qed simp

lemma remaining_ops_step:
  assumes "next_record (ir_reader ir) = (Some (Inr (lsn, r)), reader)" "\<not> ir_stopped ir"
    "process_record lsn r (ir\<lparr> ir_reader := reader, ir_next_lsn := y \<rparr>) = (ops, ir')"
  shows "remaining_ops ir = ops_of ops @ remaining_ops ir' \<and> \<not> ir_stopped ir'"
proof -
  obtain ops0 ir0 where p: "process_record lsn r ir = (ops0, ir0)" by force
  then have eq: "ops = ops0" "ir' = ir0\<lparr> ir_reader := reader, ir_next_lsn := y \<rparr>" "\<not> ir_stopped ir0"
    using assms(2,3) process_record_stopped [of lsn r ir] by (auto simp: process_record_reader_lsn)
  then show ?thesis
    using assms(1,2) p
    by (simp add: remaining_ops_def read_records.simps [of "ir_reader ir"] split: prod.split)
qed

lemma next_batch_loop_remaining:
  "\<not> ir_stopped ir \<Longrightarrow> next_batch_loop max_ops batch ir = (batch', ir') \<Longrightarrow>
   batch' @ remaining_ops ir' = batch @ remaining_ops ir \<and> (length batch' < max_ops \<longrightarrow> remaining_ops ir' = [])"
proof (induction max_ops batch ir rule: next_batch_loop.induct)
  case (1 max_ops batch ir)
  obtain res reader where nr: "next_record (ir_reader ir) = (res, reader)" by force
  show ?case
  proof (cases "max_ops \<le> length batch")
    case True
    then show ?thesis using 1(3) by (auto simp: next_batch_loop.simps [of max_ops batch ir])
  next
    case False
    note loop = 1(3) [unfolded next_batch_loop.simps [of max_ops batch ir] nr]
    consider (none) "res = None" | (err) e where "res = Some (Inl e)" | (ok) lsn r where "res = Some (Inr (lsn, r))"
      by (metis old.sum.exhaust option.exhaust surj_pair)
    then show ?thesis
    proof cases
      case none
      then have "reader = []"
        using nr by (auto simp: next_record_def Let_def split: if_splits sum.splits)
      then show ?thesis
        using loop none False nr by (auto simp: remaining_ops_def read_records.simps [of "ir_reader ir"])
    next
      case err
      then show ?thesis
        using loop False nr by (auto simp: remaining_ops_def read_records.simps [of "ir_reader ir"])
    next
      case ok
      obtain ops ir1 where p: "process_record lsn r (ir\<lparr> ir_reader := reader, ir_next_lsn := lsn + 1 \<rparr>) = (ops, ir1)"
        by force
      have step: "remaining_ops ir = ops_of ops @ remaining_ops ir1" "\<not> ir_stopped ir1"
        using remaining_ops_step [OF _ 1(2) p] nr ok by simp_all
      show ?thesis
        using 1(1) [OF False nr [symmetric] ok refl refl refl p [symmetric]] loop step False ok p
        by (auto simp: ops_of_def)
    qed
  qed
qed

lemma drain_batches_remaining:
  assumes "0 < max_ops"
  shows "fst (drain_batches max_ops ir) = remaining_ops ir"
  using assms
proof (induction max_ops ir rule: drain_batches.induct)
  case (1 max_ops ir)
  obtain res ir' where nb: "next_batch max_ops ir = (res, ir')" by force
  show ?case
  proof (cases "ir_stopped ir")
    case True
    then show ?thesis by (simp add: drain_batches.simps [of _ ir] next_batch_def remaining_ops_def)
  next
    case False
    obtain batch ir1 where loop: "next_batch_loop max_ops [] ir = (batch, ir1)" by force
    have rem: "batch @ remaining_ops ir1 = remaining_ops ir" "length batch < max_ops \<longrightarrow> remaining_ops ir1 = []"
      using next_batch_loop_remaining [OF False loop] by simp_all
    show ?thesis
      using 1 rem False loop nb by (auto simp: drain_batches.simps [of _ ir] next_batch_def split: if_splits prod.split)
  qed
qed

text \<open>A log in which no transaction begins while another one is open.\<close>

fun no_nested_begin :: "u64 option \<Rightarrow> (lsn \<times> wal_record) list \<Rightarrow> bool" where
  "no_nested_begin cur [] = True"
| "no_nested_begin cur ((lsn, BeginTx t) # rs) = (cur = None \<and> no_nested_begin (Some t) rs)"
| "no_nested_begin cur ((lsn, CommitTx t) # rs) = no_nested_begin (if cur = Some t then None else cur) rs"
| "no_nested_begin cur ((lsn, AbortTx t) # rs) = no_nested_begin (if cur = Some t then None else cur) rs"
| "no_nested_begin cur (_ # rs) = no_nested_begin cur rs"

definition same_pending :: "redo_state \<Rightarrow> incremental_recovery \<Rightarrow> bool" where
  "same_pending st ir \<longleftrightarrow> ir_current_tx ir = redo_current_tx st \<and>
     (case redo_current_tx st of
        None \<Rightarrow> (\<forall>t. redo_pending st t = None)
      | Some tx \<Rightarrow> (\<forall>t. redo_pending st t = (if t = tx then Some (ir_pending_ops ir) else None)))"

lemma redo_data_process:
  assumes "same_pending st ir" "process_data lsn r ir = (ops, ir')"
  shows "same_pending (redo_data lsn r st) ir' \<and> redo_operations (redo_data lsn r st) = redo_operations st @ ops_of ops
    \<and> redo_current_tx (redo_data lsn r st) = redo_current_tx st"
  using assms
  by (auto simp: same_pending_def process_data_def redo_data_def Let_def ops_of_def pending_of_def
      split: if_splits option.splits)

lemma redo_run_records:
  assumes "same_pending st ir" "no_nested_begin (redo_current_tx st) rs"
  shows "redo_operations (fold redo_step rs st) = redo_operations st @ run_records ir rs"
  using assms
proof (induction rs arbitrary: st ir)
  case (Cons lr rs)
  obtain lsn r where lr: "lr = (lsn, r)" by force
  obtain ops ir' where p: "process_record lsn r ir = (ops, ir')" by force
  have "same_pending (redo_step lr st) ir' \<and> redo_operations (redo_step lr st) = redo_operations st @ ops_of ops
      \<and> no_nested_begin (redo_current_tx (redo_step lr st)) rs"
  proof (cases "is_control r")
    case True
    then show ?thesis
      using Cons.prems p
      by (cases r) (auto simp: lr redo_step_Pair same_pending_def pending_of_def ops_of_def split: if_splits option.splits,
        metis option.distinct(1))
  next
    case False
    then have "process_data lsn r ir = (ops, ir')" "no_nested_begin (redo_current_tx st) rs"
      using Cons.prems(2) p by (cases r; simp add: lr)+
    moreover have "same_pending (st\<lparr> redo_next_lsn := lsn + 1 \<rparr>) ir"
      using Cons.prems(1) by (cases "redo_current_tx st") (simp_all add: same_pending_def)
    ultimately show ?thesis
      using redo_data_process [of "st\<lparr> redo_next_lsn := lsn + 1 \<rparr>" ir lsn r ops ir'] False
      by (simp add: lr redo_step_Pair redo_record_data)
  qed
  then show ?case
    using Cons.IH [of "redo_step lr st" ir'] p by (simp add: lr)
qed simp

text \<open>
  C28: Recovering a log file in batches of any positive size terminates, and the
  batches put together are exactly the operations one-shot recovery delivers,
  provided no transaction begins while another one is open.
\<close>

theorem batched_recovery_agrees:
  assumes "0 < max_ops" "no_nested_begin None (fst (segment_scan bytes))"
  shows "fst (drain_batches max_ops (incremental_new bytes)) = fst (recover (Some bytes))"
  using redo_run_records [of redo_init "incremental_new bytes" "fst (segment_scan bytes)"] assms
  by (simp add: fst_recover drain_batches_remaining remaining_ops_def incremental_new_def redo_init_def
      same_pending_def segment_scan_def)

theorem batched_recovery_agrees_witness:
  "fst (drain_batches 2 (incremental_new (replicate 64 0 @ log_bytes
     [(1, Remove [7]), (2, BeginTx 4), (3, Insert [8] None), (4, CommitTx 4)])))
   = [RRemove 1 [7], RInsert 3 [8] None]"
proof -
  have "segment_scan (replicate 64 0 @ log_bytes [(1, Remove [7]), (2, BeginTx 4), (3, Insert [8] None), (4, CommitTx 4)])
      = ([(1, Remove [7]), (2, BeginTx 4), (3, Insert [8] None), (4, CommitTx 4)], EndOfLog)"
    by (simp add: segment_scan_def read_records_frame read_records_frame [where rest = "[]", simplified]
        frame_ok_def serialized_size_def RECORD_HEADER_SIZE_def short_def opt_len_def)
  then show ?thesis
    by (subst batched_recovery_agrees)
      (simp_all add: fst_recover redo_step_Pair redo_init_def redo_data_def pending_of_def)
qed

text \<open>Batched recovery forgets the body of a transaction that is open when another
  one begins.\<close>

lemma run_open_body:
  assumes "\<forall>lr\<in>set body. \<not> is_control (snd lr)" "ir_current_tx ir \<noteq> None"
  shows "run_records ir (body @ (b, BeginTx t) # rs) = run_records (ir\<lparr> ir_current_tx := Some t, ir_pending_ops := [] \<rparr>) rs"
  using assms
proof (induction body arbitrary: ir)
  case (Cons lr body)
  obtain lsn r where lr: "lr = (lsn, r)" by force
  then have "process_record lsn r ir = process_data lsn r ir"
    using Cons.prems(1) by (cases r) auto
  then show ?case
    using Cons by (simp add: lr process_data_def ops_of_def Let_def)
qed (simp add: ops_of_def)

lemma run_records_append: "\<exists>ir'. \<forall>rs'. run_records ir (rs @ rs') = run_records ir rs @ run_records ir' rs'"
proof (induction rs arbitrary: ir)
  case (Cons lr rs)
  obtain ops ir1 where p: "process_record (fst lr) (snd lr) ir = (ops, ir1)" by force
  obtain ir' where "\<forall>rs'. run_records ir1 (rs @ rs') = run_records ir1 rs @ run_records ir' rs'"
    using Cons by blast
  then show ?case
    using p by (cases lr) auto
qed auto

lemma run_records_source: "set (run_records ir rs) \<subseteq> set (ir_pending_ops ir) \<union> set (record_ops rs)"
proof (induction rs arbitrary: ir)
  case (Cons lr rs)
  obtain lsn r where lr: "lr = (lsn, r)" by force
  obtain ops ir' where p: "process_record lsn r ir = (ops, ir')" by force
  then have "set (ops_of ops) \<union> set (ir_pending_ops ir')
      \<subseteq> set (ir_pending_ops ir) \<union> set (recovered_operations_from_record lsn r)"
    by (cases r) (auto simp: process_data_def ops_of_def Let_def split: if_splits)
  then show ?case
    using Cons [of ir'] p by (auto simp: lr)
qed simp

text \<open>One-shot recovery keeps what a transaction has buffered until it commits.\<close>

definition holds_ops :: "recovered_operation list \<Rightarrow> u64 \<Rightarrow> redo_state \<Rightarrow> bool" where
  "holds_ops ops t st \<longleftrightarrow> (\<exists>xs ys. redo_operations st = xs @ ops @ ys)
     \<or> (\<exists>xs ys. pending_of (redo_pending st) t = xs @ ops @ ys)"

lemma delivered_stay: "\<exists>ys. redo_operations (fold redo_step rs st) = redo_operations st @ ys"
proof (induction rs arbitrary: st)
  case (Cons lr rs)
  have "\<exists>ys. redo_operations (redo_step lr st) = redo_operations st @ ys"
    by (cases lr; cases "snd lr") (auto simp: redo_step_Pair redo_data_def Let_def split: option.split)
  then show ?case
    using Cons [of "redo_step lr st"] by auto
qed simp

lemma holds_ops_step:
  assumes "holds_ops ops t st" "snd lr \<noteq> AbortTx t"
  shows "holds_ops ops t (redo_step lr st)"
proof -
  obtain lsn r where lr: "lr = (lsn, r)" by force
  have kept: "\<exists>ys. pending_of (redo_pending (redo_step lr st)) t = pending_of (redo_pending st) t @ ys" if "r \<noteq> CommitTx t"
    using that assms(2) by (cases r) (auto simp: lr redo_step_Pair redo_data_def pending_of_def Let_def split: option.split)
  have sent: "\<exists>ys. redo_operations (redo_step lr st) = redo_operations st @ ys"
    using delivered_stay [of "[lr]" st] by simp
  show ?thesis
  proof (cases "r = CommitTx t")
    case True
    then have "redo_operations (redo_step lr st) = redo_operations st @ pending_of (redo_pending st) t"
      by (simp add: lr redo_step_Pair)
    then show ?thesis
      using assms(1) unfolding holds_ops_def by (metis append.assoc)
  next
    case False
    then show ?thesis
      using assms(1) kept sent unfolding holds_ops_def by (metis append.assoc)
  qed
qed

lemma holds_ops_fold:
  "holds_ops ops t st \<Longrightarrow> \<forall>lr\<in>set rs. snd lr \<noteq> AbortTx t \<Longrightarrow> holds_ops ops t (fold redo_step rs st)"
  by (induction rs arbitrary: st) (simp_all add: holds_ops_step)

lemma redo_delivers_body:
  assumes "\<forall>lr\<in>set body. \<not> is_control (snd lr)" "\<forall>lr\<in>set mid. snd lr \<noteq> AbortTx t"
  shows "\<exists>xs ys. redo_operations (fold redo_step ((b, BeginTx t) # body @ mid @ (c, CommitTx t) # tail) st)
    = xs @ record_ops body @ ys"
proof -
  let ?st = "redo_step (b, BeginTx t) st"
  have "redo_pending (fold redo_step body ?st) t = Some (pending_of (redo_pending st) t @ record_ops body)"
    using redo_body [OF assms(1), of ?st t "pending_of (redo_pending st) t"] by (simp add: redo_step_Pair)
  then have "holds_ops (record_ops body) t (fold redo_step body ?st)"
    unfolding holds_ops_def pending_of_def by (metis append_Nil2 option.simps(5))
  from holds_ops_fold [OF this assms(2)]
  have "holds_ops (record_ops body) t (fold redo_step mid (fold redo_step body ?st))" .
  moreover define u where "u = fold redo_step mid (fold redo_step body ?st)"
  ultimately have "\<exists>xs ys. redo_operations (redo_step (c, CommitTx t) u) = xs @ record_ops body @ ys"
    unfolding holds_ops_def by (simp add: redo_step_Pair) (metis append.assoc)
  moreover obtain zs where "redo_operations (fold redo_step tail (redo_step (c, CommitTx t) u))
      = redo_operations (redo_step (c, CommitTx t) u) @ zs"
    using delivered_stay by blast
  ultimately show ?thesis
    by (simp add: u_def) (metis append.assoc)
qed

text \<open>
  C29: The proviso matters.  In any log, let a transaction be open with some
  operations buffered when another one begins, and let the first commit later
  without having been aborted in between.  One-shot recovery delivers the
  buffered operations.  Batched recovery, with batches of any size, delivers what
  it would deliver had they never been logged, and every operation it delivers
  comes from elsewhere in the log.
\<close>

theorem batched_recovery_drops_interleaved:
  assumes "fst (segment_scan bytes) =
        pre @ (b1, BeginTx t1) # body @ (b2, BeginTx t2) # mid @ (c1, CommitTx t1) # tail"
    and "fst (segment_scan erased) = pre @ (b1, BeginTx t1) # (b2, BeginTx t2) # mid @ (c1, CommitTx t1) # tail"
    and "\<forall>lr\<in>set body. \<not> is_control (snd lr)" "\<forall>lr\<in>set mid. snd lr \<noteq> AbortTx t1" "0 < max_ops"
  shows "(\<exists>xs ys. fst (recover (Some bytes)) = xs @ record_ops body @ ys)
    \<and> fst (drain_batches max_ops (incremental_new bytes)) = fst (drain_batches max_ops (incremental_new erased))
    \<and> set (fst (drain_batches max_ops (incremental_new bytes))) \<subseteq> set (record_ops (pre @ mid @ tail))"
proof -
  let ?ir = "incremental_new []" and ?rest = "mid @ (c1, CommitTx t1) # tail"
  have drain: "fst (drain_batches max_ops (incremental_new f)) = run_records ?ir (fst (segment_scan f))" for f
  proof -
    have "incremental_new f = ?ir\<lparr> ir_reader := drop 64 f, ir_next_lsn := 1 \<rparr>"
      by (simp add: incremental_new_def)
    then show ?thesis
      using assms(5) by (simp add: drain_batches_remaining remaining_ops_def segment_scan_def) (simp add: incremental_new_def)
  qed
  have empty: "ir_pending_ops ?ir = []"
    by (simp add: incremental_new_def)
  obtain ir' where pre: "\<And>rs. run_records ?ir (pre @ rs) = run_records ?ir pre @ run_records ir' rs"
    using run_records_append by blast
  have "run_records ir' ((b1, BeginTx t1) # body @ (b2, BeginTx t2) # ?rest)
      = run_records ir' ((b1, BeginTx t1) # (b2, BeginTx t2) # ?rest)"
    using run_open_body [OF assms(3)] by (simp add: ops_of_def)
  then have same: "fst (drain_batches max_ops (incremental_new bytes)) = fst (drain_batches max_ops (incremental_new erased))"
    by (simp only: drain assms(1,2) pre)
  moreover have "set (fst (drain_batches max_ops (incremental_new erased))) \<subseteq> set (record_ops (pre @ mid @ tail))"
    using run_records_source [of ?ir "fst (segment_scan erased)"] empty unfolding drain by (simp add: assms(2))
  moreover have "\<exists>xs ys. fst (recover (Some bytes)) = xs @ record_ops body @ ys"
    using redo_delivers_body [OF assms(3), of "(b2, BeginTx t2) # mid" t1 b1 c1 tail] assms(4)
    by (simp add: fst_recover assms(1))
  ultimately show ?thesis
    by simp
qed

theorem batched_recovery_drops_interleaved_witness:
  "(\<exists>xs ys. fst (recover (Some (replicate 64 0 @ log_bytes [(1, BeginTx 4), (2, Insert [7] None), (3, BeginTx 5),
      (4, Insert [8] None), (5, CommitTx 5), (6, CommitTx 4)]))) = xs @ [RInsert 2 [7] None] @ ys)
   \<and> set (fst (drain_batches 9 (incremental_new (replicate 64 0 @ log_bytes [(1, BeginTx 4), (2, Insert [7] None),
      (3, BeginTx 5), (4, Insert [8] None), (5, CommitTx 5), (6, CommitTx 4)])))) \<subseteq> {RInsert 4 [8] None}"
proof -
  let ?mid = "[(4, Insert [8] None), (5, CommitTx 5)]"
  let ?log = "[] @ (1, BeginTx 4) # [(2, Insert [7] None)] @ (3, BeginTx 5) # ?mid @ (6, CommitTx 4) # []"
  let ?short = "[] @ (1, BeginTx 4) # (3, BeginTx 5) # ?mid @ (6, CommitTx 4) # []"
  have scan: "fst (segment_scan (replicate 64 0 @ log_bytes rs)) = rs" if "\<forall>lr\<in>set rs. frame_ok lr" for rs
    using read_records_all [OF that] by (simp add: segment_scan_def)
  have "fst (segment_scan (replicate 64 0 @ log_bytes ?log)) = ?log"
      "fst (segment_scan (replicate 64 0 @ log_bytes ?short)) = ?short"
    by (rule scan, simp add: frame_ok_def serialized_size_def RECORD_HEADER_SIZE_def short_def opt_len_def)+
  from batched_recovery_drops_interleaved [OF this, of 9] show ?thesis
    by auto
qed

text \<open>One-shot recovery delivers in the order of the commits: of two overlapping
  transactions the one that commits first comes first, although its records
  have the higher LSNs.\<close>

lemma recover_commit_order:
  assumes "fst (segment_scan bytes) =
        (b1, BeginTx t1) # body1 @ (b2, BeginTx t2) # body2 @ [(c2, CommitTx t2), (c1, CommitTx t1)]"
    and "\<forall>lr\<in>set (body1 @ body2). \<not> is_control (snd lr)" "t1 \<noteq> t2"
  shows "fst (recover (Some bytes)) = record_ops body2 @ record_ops body1"
proof -
  let ?st = "redo_step (b1, BeginTx t1) redo_init"
  define u where "u = fold redo_step body1 ?st"
  define v where "v = fold redo_step body2 (redo_step (b2, BeginTx t2) u)"
  have u: "redo_pending u = [t1 \<mapsto> record_ops body1]" "redo_operations u = []"
    using redo_body [of body1 ?st t1 "[]"] assms(2) by (simp_all add: u_def redo_step_Pair redo_init_def pending_of_def)
  have v: "redo_pending v = [t1 \<mapsto> record_ops body1, t2 \<mapsto> record_ops body2]" "redo_operations v = []"
    using redo_body [of body2 "redo_step (b2, BeginTx t2) u" t2 "[]"] assms(2,3) u
    by (simp_all add: v_def redo_step_Pair pending_of_def)
  have "fst (recover (Some bytes)) = redo_operations (redo_step (c1, CommitTx t1) (redo_step (c2, CommitTx t2) v))"
    by (simp add: fst_recover assms(1) u_def v_def)
  then show ?thesis
    using v assms(3) by (simp add: redo_step_Pair pending_of_def)
qed

end
