(* ===== verification/Counter_Codec.thy ===== *)
theory Counter_Codec
  imports Prelude
begin

text \<open>
  The counter codec (\<open>core/counter_codec.rs\<close>): a counter leaf of 8 little-endian
  bytes read into a wide integer, the range-checked way back, and the splitting
  of an unsigned delta into signed chunks.  \<open>TypeId::of::<V>()\<close> is the value of
  type \<open>value_type\<close>, an \<open>i128\<close> is an integer, and \<open>bincode\<close> is a pair of
  functions the callers pass in.

  The lemmas show that a value survives the way through the wide integer, that
  the range check is exact, and that the chunks of a delta are few, in range and
  add up to it.
\<close>

datatype value_type = U64Value | I64Value | OtherValue

abbreviation i64_max :: int where
  "i64_max \<equiv> 2 ^ 63 - 1"

definition counter_leaf_to_i128 :: "value_type \<Rightarrow> byte list \<Rightarrow> int option" where
  "counter_leaf_to_i128 tid leaf =
     (if length leaf \<noteq> 8 then None
      else case tid of
             U64Value \<Rightarrow> Some (uint (u64_from_le_bytes leaf))
           | I64Value \<Rightarrow> Some (sint (u64_from_le_bytes leaf))
           | OtherValue \<Rightarrow> None)"

definition counter_value_to_i128 :: "value_type \<Rightarrow> ('v \<Rightarrow> byte list option) \<Rightarrow> 'v \<Rightarrow> int option" where
  "counter_value_to_i128 tid serialize value =
     (case serialize value of None \<Rightarrow> None | Some bytes \<Rightarrow> counter_leaf_to_i128 tid bytes)"

definition i128_to_counter_leaf :: "value_type \<Rightarrow> int \<Rightarrow> byte list option" where
  "i128_to_counter_leaf tid n =
     (case tid of
        U64Value \<Rightarrow> if n < 0 \<or> 2 ^ 64 - 1 < n then None else Some (u64_to_le_bytes (word_of_int n))
      | I64Value \<Rightarrow> if n < - (2 ^ 63) \<or> i64_max < n then None else Some (u64_to_le_bytes (word_of_int n))
      | OtherValue \<Rightarrow> None)"

definition i128_to_counter_value :: "value_type \<Rightarrow> (byte list \<Rightarrow> 'v option) \<Rightarrow> int \<Rightarrow> 'v option" where
  "i128_to_counter_value tid deserialize n =
     (case i128_to_counter_leaf tid n of None \<Rightarrow> None | Some bytes \<Rightarrow> deserialize bytes)"

definition counter_return_i64 :: "int \<Rightarrow> i64" where
  "counter_return_i64 n = word_of_int n"

text \<open>The loop of \<open>split_u64_delta_to_i64_chunks\<close>; \<open>i64::MAX as u64\<close> caps a chunk.\<close>

definition chunk_cap :: u64 where
  "chunk_cap = 0x7FFFFFFFFFFFFFFF"

function split_chunks :: "u64 \<Rightarrow> i64 list" where
  "split_chunks remaining =
     (if remaining = 0 then []
      else let chunk = min remaining chunk_cap in chunk # split_chunks (remaining - chunk))"
  by pat_completeness auto

lemma min_chunk_cap:
  assumes "remaining \<noteq> 0"
  shows "unat (remaining - min remaining chunk_cap) = unat remaining - unat (min remaining chunk_cap)"
    and "0 < unat (min remaining chunk_cap)"
  using assms by (simp_all add: unat_sub min_def chunk_cap_def unat_gt_0)

termination split_chunks
  by (relation "measure unat") (simp_all add: min_chunk_cap(1) diff_less [OF min_chunk_cap(2)] unat_gt_0)

declare split_chunks.simps [simp del]

definition split_u64_delta_to_i64_chunks :: "u64 \<Rightarrow> i64 list" where
  "split_u64_delta_to_i64_chunks delta = (if delta = 0 then [0] else split_chunks delta)"

subsection \<open>Lemmas\<close>

lemma split_chunks_step:
  "r \<noteq> 0 \<Longrightarrow> split_chunks r = min r chunk_cap # split_chunks (r - min r chunk_cap)"
  by (simp add: split_chunks.simps [of r] Let_def)

lemma split_chunks_0 [simp]: "split_chunks 0 = []"
  by (simp add: split_chunks.simps [of 0])

lemma sint_chunk: "c \<le> chunk_cap \<Longrightarrow> sint (c :: u64) = uint c"
proof -
  assume "c \<le> chunk_cap"
  then have "uint c < 2 ^ 63"
    by (simp add: chunk_cap_def word_le_def)
  moreover have "- (2 ^ 63) \<le> uint c"
    by (rule order_trans [OF _ uint_ge_0]) simp
  ultimately show ?thesis
    by (simp add: sint_uint signed_take_bit_int_eq_self)
qed

lemma split_chunks_sum:
  "(\<Sum>c\<leftarrow>split_chunks r. sint c) = uint r \<and> (\<forall>c\<in>set (split_chunks r). 0 < uint c \<and> c \<le> chunk_cap)"
proof (induction r rule: split_chunks.induct)
  case (1 r)
  show ?case
  proof (cases "r = 0")
    case False
    let ?c = "min r chunk_cap"
    have "?c \<le> chunk_cap" "?c \<le> r" "?c \<noteq> 0"
      using min_chunk_cap(2) [OF False] by (simp_all add: unat_gt_0)
    moreover from \<open>?c \<noteq> 0\<close> have "0 < uint ?c"
      by (metis order_le_less uint_0_iff uint_ge_0)
    moreover from \<open>?c \<le> r\<close> have "uint (r - ?c) = uint r - uint ?c"
      by (simp add: uint_sub_lem word_le_def)
    ultimately show ?thesis
      using 1 [OF False refl] by (simp add: split_chunks_step [OF False] sint_chunk)
  qed simp
qed

lemma split_chunks_length: "unat r \<le> k * unat chunk_cap \<Longrightarrow> length (split_chunks r) \<le> k"
proof (induction k arbitrary: r)
  case (Suc k)
  show ?case
  proof (cases "r = 0")
    case False
    have "unat (min r chunk_cap) = min (unat r) (unat chunk_cap)"
      by (simp add: min_def word_le_nat_alt)
    then show ?thesis
      using Suc.IH [of "r - min r chunk_cap"] Suc.prems min_chunk_cap [OF False]
      by (simp add: split_chunks_step [OF False])
  qed simp
qed (simp add: unat_eq_0)

text \<open>
  C31: Splitting an unsigned delta into signed chunks is exact and short: at most
  three chunks, each a non-negative \<open>i64\<close>, whose signed values add up to the
  delta, and no chunk is zero unless the delta is.
\<close>

theorem delta_chunks_exact:
  "length (split_u64_delta_to_i64_chunks delta) \<in> {1, 2, 3}
   \<and> (\<Sum>c\<leftarrow>split_u64_delta_to_i64_chunks delta. sint c) = uint delta
   \<and> list_all (\<lambda>c. 0 \<le> sint c \<and> (sint c = 0) = (delta = 0)) (split_u64_delta_to_i64_chunks delta)"
proof (cases "delta = 0")
  case False
  have "length (split_chunks delta) \<le> 3" "length (split_chunks delta) \<noteq> 0"
    using split_chunks_length [of delta 3] unat_less_pow [of delta] False
    by (simp_all add: chunk_cap_def split_chunks_step)
  then have "length (split_chunks delta) \<in> {1, 2, 3}"
    unfolding insert_iff empty_iff by linarith
  then show ?thesis
    using split_chunks_sum [of delta] False
    by (auto simp: split_u64_delta_to_i64_chunks_def list_all_iff sint_chunk)
qed (simp add: split_u64_delta_to_i64_chunks_def)

lemma leaf_of_value:
  "counter_leaf_to_i128 U64Value (u64_to_le_bytes v) = Some (uint v)"
  "counter_leaf_to_i128 I64Value (u64_to_le_bytes v) = Some (sint v)"
  by (simp_all add: counter_leaf_to_i128_def)

lemma counter_leaf_roundtrip: "i128_to_counter_leaf tid n = Some leaf \<Longrightarrow> counter_leaf_to_i128 tid leaf = Some n"
proof (cases tid)
  case U64Value
  assume "i128_to_counter_leaf tid n = Some leaf"
  then have "leaf = u64_to_le_bytes (word_of_int n)" "0 \<le> n" "n < 2 ^ 64"
    by (auto simp: U64Value i128_to_counter_leaf_def split: if_splits)
  then show ?thesis
    by (simp add: U64Value leaf_of_value uint_word_of_int_eq take_bit_int_eq_self)
next
  case I64Value
  assume "i128_to_counter_leaf tid n = Some leaf"
  then have "leaf = u64_to_le_bytes (word_of_int n)" "- (2 ^ 63) \<le> n" "n < 2 ^ 63"
    by (auto simp: I64Value i128_to_counter_leaf_def split: if_splits)
  then show ?thesis
    by (simp add: I64Value leaf_of_value sint_sbintrunc' signed_take_bit_int_eq_self)
qed (simp add: i128_to_counter_leaf_def)

text \<open>
  C32: Counter arithmetic is carried out without wrap-around.  Reading an
  unsigned leaf, adding a signed delta and writing the sum back gives a leaf
  holding exactly the sum when the sum is a \<open>u64\<close>, and refuses otherwise; the
  same holds for signed leaves and the range of \<open>i64\<close>.
\<close>

theorem counter_add_exact:
  "(case i128_to_counter_leaf U64Value (the (counter_leaf_to_i128 U64Value (u64_to_le_bytes v)) + sint delta) of
      None \<Rightarrow> uint v + sint delta \<notin> {0..<2 ^ 64}
    | Some leaf \<Rightarrow> counter_leaf_to_i128 U64Value leaf = Some (uint v + sint delta))
   \<and> (case i128_to_counter_leaf I64Value (the (counter_leaf_to_i128 I64Value (u64_to_le_bytes w)) + sint delta) of
      None \<Rightarrow> sint w + sint delta \<notin> {- (2 ^ 63)..<2 ^ 63}
    | Some leaf \<Rightarrow> counter_leaf_to_i128 I64Value leaf = Some (sint w + sint delta))"
proof -
  have "i128_to_counter_leaf U64Value n = None \<longleftrightarrow> n \<notin> {0..<2 ^ 64}"
    and "i128_to_counter_leaf I64Value n = None \<longleftrightarrow> n \<notin> {- (2 ^ 63)..<2 ^ 63}" for n
    by (auto simp: i128_to_counter_leaf_def)
  then show ?thesis
    by (auto simp: leaf_of_value dest: counter_leaf_roundtrip split: option.split)
qed

end
