(* ===== verification/Overlay_Publish.thy ===== *)
theory Overlay_Publish
  imports Cas_Walk Recovery Counter_Codec
begin

text \<open>
  Publishing into the overlay without logging, and the replay of recovered
  operations (\<open>core/overlay/atomic_ptr.rs\<close>, \<open>core/overlay/flip.rs\<close>,
  \<open>lockfree_cas.rs\<close> and \<open>overlay_write_mode.rs\<close> of the byte trie).  A published
  root is an immutable revision with its term count; its number stands for the
  identity of the shared pointer.  Replay runs on one thread, so the first
  compare-and-swap of each publisher succeeds; a panic is the result \<open>None\<close>.
  The value codec (\<open>bincode\<close>) and the loader of evicted nodes are arguments.

  The lemmas show that on a trie whose nodes are in memory every publisher acts
  on one key of the map the trie denotes, keeps the term count equal to the
  number of keys and keeps the lookup cache sound, and that applying a recovered
  operation is the corresponding update of a map.
\<close>

subsection \<open>The published root\<close>

record 'v published_root =
  pr_id :: nat
  pr_node :: "(u8, 'v) overlay_node"
  pr_term_count :: u64

definition checked_add_signed :: "u64 \<Rightarrow> int \<Rightarrow> u64 option" where
  "checked_add_signed c d =
     (let n = uint c + d in if 0 \<le> n \<and> n < 2 ^ 64 then Some (word_of_int n) else None)"

definition compare_exchange_revision_counted ::
    "'v published_root \<Rightarrow> 'v published_root \<Rightarrow> (u8, 'v) overlay_node \<Rightarrow> int
     \<Rightarrow> (bool \<times> 'v published_root) option" where
  "compare_exchange_revision_counted slot expected new delta =
     (case checked_add_signed (pr_term_count expected) delta of
        None \<Rightarrow> None
      | Some c \<Rightarrow>
          Some (if pr_id slot = pr_id expected
                then (True, \<lparr> pr_id = Suc (pr_id slot), pr_node = new, pr_term_count = c \<rparr>)
                else (False, slot)))"

record 'v overlay_trie =
  lockfree_root :: "'v published_root"
  lockfree_cache :: "u8 list set"

definition install_overlay :: "'v overlay_trie" where
  "install_overlay = \<lparr> lockfree_root = \<lparr> pr_id = 0, pr_node = node_new, pr_term_count = 0 \<rparr>,
     lockfree_cache = {} \<rparr>"

text \<open>Replace the root by a node built from the loaded revision.\<close>

definition publish ::
    "'v overlay_trie \<Rightarrow> (u8, 'v) overlay_node \<Rightarrow> int \<Rightarrow> 'v overlay_trie option" where
  "publish t new delta =
     (case compare_exchange_revision_counted (lockfree_root t) (lockfree_root t) new delta of
        None \<Rightarrow> None
      | Some (_, slot) \<Rightarrow> Some (t\<lparr> lockfree_root := slot \<rparr>))"

subsection \<open>Publishers\<close>

definition finality_delta :: "(u8, 'v) overlay_node \<Rightarrow> (u8, 'v) overlay_node \<Rightarrow> int" where
  "finality_delta old new =
     (if \<not> is_final old \<and> is_final new then 1 else if is_final old \<and> \<not> is_final new then - 1 else 0)"

definition publish_root_cas ::
    "((u8, 'v) overlay_node \<Rightarrow> (u8, 'v) overlay_node) \<Rightarrow> ((u8, 'v) overlay_node \<Rightarrow> bool)
     \<Rightarrow> 'v overlay_trie \<Rightarrow> (bool \<times> 'v overlay_trie) option" where
  "publish_root_cas transform needs_publish t =
     (let old = pr_node (lockfree_root t) in
      if \<not> needs_publish old then Some (False, t)
      else case publish t (transform old) (finality_delta old (transform old)) of
             None \<Rightarrow> None
           | Some t' \<Rightarrow> Some (True, t'))"

definition overlay_publish_root_membership :: "'v overlay_trie \<Rightarrow> (bool \<times> 'v overlay_trie) option" where
  "overlay_publish_root_membership = publish_root_cas (as_final u8_label) (\<lambda>r. \<not> is_final r)"

definition overlay_publish_root_value :: "'v \<Rightarrow> 'v overlay_trie \<Rightarrow> (bool \<times> 'v overlay_trie) option" where
  "overlay_publish_root_value v =
     publish_root_cas (\<lambda>r. with_value u8_label (as_final u8_label r) v) (\<lambda>_. True)"

definition insert_cas ::
    "(u8, 'v) fault_in \<Rightarrow> u8 list \<Rightarrow> 'v overlay_trie \<Rightarrow> (bool \<times> 'v overlay_trie) option" where
  "insert_cas fault_in term t =
     (if term \<in> lockfree_cache t then Some (False, t)
      else if term = [] then
        (case overlay_publish_root_membership t of
           None \<Rightarrow> None
         | Some (inserted, t') \<Rightarrow>
             Some (inserted, if inserted then t'\<lparr> lockfree_cache := insert [] (lockfree_cache t') \<rparr> else t'))
      else case build_final_path_iterative u8_label fault_in (pr_node (lockfree_root t)) term 0 of
        Inr new_root \<Rightarrow>
          (case publish t new_root 1 of
             None \<Rightarrow> None
           | Some t' \<Rightarrow> Some (True, t'\<lparr> lockfree_cache := insert term (lockfree_cache t') \<rparr>))
      | Inl AlreadyExists \<Rightarrow> Some (False, t\<lparr> lockfree_cache := insert term (lockfree_cache t) \<rparr>)
      | Inl (Failure _) \<Rightarrow> Some (False, t))"

definition overlay_remove_no_wal :: "(u8, 'v) fault_in \<Rightarrow> u8 list \<Rightarrow> 'v overlay_trie \<Rightarrow> 'v overlay_trie option" where
  "overlay_remove_no_wal fault_in term t =
     (case build_remove_path_iterative u8_label fault_in (pr_node (lockfree_root t)) term 0 of
        Inr new_root \<Rightarrow>
          (case publish t new_root (- 1) of
             None \<Rightarrow> None
           | Some t' \<Rightarrow> Some (t'\<lparr> lockfree_cache := lockfree_cache t' - {term} \<rparr>))
      | Inl AlreadyExists \<Rightarrow> Some (t\<lparr> lockfree_cache := lockfree_cache t - {term} \<rparr>)
      | Inl (Failure _) \<Rightarrow> Some t)"

definition overlay_remove :: "(u8, 'v) fault_in \<Rightarrow> u8 list \<Rightarrow> 'v overlay_trie \<Rightarrow> 'v overlay_trie option" where
  "overlay_remove fault_in units t =
     (if units = [] then map_option snd (publish_root_cas (as_non_final u8_label) is_final t)
      else overlay_remove_no_wal fault_in units t)"

definition overlay_publish_value ::
    "(u8, 'v) fault_in \<Rightarrow> u8 list \<Rightarrow> 'v \<Rightarrow> 'v overlay_trie
     \<Rightarrow> ((persistent_artrie_error + unit) \<times> 'v overlay_trie) option" where
  "overlay_publish_value fault_in units v t =
     (let root = pr_node (lockfree_root t);
          delta = (if find_leaf_iterative u8_label root units 0 = None then 1 else 0)
      in case build_value_path_iterative u8_label fault_in root units 0 v of
           Inl e \<Rightarrow> Some (Err e, t)
         | Inr new_root \<Rightarrow>
             (case publish t new_root delta of
                None \<Rightarrow> None
              | Some t' \<Rightarrow> Some (Ok (), t'\<lparr> lockfree_cache := insert units (lockfree_cache t') \<rparr>)))"

definition overlay_publish_membership_any ::
    "(u8, 'v) fault_in \<Rightarrow> u8 list \<Rightarrow> 'v overlay_trie \<Rightarrow> 'v overlay_trie option" where
  "overlay_publish_membership_any fault_in units t =
     (if units = [] then map_option snd (overlay_publish_root_membership t)
      else map_option snd (insert_cas fault_in units t))"

definition overlay_publish_value_any ::
    "(u8, 'v) fault_in \<Rightarrow> u8 list \<Rightarrow> 'v \<Rightarrow> 'v overlay_trie \<Rightarrow> (bool \<times> 'v overlay_trie) option" where
  "overlay_publish_value_any fault_in units v t =
     (if units = [] then map_option (\<lambda>(_, t'). (True, t')) (overlay_publish_root_value v t)
      else map_option (\<lambda>(r, t'). (case r of Inl _ \<Rightarrow> False | Inr _ \<Rightarrow> True, t'))
             (overlay_publish_value fault_in units v t))"

definition overlay_value_get :: "(u8, 'v) fault_in \<Rightarrow> u8 list \<Rightarrow> 'v overlay_trie \<Rightarrow> 'v option" where
  "overlay_value_get fault_in units t =
     (case walk_faulting_snapshot u8_label fault_in (pr_node (lockfree_root t)) units of
        Inl _ \<Rightarrow> None
      | Inr None \<Rightarrow> None
      | Inr (Some leaf) \<Rightarrow> get_value leaf)"

definition contains_lockfree :: "(u8, 'v) fault_in \<Rightarrow> u8 list \<Rightarrow> 'v overlay_trie \<Rightarrow> bool" where
  "contains_lockfree fault_in term t =
     (if term \<in> lockfree_cache t then True
      else case walk_faulting_snapshot u8_label fault_in (pr_node (lockfree_root t)) term of
             Inr found \<Rightarrow> found \<noteq> None
           | Inl _ \<Rightarrow> find_in_lockfree_trie u8_label (pr_node (lockfree_root t)) term 0)"

subsection \<open>Replay\<close>

text \<open>The value type with its codec.\<close>

record 'v value_codec =
  vc_type :: value_type
  vc_serialize :: "'v \<Rightarrow> byte list option"
  vc_deserialize :: "byte list \<Rightarrow> 'v option"

definition publish_decoded ::
    "(u8, 'v) fault_in \<Rightarrow> u8 list \<Rightarrow> 'v option \<Rightarrow> 'v overlay_trie \<Rightarrow> (bool \<times> 'v overlay_trie) option" where
  "publish_decoded fault_in units decoded t =
     (case decoded of
        Some v \<Rightarrow> overlay_publish_value_any fault_in units v t
      | None \<Rightarrow> Some (False, t))"

definition replay_delta ::
    "'v value_codec \<Rightarrow> 'v option \<Rightarrow> i64 \<Rightarrow> 'v option" where
  "replay_delta C current delta =
     (case (case current of Some value \<Rightarrow> counter_value_to_i128 (vc_type C) (vc_serialize C) value
            | None \<Rightarrow> Some 0) of
        None \<Rightarrow> None
      | Some n \<Rightarrow> i128_to_counter_value (vc_type C) (vc_deserialize C) (n + sint delta))"

definition absolute_counter :: "'v value_codec \<Rightarrow> i64 \<Rightarrow> 'v option" where
  "absolute_counter C v =
     (case counter_leaf_to_i128 (vc_type C) (u64_to_le_bytes v) of
        None \<Rightarrow> None
      | Some n \<Rightarrow> i128_to_counter_value (vc_type C) (vc_deserialize C) n)"

fun apply_recovered_operation_overlay ::
    "'v value_codec \<Rightarrow> (u8, 'v) fault_in \<Rightarrow> recovered_operation \<Rightarrow> 'v overlay_trie
     \<Rightarrow> (bool \<times> 'v overlay_trie) option" where
  "apply_recovered_operation_overlay C fault_in (RInsert _ units value) t =
     (case value of
        Some bytes \<Rightarrow> publish_decoded fault_in units (vc_deserialize C bytes) t
      | None \<Rightarrow> map_option (\<lambda>t'. (True, t')) (overlay_publish_membership_any fault_in units t))"
| "apply_recovered_operation_overlay C fault_in (RRemove _ units) t =
     map_option (\<lambda>t'. (True, t')) (overlay_remove fault_in units t)"
| "apply_recovered_operation_overlay C fault_in (RUpsert _ units value) t =
     publish_decoded fault_in units (vc_deserialize C value) t"
| "apply_recovered_operation_overlay C fault_in (RCompareAndSwap _ units new_value success) t =
     (if \<not> success then Some (False, t)
      else publish_decoded fault_in units (vc_deserialize C new_value) t)"
| "apply_recovered_operation_overlay C fault_in (RIncrement _ units delta result) t =
     (case result of
        Some v \<Rightarrow> publish_decoded fault_in units (absolute_counter C v) t
      | None \<Rightarrow>
          if units = [] then Some (True, t)
          else publish_decoded fault_in units (replay_delta C (overlay_value_get fault_in units t) delta) t)"

fun drain_winners ::
    "'v value_codec \<Rightarrow> (u8, 'v) fault_in \<Rightarrow> recovered_operation list \<Rightarrow> nat \<times> 'v overlay_trie
     \<Rightarrow> (nat \<times> 'v overlay_trie) option" where
  "drain_winners C fault_in [] st = Some st"
| "drain_winners C fault_in (op # ops) (applied, t) =
     (case apply_recovered_operation_overlay C fault_in op t of
        None \<Rightarrow> None
      | Some (ok, t') \<Rightarrow> drain_winners C fault_in ops (if ok then applied + 1 else applied, t'))"

fun is_data_record :: "wal_record \<Rightarrow> bool" where
  "is_data_record (BeginTx _) = False"
| "is_data_record (CommitTx _) = False"
| "is_data_record (AbortTx _) = False"
| "is_data_record (Checkpoint _ _) = False"
| "is_data_record (CommitRank _ _ _) = False"
| "is_data_record (VersionUpdate _ _ _ _) = False"
| "is_data_record (VersionDurable _ _) = False"
| "is_data_record (VersionGc _) = False"
| "is_data_record _ = True"

text \<open>The records one segment contributes: in a segment of the owned regime, data
  records inside a transaction that did not commit are dropped.\<close>

definition drain_segment :: "byte list \<Rightarrow> (lsn \<times> wal_record) list" where
  "drain_segment bytes =
     (let rs = fst (segment_scan bytes) in
      case segment_regime (Some bytes) of
        Overlay \<Rightarrow> rs
      | Owned \<Rightarrow>
          (let surviving = set (map op_lsn (fst (recover (Some bytes))))
           in filter (\<lambda>(lsn, r). is_data_record r \<longrightarrow> lsn \<in> surviving) rs))"

fun drain_collect ::
    "segment list \<Rightarrow> (lsn \<times> wal_record) list \<times> (lsn \<rightharpoonup> rank_regime) \<times> lsn list
     \<Rightarrow> (lsn \<times> wal_record) list \<times> (lsn \<rightharpoonup> rank_regime) \<times> lsn list" where
  "drain_collect [] acc = acc"
| "drain_collect (None # segs) acc = drain_collect segs acc"
| "drain_collect (Some bytes # segs) (all_records, regime_by_lsn, physical) =
     drain_collect segs
       (all_records @ drain_segment bytes,
        fold (\<lambda>(lsn, _) m. m(lsn \<mapsto> segment_regime (Some bytes))) (drain_segment bytes) regime_by_lsn,
        physical @ map fst (fst (segment_scan bytes)))"

definition drain_segments_into_overlay ::
    "'v value_codec \<Rightarrow> (u8, 'v) fault_in \<Rightarrow> segment list \<Rightarrow> bool \<Rightarrow> lsn \<Rightarrow> 'v overlay_trie
     \<Rightarrow> (string + nat \<times> 'v overlay_trie) option" where
  "drain_segments_into_overlay C fault_in segments loaded_from_disk image_checkpoint_lsn t =
     (let (all_records, regime_by_lsn, physical) = drain_collect segments ([], Map.empty, []) in
      if physical \<noteq> [] \<and> \<not> loaded_from_disk \<and> 1 < Min (set physical)
      then Some (Err ''archive drain has a prefix gap'')
      else
        let winners = reconcile_lww_with_regime all_records loaded_from_disk image_checkpoint_lsn
              (\<lambda>lsn. case regime_by_lsn lsn of Some r \<Rightarrow> r | None \<Rightarrow> Owned)
        in map_option Ok (drain_winners C fault_in winners (0, t)))"

subsection \<open>The map and its invariant\<close>

text \<open>Nodes in memory: no edge on the way to the key refers to the disk.\<close>

fun resident_path :: "'l adaptive_label \<Rightarrow> ('l::linorder, 'v) overlay_node \<Rightarrow> 'l list \<Rightarrow> bool" where
  "resident_path L n [] = True"
| "resident_path L n (u # us) =
     (case find_child L n u of
        None \<Rightarrow> True
      | Some (InMem m) \<Rightarrow> resident_path L m us
      | Some (OnDisk _) \<Rightarrow> False)"

definition all_in_memory :: "'l adaptive_label \<Rightarrow> ('l::linorder, 'v) overlay_node \<Rightarrow> bool" where
  "all_in_memory L n \<longleftrightarrow> (\<forall>key. resident_path L n key)"

abbreviation root_map :: "(u8, 'v) overlay_node \<Rightarrow> u8 list \<rightharpoonup> 'v option" where
  "root_map n \<equiv> term_map u8_label no_disk n"

definition root_ok :: "'v published_root \<Rightarrow> bool" where
  "root_ok r \<longleftrightarrow> node_wf u8_label (pr_node r) \<and> all_in_memory u8_label (pr_node r)
     \<and> finite (dom (root_map (pr_node r))) \<and> uint (pr_term_count r) = int (card (dom (root_map (pr_node r))))"

definition trie_ok :: "'v overlay_trie \<Rightarrow> bool" where
  "trie_ok t \<longleftrightarrow> root_ok (lockfree_root t) \<and> [] \<notin> lockfree_cache t
     \<and> lockfree_cache t \<subseteq> dom (root_map (pr_node (lockfree_root t)))"

text \<open>What replaying an operation makes of the entry of its key.\<close>

fun replay_entry :: "'v value_codec \<Rightarrow> recovered_operation \<Rightarrow> 'v option option \<Rightarrow> 'v option option" where
  "replay_entry C (RInsert _ _ None) entry = (case entry of None \<Rightarrow> Some None | Some v \<Rightarrow> Some v)"
| "replay_entry C (RInsert _ _ (Some bytes)) entry =
     (case vc_deserialize C bytes of None \<Rightarrow> entry | Some v \<Rightarrow> Some (Some v))"
| "replay_entry C (RRemove _ _) entry = None"
| "replay_entry C (RUpsert _ _ bytes) entry =
     (case vc_deserialize C bytes of None \<Rightarrow> entry | Some v \<Rightarrow> Some (Some v))"
| "replay_entry C (RCompareAndSwap _ _ bytes success) entry =
     (if \<not> success then entry else case vc_deserialize C bytes of None \<Rightarrow> entry | Some v \<Rightarrow> Some (Some v))"
| "replay_entry C (RIncrement _ _ delta (Some v)) entry =
     (case absolute_counter C v of None \<Rightarrow> entry | Some v \<Rightarrow> Some (Some v))"
| "replay_entry C (RIncrement _ t delta None) entry =
     (if t = [] then entry
      else case replay_delta C (case entry of None \<Rightarrow> None | Some v \<Rightarrow> v) delta of
             None \<Rightarrow> entry
           | Some v \<Rightarrow> Some (Some v))"

definition replay_map ::
    "'v value_codec \<Rightarrow> recovered_operation \<Rightarrow> (u8 list \<rightharpoonup> 'v option) \<Rightarrow> u8 list \<rightharpoonup> 'v option" where
  "replay_map C op m = m(op_term op := replay_entry C op (m (op_term op)))"

subsection \<open>Nodes in memory\<close>

lemma in_memory_iff:
  "all_in_memory L n \<longleftrightarrow> (\<forall>u c. find_child L n u = Some c \<longrightarrow> (\<exists>m. c = InMem m \<and> all_in_memory L m))"
proof
  assume mem: "all_in_memory L n"
  show "\<forall>u c. find_child L n u = Some c \<longrightarrow> (\<exists>m. c = InMem m \<and> all_in_memory L m)"
  proof (intro allI impI)
    fix u c
    assume "find_child L n u = Some c"
    moreover have "resident_path L n (u # us)" for us
      using mem unfolding all_in_memory_def by blast
    ultimately show "\<exists>m. c = InMem m \<and> all_in_memory L m"
      by (cases c) (auto simp: all_in_memory_def)
  qed
next
  assume all: "\<forall>u c. find_child L n u = Some c \<longrightarrow> (\<exists>m. c = InMem m \<and> all_in_memory L m)"
  have "resident_path L n key" for key
  proof (cases key)
    case (Cons u us)
    then show ?thesis
      using all by (cases "find_child L n u") (fastforce simp: all_in_memory_def)+
  qed simp
  then show "all_in_memory L n" by (simp add: all_in_memory_def)
qed

lemma in_memory_find: "all_in_memory L n \<Longrightarrow> find_child L n u = Some c \<Longrightarrow> \<exists>m. c = InMem m \<and> all_in_memory L m"
  using in_memory_iff by blast

lemma in_memory_next: "all_in_memory L n \<Longrightarrow> next_node L fault_in n u = Some m \<Longrightarrow> all_in_memory L m"
  by (auto simp: next_node_def split: option.splits dest: in_memory_find)

lemma in_memory_new [simp]: "all_in_memory L node_new"
  by (subst in_memory_iff) (simp add: find_child_def node_new_def edge_new_def)

lemma in_memory_clones:
  assumes "label_ok L" "node_wf L n" "all_in_memory L n"
  shows "all_in_memory L (as_final L n)" "all_in_memory L (as_non_final L n)" "all_in_memory L (with_value L n v)"
  using assms by (subst in_memory_iff; simp add: node_simps in_memory_find)+

lemma in_memory_leaf: "label_ok L \<Longrightarrow> all_in_memory L (as_final L node_new)"
  by (rule in_memory_clones(1)) simp_all

lemma in_memory_with_child:
  "label_ok L \<Longrightarrow> node_wf L n \<Longrightarrow> all_in_memory L n \<Longrightarrow> all_in_memory L m \<Longrightarrow> all_in_memory L (with_child L n u (InMem m))"
  by (subst in_memory_iff) (auto simp: find_child_with_child dest: in_memory_find split: if_splits)

lemma in_memory_create_spine:
  assumes "label_ok L" "all_in_memory L leaf"
  shows "all_in_memory L (fst (create_spine L us leaf))"
  using assms
  by (induction us) (simp_all add: create_spine_Cons in_memory_with_child, simp add: create_spine_def)

lemma in_memory_unwind:
  assumes "label_ok L" "all_in_memory L new"
  shows "spine_path L fault_in root spine cur \<Longrightarrow> all_in_memory L root \<Longrightarrow>
    all_in_memory L cur \<and> all_in_memory L (unwind_spine L spine new)"
proof (induction spine arbitrary: root)
  case (Cons f spine)
  obtain n u where f: "f = (n, u)" by force
  then obtain m where m: "n = root" "node_wf L root" "next_node L fault_in root u = Some m"
      "spine_path L fault_in m spine cur"
    using Cons.prems(1) by auto
  then have "all_in_memory L cur \<and> all_in_memory L (unwind_spine L spine new)"
    using Cons.IH [OF m(4)] in_memory_next [OF Cons.prems(2) m(3)] by blast
  then show ?case
    using m(1,2) Cons.prems(2) by (simp add: f unwind_Cons in_memory_with_child assms(1))
qed (simp add: assms)

lemma in_memory_path:
  "all_in_memory L n \<Longrightarrow> path_error L fault_in n key = None \<and> \<not> path_null L fault_in n key
     \<and> term_map L fault_in n key = term_map L no_disk n key"
proof (induction key arbitrary: n)
  case (Cons u us)
  show ?case
  proof (cases "find_child L n u")
    case (Some c)
    then obtain m where "c = InMem m" "all_in_memory L m"
      using in_memory_find [OF Cons.prems] by blast
    then show ?thesis
      using Cons.IH Some by (simp add: next_node_def)
  qed (simp add: next_node_def)
qed simp

lemma term_map_in_memory: "all_in_memory L n \<Longrightarrow> term_map L fault_in n = term_map L no_disk n"
  using in_memory_path by blast

lemma in_memory_spine:
  assumes "label_ok L" "spine_path L fault_in root spine cur" "all_in_memory L root"
  shows "all_in_memory L cur" "all_in_memory L new \<Longrightarrow> all_in_memory L (unwind_spine L spine new)"
  using in_memory_unwind [OF assms(1) _ assms(2,3)] in_memory_new by blast+

lemma in_memory_resolve:
  assumes "all_in_memory L cur"
  obtains (absent) "find_child L cur u = None"
    | (present) m where "find_child L cur u = Some (InMem m)" "next_node L fault_in cur u = Some m"
  using in_memory_find [OF assms, of u] by (cases "find_child L cur u") (auto simp: next_node_def)

lemma build_final_in_memory:
  assumes "label_ok L" "loader_ok L fault_in" "node_wf L cur" "all_in_memory L root" "spine_path L fault_in root spine cur"
    and "build_final_loop L fault_in spine cur key = Ok root'"
  shows "all_in_memory L root'"
  using assms(3,5,6)
proof (induction key arbitrary: spine cur)
  case Nil
  note mem = in_memory_spine [OF assms(1) Nil.prems(2) assms(4)]
  have "root' = unwind_spine L spine (as_final L cur)"
    using Nil.prems(3) by (auto split: if_splits)
  then show ?case
    using mem in_memory_clones(1) [OF assms(1) Nil.prems(1)] by simp
next
  case (Cons u us)
  note mem = in_memory_spine [OF assms(1) Cons.prems(2) assms(4)]
  from mem(1) show ?case
  proof (cases rule: in_memory_resolve [where u = u and fault_in = fault_in])
    case absent
    have "all_in_memory L (with_child L cur u (InMem (fst (create_spine L us (as_final L node_new)))))"
      using in_memory_with_child [OF assms(1) Cons.prems(1) mem(1)] in_memory_create_spine [OF assms(1) in_memory_leaf [OF assms(1)]] by blast
    then show ?thesis
      using Cons.prems(3) absent mem(2) by (auto simp: resolve_cases create_lockfree_path_final_def)
  next
    case (present m)
    then show ?thesis
      using Cons.IH [of m "spine @ [(cur, u)]"] Cons.prems next_node_wf [OF assms(1,2) Cons.prems(1) present(2)]
      by (simp add: spine_path_snoc resolve_cases)
  qed
qed

lemma build_remove_in_memory:
  assumes "label_ok L" "loader_ok L fault_in" "node_wf L cur" "all_in_memory L root" "spine_path L fault_in root spine cur"
    and "build_remove_loop L fault_in spine cur key = Ok root'"
  shows "all_in_memory L root'"
  using assms(3,5,6)
proof (induction key arbitrary: spine cur)
  case Nil
  note mem = in_memory_spine [OF assms(1) Nil.prems(2) assms(4)]
  have "root' = unwind_spine L spine (as_non_final L cur)"
    using Nil.prems(3) by (auto split: if_splits)
  then show ?case
    using mem in_memory_clones(2) [OF assms(1) Nil.prems(1)] by simp
next
  case (Cons u us)
  note mem = in_memory_spine [OF assms(1) Cons.prems(2) assms(4)]
  from mem(1) show ?case
  proof (cases rule: in_memory_resolve [where u = u and fault_in = fault_in])
    case absent
    then show ?thesis
      using Cons.prems by (simp add: resolve_cases)
  next
    case (present m)
    then show ?thesis
      using Cons.IH [of m "spine @ [(cur, u)]"] Cons.prems next_node_wf [OF assms(1,2) Cons.prems(1) present(2)]
      by (simp add: spine_path_snoc resolve_cases)
  qed
qed

lemma build_value_in_memory:
  assumes "label_ok L" "loader_ok L fault_in" "node_wf L cur" "all_in_memory L root" "spine_path L fault_in root spine cur"
    and "build_value_loop L Fault fault_in v spine cur key = Ok root'"
  shows "all_in_memory L root'"
  using assms(3,5,6)
proof (induction key arbitrary: spine cur)
  case Nil
  note mem = in_memory_spine [OF assms(1) Nil.prems(2) assms(4)]
  have "root' = unwind_spine L spine (with_value L (as_final L cur) v)"
    using Nil.prems(3) by simp
  then show ?case
    using in_memory_clones(3) [OF assms(1) node_wf_as_final [OF Nil.prems(1)]
        in_memory_clones(1) [OF assms(1) Nil.prems(1) mem(1)]] by (auto intro: mem(2))
next
  case (Cons u us)
  note mem = in_memory_spine [OF assms(1) Cons.prems(2) assms(4)]
  from mem(1) show ?case
  proof (cases rule: in_memory_resolve [where u = u and fault_in = fault_in])
    case absent
    have "all_in_memory L (with_value L (as_final L node_new) v)"
      by (rule in_memory_clones(3) [OF assms(1) final_leaf(1) [OF assms(1)] in_memory_leaf [OF assms(1)]])
    then have "all_in_memory L
        (with_child L cur u (InMem (fst (create_spine L us (with_value L (as_final L node_new) v)))))"
      using in_memory_with_child [OF assms(1) Cons.prems(1) mem(1)] in_memory_create_spine [OF assms(1)] by blast
    then show ?thesis
      using Cons.prems(3) absent mem(2) by (auto simp: resolve_cases Let_def create_spine_def)
  next
    case (present m)
    then show ?thesis
      using Cons.IH [of m "spine @ [(cur, u)]"] Cons.prems next_node_wf [OF assms(1,2) Cons.prems(1) present(2)]
      by (simp add: spine_path_snoc resolve_cases)
  qed
qed

subsection \<open>Publishing one key\<close>

definition entry_delta :: "'a option \<Rightarrow> 'a option \<Rightarrow> int" where
  "entry_delta old new =
     (if old = None \<and> new \<noteq> None then 1 else if old \<noteq> None \<and> new = None then - 1 else 0)"

lemma card_dom_update:
  assumes "finite (dom m)"
  shows "int (card (dom (m(k := x)))) = int (card (dom m)) + entry_delta (m k) x"
proof (cases x)
  case None
  show ?thesis
  proof (cases "k \<in> dom m")
    case True
    then have "0 < card (dom m)"
      using assms card_gt_0_iff by blast
    then show ?thesis
      using None True assms by (auto simp: entry_delta_def dom_fun_upd card_Diff_singleton)
  qed (use None in \<open>simp add: entry_delta_def dom_fun_upd domIff\<close>)
next
  case (Some v)
  then show ?thesis
    using assms by (auto simp: entry_delta_def dom_fun_upd card_insert_if domIff)
qed

lemma uint_word_of_int_u64: "0 \<le> n \<Longrightarrow> n < 2 ^ 64 \<Longrightarrow> uint (word_of_int n :: u64) = n"
  by (simp add: uint_word_of_int_eq take_bit_int_eq_self)

text \<open>A node that differs from the loaded root in one key.\<close>

definition updates :: "(u8, 'v) overlay_node \<Rightarrow> (u8, 'v) overlay_node \<Rightarrow> u8 list \<Rightarrow> 'v option option \<Rightarrow> bool" where
  "updates old new k x \<longleftrightarrow> node_wf u8_label new \<and> all_in_memory u8_label new \<and> root_map new = (root_map old)(k := x)"

lemma compare_exchange_spec:
  assumes "root_ok r" "updates (pr_node r) new k x" "card (dom (root_map (pr_node r))) < 2 ^ 64 - 1"
  shows "\<exists>slot. compare_exchange_revision_counted r r new (entry_delta (root_map (pr_node r) k) x) = Some (True, slot)
    \<and> root_ok slot \<and> pr_node slot = new \<and> pr_id slot = Suc (pr_id r)"
proof -
  let ?m = "root_map (pr_node r)"
  let ?n = "uint (pr_term_count r) + entry_delta (?m k) x"
  have m: "finite (dom ?m)" "uint (pr_term_count r) = int (card (dom ?m))"
    using assms(1) by (simp_all add: root_ok_def)
  then have n: "?n = int (card (dom (?m(k := x))))"
    using card_dom_update [OF m(1), of k x] by simp
  have "?n \<le> int (card (dom ?m)) + 1"
    using m(2) by (simp add: entry_delta_def)
  then have bound: "0 \<le> ?n" "?n < 2 ^ 64"
    using n assms(3) by simp_all
  then have "checked_add_signed (pr_term_count r) (entry_delta (?m k) x) = Some (word_of_int ?n)"
    by (simp add: checked_add_signed_def)
  moreover have "uint (word_of_int ?n :: u64) = ?n"
    using bound by (rule uint_word_of_int_u64)
  ultimately show ?thesis
    using assms(2) m(1) n by (simp add: compare_exchange_revision_counted_def updates_def root_ok_def)
qed

lemma final_path_spec:
  assumes "root_ok r" "loader_ok u8_label fault_in"
  shows "case build_final_path_iterative u8_label fault_in (pr_node r) key 0 of
      Inr n \<Rightarrow> root_map (pr_node r) key = None \<and> updates (pr_node r) n key (Some None)
    | Inl AlreadyExists \<Rightarrow> root_map (pr_node r) key \<noteq> None
    | Inl (Failure _) \<Rightarrow> False"
proof -
  have wf: "node_wf u8_label (pr_node r)" "all_in_memory u8_label (pr_node r)"
    using assms(1) by (simp_all add: root_ok_def)
  note path = in_memory_path [OF wf(2), of fault_in key]
  show ?thesis
    using build_final_loop_outcome [where spine = "[]" and cur = "pr_node r" and key = key and L = u8_label
        and fault_in = fault_in]
      build_final_loop_Ok [OF label_ok_instances(1) assms(2) wf(1), where spine = "[]" and root = "pr_node r" and key = key]
      build_final_in_memory [OF label_ok_instances(1) assms(2) wf, where spine = "[]" and key = key] path
    by (auto simp: build_final_path_iterative_def updates_def term_map_in_memory [where fault_in = fault_in] wf
        split: sum.splits durable_build_error.splits)
qed

lemma remove_path_spec:
  assumes "root_ok r" "loader_ok u8_label fault_in"
  shows "case build_remove_path_iterative u8_label fault_in (pr_node r) key 0 of
      Inr n \<Rightarrow> root_map (pr_node r) key \<noteq> None \<and> updates (pr_node r) n key None
    | Inl AlreadyExists \<Rightarrow> root_map (pr_node r) key = None
    | Inl (Failure _) \<Rightarrow> False"
proof -
  have wf: "node_wf u8_label (pr_node r)" "all_in_memory u8_label (pr_node r)"
    using assms(1) by (simp_all add: root_ok_def)
  note path = in_memory_path [OF wf(2), of fault_in key]
  show ?thesis
    using build_remove_loop_outcome [where spine = "[]" and cur = "pr_node r" and key = key and L = u8_label
        and fault_in = fault_in]
      build_remove_loop_Ok [OF label_ok_instances(1) assms(2) wf(1), where spine = "[]" and root = "pr_node r" and key = key]
      build_remove_in_memory [OF label_ok_instances(1) assms(2) wf, where spine = "[]" and key = key] path
    by (auto simp: build_remove_path_iterative_def updates_def term_map_in_memory [where fault_in = fault_in] wf
        split: sum.splits durable_build_error.splits)
qed

lemma value_path_spec:
  assumes "root_ok r" "loader_ok u8_label fault_in"
  shows "\<exists>n. build_value_path_iterative u8_label fault_in (pr_node r) key 0 v = Ok n
    \<and> updates (pr_node r) n key (Some (Some v))"
proof -
  have wf: "node_wf u8_label (pr_node r)" "all_in_memory u8_label (pr_node r)"
    using assms(1) by (simp_all add: root_ok_def)
  note path = in_memory_path [OF wf(2), of fault_in key]
  show ?thesis
    using build_value_loop_outcome [where spine = "[]" and cur = "pr_node r" and key = key and L = u8_label
        and fault_in = fault_in and v = v]
      build_value_loop_Ok [OF label_ok_instances(1) assms(2) wf(1), where spine = "[]" and root = "pr_node r" and key = key
        and v = v]
      build_value_in_memory [OF label_ok_instances(1) assms(2) wf, where spine = "[]" and key = key and v = v] path
    by (auto simp: build_value_path_iterative_def build_value_spine_def updates_def term_map_in_memory [where fault_in = fault_in] wf
        split: sum.splits)
qed

lemma root_clone_updates:
  assumes "root_ok r"
  shows "\<not> is_final (pr_node r) \<Longrightarrow> updates (pr_node r) (as_final u8_label (pr_node r)) [] (Some None)"
    and "updates (pr_node r) (as_non_final u8_label (pr_node r)) [] None"
    and "updates (pr_node r) (with_value u8_label (as_final u8_label (pr_node r)) v) [] (Some (Some v))"
  using assms
  by (simp_all add: root_ok_def updates_def term_map_clones node_wf_as_final node_wf_as_non_final node_wf_with_value
      node_simps in_memory_clones node_wf_nonfinal [where L = u8_label])

lemma root_map_Nil: "root_map n [] = (if is_final n then Some (get_value n) else None)"
  by simp

lemma find_leaf_root_map: "map_option get_value (find_leaf_iterative u8_label n key 0) = root_map n key"
  by (simp add: find_leaf_iterative_def find_leaf_from_map)

subsection \<open>Replay updates the map\<close>

abbreviation trie_map :: "'v overlay_trie \<Rightarrow> u8 list \<rightharpoonup> 'v option" where
  "trie_map t \<equiv> root_map (pr_node (lockfree_root t))"

definition room :: "'v overlay_trie \<Rightarrow> bool" where
  "room t \<longleftrightarrow> card (dom (trie_map t)) < 2 ^ 64 - 1"

lemma publish_spec:
  assumes "trie_ok t" "room t" "updates (pr_node (lockfree_root t)) new k x"
    "delta = entry_delta (trie_map t k) x"
  shows "\<exists>slot. publish t new delta = Some (t\<lparr> lockfree_root := slot \<rparr>) \<and> root_ok slot
    \<and> root_map (pr_node slot) = (trie_map t)(k := x)"
  using compare_exchange_spec [of "lockfree_root t" new k x] assms
  by (auto simp: trie_ok_def room_def publish_def updates_def)

lemma publish_root_cas_spec:
  assumes "trie_ok t" "room t" "needs (pr_node (lockfree_root t)) \<longrightarrow>
      updates (pr_node (lockfree_root t)) (transform (pr_node (lockfree_root t))) [] x
      \<and> x = root_map (transform (pr_node (lockfree_root t))) []"
    "\<not> needs (pr_node (lockfree_root t)) \<longrightarrow> x = trie_map t []"
  shows "\<exists>b t'. publish_root_cas transform needs t = Some (b, t') \<and> trie_ok t' \<and> trie_map t' = (trie_map t)([] := x)"
proof (cases "needs (pr_node (lockfree_root t))")
  case True
  let ?old = "pr_node (lockfree_root t)"
  have "finality_delta ?old (transform ?old) = entry_delta (trie_map t []) x"
    using assms(3) True by (auto simp: finality_delta_def entry_delta_def)
  then obtain slot where "publish t (transform ?old) (finality_delta ?old (transform ?old))
      = Some (t\<lparr> lockfree_root := slot \<rparr>)" "root_ok slot" "root_map (pr_node slot) = (trie_map t)([] := x)"
    using publish_spec [OF assms(1,2)] assms(3) True by blast
  then show ?thesis
    using True assms(1) by (auto simp: publish_root_cas_def trie_ok_def)
qed (use assms in \<open>auto simp: publish_root_cas_def simp del: term_map.simps\<close>)

lemma membership_any_spec:
  assumes "trie_ok t" "room t" "loader_ok u8_label fault_in"
  shows "\<exists>t'. overlay_publish_membership_any fault_in k t = Some t' \<and> trie_ok t'
    \<and> trie_map t' = (trie_map t)(k := case trie_map t k of None \<Rightarrow> Some None | Some v \<Rightarrow> Some v)"
proof (cases "k = []")
  case True
  have r: "root_ok (lockfree_root t)" using assms(1) by (simp add: trie_ok_def)
  show ?thesis
    using publish_root_cas_spec [OF assms(1,2), of "\<lambda>r. \<not> is_final r" "as_final u8_label"
        "case trie_map t [] of None \<Rightarrow> Some None | Some v \<Rightarrow> Some v"] root_clone_updates(1) [OF r] True r
    by (auto simp: overlay_publish_membership_any_def overlay_publish_root_membership_def node_simps root_ok_def
        node_wf_nonfinal [where L = u8_label])
next
  case False
  have r: "root_ok (lockfree_root t)" "lockfree_cache t \<subseteq> dom (trie_map t)" "[] \<notin> lockfree_cache t"
    using assms(1) by (simp_all add: trie_ok_def)
  show ?thesis
  proof (cases "trie_map t k")
    case None
    then obtain n where n: "build_final_path_iterative u8_label fault_in (pr_node (lockfree_root t)) k 0 = Ok n"
        "updates (pr_node (lockfree_root t)) n k (Some None)"
      using final_path_spec [OF r(1) assms(3), of k] by (auto split: sum.splits durable_build_error.splits)
    have "k \<notin> lockfree_cache t"
      using r(2) None by auto
    then show ?thesis
      using publish_spec [OF assms(1,2) n(2), of 1] r(2,3) None False n(1)
      by (auto simp: overlay_publish_membership_any_def insert_cas_def entry_delta_def trie_ok_def)
  next
    case (Some v)
    then have "build_final_path_iterative u8_label fault_in (pr_node (lockfree_root t)) k 0 = Err AlreadyExists"
      using final_path_spec [OF r(1) assms(3), of k] by (auto split: sum.splits durable_build_error.splits)
    then show ?thesis
      using r assms(1) False Some
      by (auto simp: overlay_publish_membership_any_def insert_cas_def trie_ok_def fun_upd_idem)
  qed
qed

lemma overlay_remove_spec:
  assumes "trie_ok t" "room t" "loader_ok u8_label fault_in"
  shows "\<exists>t'. overlay_remove fault_in k t = Some t' \<and> trie_ok t' \<and> trie_map t' = (trie_map t)(k := None)"
proof (cases "k = []")
  case True
  have r: "root_ok (lockfree_root t)" using assms(1) by (simp add: trie_ok_def)
  show ?thesis
    using publish_root_cas_spec [OF assms(1,2), of is_final "as_non_final u8_label" None]
      root_clone_updates(2) [OF r] True
    by (auto simp: overlay_remove_def node_simps)
next
  case False
  have r: "root_ok (lockfree_root t)" "lockfree_cache t \<subseteq> dom (trie_map t)" "[] \<notin> lockfree_cache t"
    using assms(1) by (simp_all add: trie_ok_def)
  show ?thesis
  proof (cases "trie_map t k")
    case None
    then have "build_remove_path_iterative u8_label fault_in (pr_node (lockfree_root t)) k 0 = Err AlreadyExists"
      using remove_path_spec [OF r(1) assms(3), of k] by (auto split: sum.splits durable_build_error.splits)
    then show ?thesis
      using r assms(1) False None
      by (auto simp: overlay_remove_def overlay_remove_no_wal_def trie_ok_def fun_upd_idem)
  next
    case (Some v)
    then obtain n where n: "build_remove_path_iterative u8_label fault_in (pr_node (lockfree_root t)) k 0 = Ok n"
        "updates (pr_node (lockfree_root t)) n k None"
      using remove_path_spec [OF r(1) assms(3), of k] by (auto split: sum.splits durable_build_error.splits)
    then show ?thesis
      using publish_spec [OF assms(1,2) n(2), of "- 1"] r(2,3) Some False
      by (auto simp: overlay_remove_def overlay_remove_no_wal_def entry_delta_def trie_ok_def)
  qed
qed

lemma value_any_spec:
  assumes "trie_ok t" "room t" "loader_ok u8_label fault_in"
  shows "\<exists>t'. overlay_publish_value_any fault_in k v t = Some (True, t') \<and> trie_ok t'
    \<and> trie_map t' = (trie_map t)(k \<mapsto> Some v)"
proof (cases "k = []")
  case True
  have r: "root_ok (lockfree_root t)" using assms(1) by (simp add: trie_ok_def)
  show ?thesis
    using publish_root_cas_spec [OF assms(1,2), of "\<lambda>_. True" "\<lambda>r. with_value u8_label (as_final u8_label r) v"
        "Some (Some v)"] root_clone_updates(3) [OF r, of v] True
    by (auto simp: overlay_publish_value_any_def overlay_publish_root_value_def node_simps)
next
  case False
  have r: "root_ok (lockfree_root t)" "lockfree_cache t \<subseteq> dom (trie_map t)" "[] \<notin> lockfree_cache t"
    using assms(1) by (simp_all add: trie_ok_def)
  obtain n where n: "build_value_path_iterative u8_label fault_in (pr_node (lockfree_root t)) k 0 v = Ok n"
      "updates (pr_node (lockfree_root t)) n k (Some (Some v))"
    using value_path_spec [OF r(1) assms(3)] by blast
  have "find_leaf_iterative u8_label (pr_node (lockfree_root t)) k 0 = None \<longleftrightarrow> trie_map t k = None"
    using find_leaf_root_map [of "pr_node (lockfree_root t)" k] by auto
  then show ?thesis
    using publish_spec [OF assms(1,2) n(2) refl] r(2,3) False n(1)
    by (auto simp: overlay_publish_value_any_def overlay_publish_value_def entry_delta_def trie_ok_def Let_def)
qed

lemma overlay_value_get_spec:
  assumes "trie_ok t"
  shows "overlay_value_get fault_in k t = (case trie_map t k of None \<Rightarrow> None | Some v \<Rightarrow> v)"
proof -
  have "all_in_memory u8_label (pr_node (lockfree_root t))"
    using assms by (simp add: trie_ok_def root_ok_def)
  from in_memory_path [OF this, of fault_in k] show ?thesis
    using walk_faulting_snapshot_spec [of u8_label fault_in "pr_node (lockfree_root t)" k]
    by (auto simp: overlay_value_get_def split: sum.splits option.splits)
qed

lemma publish_decoded_spec:
  assumes "trie_ok t" "room t" "loader_ok u8_label fault_in"
  shows "\<exists>ok t'. publish_decoded fault_in k decoded t = Some (ok, t') \<and> trie_ok t'
    \<and> trie_map t' = (trie_map t)(k := case decoded of None \<Rightarrow> trie_map t k | Some v \<Rightarrow> Some (Some v))"
  using value_any_spec [OF assms, of k "the decoded"] assms(1)
  by (cases decoded) (auto simp: publish_decoded_def simp del: term_map.simps)

lemma apply_recovered_spec:
  assumes "trie_ok t" "room t" "loader_ok u8_label fault_in"
  shows "\<exists>ok t'. apply_recovered_operation_overlay C fault_in op t = Some (ok, t') \<and> trie_ok t'
    \<and> trie_map t' = replay_map C op (trie_map t)"
proof (cases op)
  case (RInsert l k v)
  then show ?thesis
    using membership_any_spec [OF assms, of k] publish_decoded_spec [OF assms, of k]
    by (cases v) (auto simp: replay_map_def simp del: term_map.simps)
next
  case (RRemove l k)
  then show ?thesis
    using overlay_remove_spec [OF assms, of k] by (auto simp: replay_map_def simp del: term_map.simps)
next
  case (RIncrement l k d result)
  then show ?thesis
    using publish_decoded_spec [OF assms, of k] overlay_value_get_spec [OF assms(1), of fault_in k] assms(1)
    by (cases result) (auto simp: replay_map_def simp del: term_map.simps)
next
  case (RUpsert l k v)
  then show ?thesis
    using publish_decoded_spec [OF assms, of k] by (auto simp: replay_map_def simp del: term_map.simps)
next
  case (RCompareAndSwap l k v s)
  then show ?thesis
    using publish_decoded_spec [OF assms, of k] assms(1) by (auto simp: replay_map_def simp del: term_map.simps)
qed

lemma replay_map_card:
  assumes "finite (dom m)"
  shows "finite (dom (replay_map C op m)) \<and> card (dom (replay_map C op m)) \<le> Suc (card (dom m))"
proof -
  have sub: "dom (replay_map C op m) \<subseteq> insert (op_term op) (dom m)"
    by (auto simp: replay_map_def split: if_splits)
  then have "finite (dom (replay_map C op m))"
    using assms finite_subset by blast
  moreover have "card (dom (replay_map C op m)) \<le> card (insert (op_term op) (dom m))"
    using assms sub by (intro card_mono) auto
  ultimately show ?thesis
    using card_insert_le_m1 [of "Suc (card (dom m))" "dom m" "op_term op"] assms by (simp add: card_insert_if split: if_splits)
qed

lemma drain_winners_spec:
  assumes "trie_ok t" "loader_ok u8_label fault_in" "card (dom (trie_map t)) + length ops < 2 ^ 64"
  shows "\<exists>n t'. drain_winners C fault_in ops (k, t) = Some (n, t') \<and> trie_ok t'
    \<and> trie_map t' = fold (replay_map C) ops (trie_map t)"
  using assms
proof (induction ops arbitrary: k t)
  case (Cons op ops)
  have "room t"
    using Cons.prems(3) by (simp add: room_def)
  from apply_recovered_spec [OF Cons.prems(1) this Cons.prems(2)] obtain ok t'
    where t': "apply_recovered_operation_overlay C fault_in op t = Some (ok, t')" "trie_ok t'"
      "trie_map t' = replay_map C op (trie_map t)" by blast
  have "finite (dom (trie_map t))"
    using Cons.prems(1) by (simp add: trie_ok_def root_ok_def)
  from replay_map_card [OF this, of C op] have "card (dom (trie_map t')) + length ops < 2 ^ 64"
    using Cons.prems(3) t'(3) by simp
  from Cons.IH [OF t'(2) Cons.prems(2) this] show ?case
    using t'(1,3) by simp
qed simp

lemma contains_lockfree_spec:
  assumes "root_ok (lockfree_root t)" "lockfree_cache t \<subseteq> dom (trie_map t)"
  shows "contains_lockfree fault_in k t \<longleftrightarrow> trie_map t k \<noteq> None"
proof -
  have "all_in_memory u8_label (pr_node (lockfree_root t))"
    using assms(1) by (simp add: root_ok_def)
  from in_memory_path [OF this, of fault_in k] show ?thesis
    using walk_faulting_snapshot_spec [of u8_label fault_in "pr_node (lockfree_root t)" k] assms(2)
    by (cases "trie_map t k") (auto simp: contains_lockfree_def simp del: term_map.simps split: sum.splits)
qed

lemma trie_ok_install [simp]: "trie_ok install_overlay" "trie_map install_overlay = Map.empty"
  by (simp_all add: trie_ok_def root_ok_def install_overlay_def)

text \<open>
  C33: Replaying recovered operations refines updating a map.  On a trie whose
  nodes are in memory, draining any list of operations succeeds without a panic;
  the trie then denotes the map obtained by applying the operations one after
  the other, each to the entry of its own key, where one whose value does not
  decode or whose counter leaves its range is skipped and the following ones still
  apply; the published term count is the
  number of keys; and both read paths, the lookup cache included, answer from
  that map.
\<close>

theorem replay_refines_map:
  assumes "trie_ok t" "loader_ok u8_label fault_in" "card (dom (trie_map t)) + length ops < 2 ^ 64"
  shows "\<exists>n t'. drain_winners C fault_in ops (0, t) = Some (n, t')
    \<and> trie_map t' = fold (replay_map C) ops (trie_map t)
    \<and> uint (pr_term_count (lockfree_root t')) = int (card (dom (trie_map t')))
    \<and> (\<forall>k. contains_lockfree fault_in k t' = (trie_map t' k \<noteq> None)
         \<and> overlay_value_get fault_in k t' = (case trie_map t' k of None \<Rightarrow> None | Some v \<Rightarrow> v))"
  using drain_winners_spec [OF assms, of C 0] overlay_value_get_spec contains_lockfree_spec
  by (fastforce simp: trie_ok_def root_ok_def simp del: term_map.simps)

text \<open>The fixed-width little-endian image of a counter.\<close>

definition u64_codec :: "u64 value_codec" where
  "u64_codec = \<lparr> vc_type = U64Value, vc_serialize = Some \<circ> u64_to_le_bytes,
     vc_deserialize = (\<lambda>bytes. if length bytes = 8 then Some (u64_from_le_bytes bytes) else None) \<rparr>"

theorem replay_refines_map_witness:
  "\<exists>n t'. drain_winners u64_codec no_disk [RInsert 1 [99] None, RIncrement 2 [97] 5 None] (0, install_overlay)
      = Some (n, t')
    \<and> contains_lockfree no_disk [99] t' \<and> overlay_value_get no_disk [97] t' = Some 5
    \<and> \<not> contains_lockfree no_disk [] t'"
proof -
  have "replay_delta u64_codec None 5 = Some 5"
    by code_simp
  then show ?thesis
    using replay_refines_map [of install_overlay no_disk "[RInsert 1 [99] None, RIncrement 2 [97] 5 None]" u64_codec]
    by (auto simp: replay_map_def simp del: term_map.simps)
qed

end
