(* ===== verification/Wal_Segment.thy ===== *)
theory Wal_Segment
  imports Wal_Frame
begin

text \<open>
  Lock-free appends to the log file (\<open>append_record_segment\<close> and
  \<open>write_record_segment_at_lsn\<close> of \<open>core/wal/writer.rs\<close>).  An appender takes an
  LSN and then, in a second atomic operation, a file offset; it writes its frame
  at that offset, marks its LSN durable and waits until all lower LSNs are.
  Bytes between the written frames read as zero.  A run is any interleaving of
  the appenders' steps, with writes that may fail.  The positional write and its
  \<open>sync_data\<close> are one step; a failed one leaves the file as it was.

  The lemmas show that a file in which every placed frame has been written reads
  back as the records in the order of their offsets, and that an acknowledged
  record can lie behind a hole left by an appender with a higher LSN.
\<close>

record segment_writer =
  sw_writer :: wal_writer
  sw_next_offset :: nat

definition write_all_at :: "byte list \<Rightarrow> nat \<Rightarrow> byte list \<Rightarrow> byte list" where
  "write_all_at frame offset file =
     take offset (file @ replicate (offset - length file) 0) @ frame @ drop (offset + length frame) file"

text \<open>Where an appender is.\<close>

datatype appender =
    Idle wal_record
  | Reserved lsn wal_record
  | Placed lsn wal_record nat
  | Written lsn wal_record
  | Waiting lsn wal_record
  | Acked lsn wal_record
  | WriteFailed lsn wal_record nat
  | WaitFailed lsn wal_record wal_error

fun append_record_segment_step :: "segment_writer \<Rightarrow> appender \<Rightarrow> segment_writer \<times> appender" where
  "append_record_segment_step w (Idle r) =
     (let (lsn, ww) = allocate_lsn (sw_writer w) in (w\<lparr> sw_writer := ww \<rparr>, Reserved lsn r))"
| "append_record_segment_step w (Reserved lsn r) =
     (w\<lparr> sw_next_offset := sw_next_offset w + length (encode_record_frame lsn r) \<rparr>,
      Placed lsn r (sw_next_offset w))"
| "append_record_segment_step w (Placed lsn r offset) =
     (let ww = sw_writer w;
          file = write_all_at (encode_record_frame lsn r) offset (ww_file ww)
      in (w\<lparr> sw_writer := ww\<lparr> ww_file := file \<rparr> \<rparr>, Written lsn r))"
| "append_record_segment_step w (Written lsn r) =
     (w\<lparr> sw_writer := mark_segment_durable lsn (sw_writer w) \<rparr>, Waiting lsn r)"
| "append_record_segment_step w (Waiting lsn r) =
     (case wait_for_segment_durable_lsn_poll lsn (sw_writer w) of
        None \<Rightarrow> (w, Waiting lsn r)
      | Some (Inr _) \<Rightarrow> (w, Acked lsn r)
      | Some (Inl e) \<Rightarrow> (w, WaitFailed lsn r e))"
| "append_record_segment_step w a = (w, a)"

text \<open>The appenders over one writer; \<open>sm_placed\<close> records the frames in the order
  in which offsets were handed out.\<close>

record segment_machine =
  sm_writer :: segment_writer
  sm_appenders :: "nat \<rightharpoonup> appender"
  sm_placed :: "(lsn \<times> wal_record) list"

fun placed_by :: "appender \<Rightarrow> (lsn \<times> wal_record) list" where
  "placed_by (Reserved lsn r) = [(lsn, r)]"
| "placed_by _ = []"

definition run_appender :: "nat \<Rightarrow> segment_machine \<Rightarrow> segment_machine" where
  "run_appender tid m =
     (case sm_appenders m tid of
        None \<Rightarrow> m
      | Some a \<Rightarrow>
          let (w, a') = append_record_segment_step (sm_writer m) a
          in \<lparr> sm_writer = w, sm_appenders = (sm_appenders m)(tid \<mapsto> a'),
               sm_placed = sm_placed m @ placed_by a \<rparr>)"

definition spawn_appender :: "nat \<Rightarrow> wal_record \<Rightarrow> segment_machine \<Rightarrow> segment_machine" where
  "spawn_appender tid r m = m\<lparr> sm_appenders := (sm_appenders m)(tid \<mapsto> Idle r) \<rparr>"

inductive segment_machine_step :: "segment_machine \<Rightarrow> segment_machine \<Rightarrow> bool" where
  spawn: "sm_appenders m tid = None \<Longrightarrow> segment_machine_step m (spawn_appender tid r m)"
| run: "segment_machine_step m (run_appender tid m)"
| write_error: "sm_appenders m tid = Some (Placed lsn r offset) \<Longrightarrow>
    segment_machine_step m
      (m\<lparr> sm_writer := (sm_writer m)\<lparr> sw_writer := mark_segment_failed lsn (sw_writer (sm_writer m)) \<rparr>,
         sm_appenders := (sm_appenders m)(tid \<mapsto> WriteFailed lsn r offset) \<rparr>)"

definition segment_init :: segment_machine where
  "segment_init = \<lparr> sm_writer = \<lparr> sw_writer = \<lparr> ww_file = [], ww_next_lsn = 1, ww_segment_durable_lsn = 0,
       ww_segment_durable_pending = {}, ww_segment_failed_lsn = - 1 \<rparr>, sw_next_offset = 0 \<rparr>,
     sm_appenders = Map.empty, sm_placed = [] \<rparr>"

abbreviation segment_reachable :: "segment_machine \<Rightarrow> bool" where
  "segment_reachable m \<equiv> segment_machine_step\<^sup>*\<^sup>* segment_init m"

abbreviation segment_file :: "segment_machine \<Rightarrow> byte list" where
  "segment_file m \<equiv> ww_file (sw_writer (sm_writer m))"

text \<open>The bytes an appender still owes to the file.\<close>

fun owed :: "appender \<Rightarrow> (nat \<times> byte list) option" where
  "owed (Placed lsn r offset) = Some (offset, encode_record_frame lsn r)"
| "owed (WriteFailed lsn r offset) = Some (offset, encode_record_frame lsn r)"
| "owed _ = None"

fun delivered :: "appender \<Rightarrow> (lsn \<times> wal_record) option" where
  "delivered (Placed lsn r _) = Some (lsn, r)"
| "delivered (Written lsn r) = Some (lsn, r)"
| "delivered (Waiting lsn r) = Some (lsn, r)"
| "delivered (Acked lsn r) = Some (lsn, r)"
| "delivered (WaitFailed lsn r _) = Some (lsn, r)"
| "delivered _ = None"

definition owes :: "segment_machine \<Rightarrow> nat \<rightharpoonup> nat \<times> byte list" where
  "owes m tid = (case sm_appenders m tid of None \<Rightarrow> None | Some a \<Rightarrow> owed a)"

definition owed_at :: "segment_machine \<Rightarrow> nat \<Rightarrow> bool" where
  "owed_at m j \<longleftrightarrow> (\<exists>(offset, frame)\<in>ran (owes m). offset \<le> j \<and> j < offset + length frame)"

definition segment_machine_inv :: "segment_machine \<Rightarrow> bool" where
  "segment_machine_inv m \<longleftrightarrow>
     sw_next_offset (sm_writer m) = length (log_bytes (sm_placed m))
     \<and> length (segment_file m) \<le> length (log_bytes (sm_placed m))
     \<and> (\<forall>j < length (log_bytes (sm_placed m)). \<not> owed_at m j \<longrightarrow>
          j < length (segment_file m) \<and> segment_file m ! j = log_bytes (sm_placed m) ! j)
     \<and> (\<forall>(offset, frame)\<in>ran (owes m).
          offset + length frame \<le> length (log_bytes (sm_placed m))
          \<and> take (length frame) (drop offset (log_bytes (sm_placed m))) = frame)
     \<and> (\<forall>a\<in>ran (sm_appenders m). \<forall>lr. delivered a = Some lr \<longrightarrow> lr \<in> set (sm_placed m))"

lemma nth_write_all_at:
  "j < length (write_all_at frame offset file) \<Longrightarrow>
   write_all_at frame offset file ! j =
     (if offset \<le> j \<and> j < offset + length frame then frame ! (j - offset)
      else if j < length file then file ! j else 0)"
  by (cases "length file \<le> offset") (auto simp: write_all_at_def nth_append min_def)

lemma length_write_all_at:
  "length (write_all_at frame offset file) = max (length file) (offset + length frame)"
  by (auto simp: write_all_at_def)

lemma owes_update:
  "sm_appenders m' = (sm_appenders m)(tid \<mapsto> a') \<Longrightarrow> owes m' = (owes m)(tid := owed a')"
  by (auto simp: owes_def fun_eq_iff)

lemma ran_update: "ran (f(t := x)) \<subseteq> ran f \<union> set_option x"
  by (auto simp: ran_def split: if_splits)

lemma ran_before_update: "e \<in> ran f \<Longrightarrow> e \<in> ran (f(t := x)) \<or> f t = Some e"
  by (auto simp: ran_def)

lemma owed_at_update:
  assumes "owes m' = (owes m)(tid := x)" "owed_at m j"
  shows "owed_at m' j \<or> (\<exists>offset frame. owes m tid = Some (offset, frame) \<and> offset \<le> j \<and> j < offset + length frame)"
proof -
  obtain offset frame where e: "(offset, frame) \<in> ran (owes m)" "offset \<le> j" "j < offset + length frame"
    using assms(2) by (auto simp: owed_at_def)
  show ?thesis
    using ran_before_update [OF e(1), of tid x] e(2,3) by (auto simp: owed_at_def assms(1))
qed

lemma segment_invD:
  assumes "segment_machine_inv m"
  shows "owes m tid = Some (offset, frame) \<Longrightarrow> offset + length frame \<le> length (log_bytes (sm_placed m))"
    and "owes m tid = Some (offset, frame) \<Longrightarrow> take (length frame) (drop offset (log_bytes (sm_placed m))) = frame"
    and "sm_appenders m tid = Some a \<Longrightarrow> delivered a = Some lr \<Longrightarrow> lr \<in> set (sm_placed m)"
proof -
  have owed: "\<forall>(offset, frame)\<in>ran (owes m). offset + length frame \<le> length (log_bytes (sm_placed m))
      \<and> take (length frame) (drop offset (log_bytes (sm_placed m))) = frame"
    using assms unfolding segment_machine_inv_def by (elim conjE)
  have deliv: "\<forall>a\<in>ran (sm_appenders m). \<forall>lr. delivered a = Some lr \<longrightarrow> lr \<in> set (sm_placed m)"
    using assms unfolding segment_machine_inv_def by (elim conjE)
  show "offset + length frame \<le> length (log_bytes (sm_placed m))"
    "take (length frame) (drop offset (log_bytes (sm_placed m))) = frame"
    if "owes m tid = Some (offset, frame)"
    using bspec [OF owed ranI [of "owes m" tid, OF that]] by simp_all
  show "lr \<in> set (sm_placed m)" if "sm_appenders m tid = Some a" "delivered a = Some lr"
    using bspec [OF deliv ranI [of "sm_appenders m" tid, OF that(1)]] that(2) by simp
qed

lemma delivered_update:
  assumes "\<forall>a\<in>ran f. \<forall>lr. delivered a = Some lr \<longrightarrow> lr \<in> S" "\<forall>lr. delivered a' = Some lr \<longrightarrow> lr \<in> S"
  shows "\<forall>a\<in>ran (f(tid \<mapsto> a')). \<forall>lr. delivered a = Some lr \<longrightarrow> lr \<in> S"
  using ran_update [of f tid "Some a'"] assms by blast

text \<open>A step that leaves the file, the offsets and the owed bytes alone.\<close>

lemma segment_inv_quiet:
  assumes inv: "segment_machine_inv m" and m': "sm_appenders m' = (sm_appenders m)(tid \<mapsto> a')"
      "sm_placed m' = sm_placed m" "segment_file m' = segment_file m"
      "sw_next_offset (sm_writer m') = sw_next_offset (sm_writer m)"
    and a: "owed a' = owes m tid" "\<forall>lr. delivered a' = Some lr \<longrightarrow> lr \<in> set (sm_placed m)"
  shows "segment_machine_inv m'"
proof -
  have "owes m' = owes m"
    using owes_update [OF m'(1)] a(1) by (simp add: fun_upd_idem)
  moreover have "\<forall>a\<in>ran (sm_appenders m'). \<forall>lr. delivered a = Some lr \<longrightarrow> lr \<in> set (sm_placed m)"
    unfolding m'(1) by (rule delivered_update) (use inv a(2) in \<open>simp_all add: segment_machine_inv_def\<close>)
  ultimately show ?thesis
    using inv by (simp add: segment_machine_inv_def owed_at_def m')
qed

lemma segment_inv_place:
  assumes inv: "segment_machine_inv m" and a: "sm_appenders m tid = Some (Reserved lsn r)"
  shows "segment_machine_inv (run_appender tid m)"
proof -
  let ?P = "sm_placed m" and ?f = "encode_record_frame lsn r"
  let ?m' = "run_appender tid m" and ?new = "(length (log_bytes ?P), encode_record_frame lsn r)"
  have m': "sm_placed ?m' = ?P @ [(lsn, r)]" "segment_file ?m' = segment_file m"
    "sw_next_offset (sm_writer ?m') = length (log_bytes (?P @ [(lsn, r)]))"
    "sm_appenders ?m' = (sm_appenders m)(tid \<mapsto> Placed lsn r (length (log_bytes ?P)))"
    using assms by (simp_all add: run_appender_def segment_machine_inv_def)
  have owes: "owes ?m' = (owes m)(tid \<mapsto> ?new)" "owes m tid = None"
    using owes_update [OF m'(4)] a by (simp_all add: owes_def)
  note inv' = inv [unfolded segment_machine_inv_def]
  show ?thesis
    unfolding segment_machine_inv_def m'(1,2,3)
  proof (intro conjI allI impI ballI)
    fix j
    assume j: "j < length (log_bytes (?P @ [(lsn, r)]))" "\<not> owed_at ?m' j"
    have "?new \<in> ran (owes ?m')"
      by (rule ranI [where a = tid]) (simp add: owes(1))
    then have "\<not> (length (log_bytes ?P) \<le> j \<and> j < length (log_bytes ?P) + length ?f)"
      using j(2) by (auto simp: owed_at_def)
    moreover have "\<not> owed_at m j"
      using j(2) owed_at_update [OF owes(1), of j] by (auto simp: owes(2))
    ultimately show "j < length (segment_file m)" "segment_file m ! j = log_bytes (?P @ [(lsn, r)]) ! j"
      using j(1) inv' by (auto simp: nth_append)
  next
    fix e
    assume "e \<in> ran (owes ?m')"
    then have "e \<in> ran (owes m) \<or> e = ?new"
      using ran_update [of "owes m" tid "Some ?new"] by (auto simp: owes(1))
    then show "case e of (offset, frame) \<Rightarrow> offset + length frame \<le> length (log_bytes (?P @ [(lsn, r)]))
        \<and> take (length frame) (drop offset (log_bytes (?P @ [(lsn, r)]))) = frame"
      using inv' by fastforce
  next
    have "\<forall>a\<in>ran (sm_appenders ?m'). \<forall>lr. delivered a = Some lr \<longrightarrow> lr \<in> set (?P @ [(lsn, r)])"
      unfolding m'(4) by (rule delivered_update) (use inv' in auto)
    then show "\<And>a lr. a \<in> ran (sm_appenders ?m') \<Longrightarrow> delivered a = Some lr \<Longrightarrow> lr \<in> set (?P @ [(lsn, r)])"
      by blast
  qed (use inv' in simp_all)
qed

lemma segment_inv_write:
  assumes inv: "segment_machine_inv m" and a: "sm_appenders m tid = Some (Placed lsn r offset)"
  shows "segment_machine_inv (run_appender tid m)"
proof -
  let ?L = "log_bytes (sm_placed m)" and ?f = "encode_record_frame lsn r"
  let ?m' = "run_appender tid m"
  have m': "sm_placed ?m' = sm_placed m" "segment_file ?m' = write_all_at ?f offset (segment_file m)"
    "sw_next_offset (sm_writer ?m') = sw_next_offset (sm_writer m)"
    "sm_appenders ?m' = (sm_appenders m)(tid \<mapsto> Written lsn r)"
    using assms by (simp_all add: run_appender_def Let_def)
  have owes: "owes ?m' = (owes m)(tid := None)" "owes m tid = Some (offset, ?f)"
    using owes_update [OF m'(4)] a by (simp_all add: owes_def)
  note inv' = inv [unfolded segment_machine_inv_def]
  have frame: "offset + length ?f \<le> length ?L" "take (length ?f) (drop offset ?L) = ?f"
    using segment_invD(1,2) [OF inv owes(2)] by simp_all
  have nth: "?f ! (j - offset) = ?L ! j" if "offset \<le> j" "j < offset + length ?f" for j
    using that frame(1) arg_cong [OF frame(2), of "\<lambda>xs. xs ! (j - offset)"] by simp
  show ?thesis
    unfolding segment_machine_inv_def m'(1,2,3)
  proof (intro conjI allI impI ballI)
    fix j
    assume j: "j < length ?L" "\<not> owed_at ?m' j"
    then have or: "offset \<le> j \<and> j < offset + length ?f \<or> j < length (segment_file m) \<and> segment_file m ! j = ?L ! j"
      using owed_at_update [OF owes(1), of j] inv' by (auto simp: owes(2))
    then show len: "j < length (write_all_at ?f offset (segment_file m))"
      by (auto simp: length_write_all_at)
    show "write_all_at ?f offset (segment_file m) ! j = ?L ! j"
      using or nth [of j] by (auto simp: nth_write_all_at [OF len])
  next
    fix e
    assume "e \<in> ran (owes ?m')"
    then show "case e of (off, frame) \<Rightarrow> off + length frame \<le> length ?L \<and> take (length frame) (drop off ?L) = frame"
      using inv' ran_update [of "owes m" tid None] by (auto simp: owes(1))
  next
    have "\<forall>a\<in>ran (sm_appenders ?m'). \<forall>lr. delivered a = Some lr \<longrightarrow> lr \<in> set (sm_placed m)"
      unfolding m'(4) by (rule delivered_update) (use inv' segment_invD(3) [OF inv a] in auto)
    then show "\<And>a lr. a \<in> ran (sm_appenders ?m') \<Longrightarrow> delivered a = Some lr \<Longrightarrow> lr \<in> set (sm_placed m)"
      by blast
  qed (use inv' frame(1) in \<open>simp_all add: length_write_all_at\<close>)
qed

lemma run_appender_done:
  "sm_appenders m tid = Some a \<Longrightarrow> append_record_segment_step (sm_writer m) a = (sm_writer m, a) \<Longrightarrow>
   placed_by a = [] \<Longrightarrow> run_appender tid m = m"
  by (cases m) (simp add: run_appender_def fun_upd_idem)

lemma segment_inv_run:
  assumes inv: "segment_machine_inv m"
  shows "segment_machine_inv (run_appender tid m)"
proof (cases "sm_appenders m tid")
  case (Some a)
  note deliv = segment_invD(3) [OF inv Some]
  show ?thesis
  proof (cases a)
    case (Reserved lsn r)
    then show ?thesis using segment_inv_place [OF inv] Some by simp
  next
    case (Placed lsn r offset)
    then show ?thesis using segment_inv_write [OF inv] Some by simp
  next
    case (Waiting lsn r)
    define a' where "a' = snd (append_record_segment_step (sm_writer m) a)"
    have "append_record_segment_step (sm_writer m) a = (sm_writer m, a')" "owed a' = None"
        "delivered a' = delivered a"
      unfolding a'_def using Waiting by (auto split: option.split sum.split)
    then show ?thesis
      using Some Waiting deliv by (intro segment_inv_quiet [OF inv, where tid = tid and a' = a'])
        (simp_all add: run_appender_def owes_def)
  next
    case (Idle r)
    then show ?thesis
      using Some by (intro segment_inv_quiet [OF inv, where tid = tid and a' = "Reserved (ww_next_lsn (sw_writer (sm_writer m))) r"])
        (simp_all add: run_appender_def allocate_lsn_def owes_def)
  next
    case (Written lsn r)
    then show ?thesis
      using Some deliv by (intro segment_inv_quiet [OF inv, where tid = tid and a' = "Waiting lsn r"])
        (simp_all add: run_appender_def mark_segment_durable_def owes_def split: prod.split)
  qed (use inv run_appender_done [OF Some] in simp_all)
qed (use inv in \<open>simp add: run_appender_def\<close>)

lemma segment_inv_step: "segment_machine_step m m' \<Longrightarrow> segment_machine_inv m \<Longrightarrow> segment_machine_inv m'"
proof (induction rule: segment_machine_step.induct)
  case (spawn m tid r)
  then show ?case
    by (intro segment_inv_quiet [OF spawn.prems, where tid = tid and a' = "Idle r"]) (simp_all add: spawn_appender_def owes_def)
next
  case (run m tid)
  then show ?case by (rule segment_inv_run)
next
  case (write_error m tid lsn r offset)
  then show ?case
    by (intro segment_inv_quiet [OF write_error.prems, where tid = tid and a' = "WriteFailed lsn r offset"])
      (simp_all add: mark_segment_failed_def owes_def)
qed

lemma segment_inv_reachable: "segment_reachable m \<Longrightarrow> segment_machine_inv m"
proof (induction rule: rtranclp_induct)
  case base
  have "owes segment_init = Map.empty"
    by (simp add: owes_def segment_init_def fun_eq_iff)
  then show ?case
    unfolding segment_machine_inv_def by (simp add: segment_init_def)
qed (rule segment_inv_step)

lemma segment_inv_reads:
  assumes inv: "segment_machine_inv m" and "owes m = Map.empty" "\<forall>lr\<in>set (sm_placed m). frame_ok lr"
  shows "read_records (segment_file m) = (sm_placed m, EndOfLog)"
proof -
  have "\<not> owed_at m j" for j
    using assms(2) by (simp add: owed_at_def)
  then have agree: "j < length (log_bytes (sm_placed m)) \<Longrightarrow>
      j < length (segment_file m) \<and> segment_file m ! j = log_bytes (sm_placed m) ! j" for j
    using inv by (simp add: segment_machine_inv_def)
  then have "length (segment_file m) = length (log_bytes (sm_placed m))"
    using inv by (metis le_neq_implies_less less_irrefl segment_machine_inv_def)
  then have "segment_file m = log_bytes (sm_placed m)"
    using agree by (intro nth_equalityI) simp_all
  then show ?thesis
    using read_records_all [OF assms(3)] by simp
qed

text \<open>
  C34: However lock-free appends interleave, once every frame that was given a
  place in the file has been written, reading the file returns exactly the
  placed records in the order of their offsets and ends cleanly, and every
  acknowledged append is among them.
\<close>

theorem segment_reads_back:
  assumes "segment_reachable m" "owes m = Map.empty" "\<forall>lr\<in>set (sm_placed m). frame_ok lr"
  shows "read_records (segment_file m) = (sm_placed m, EndOfLog)
    \<and> (\<forall>tid lsn r. sm_appenders m tid = Some (Acked lsn r) \<longrightarrow> (lsn, r) \<in> set (sm_placed m))"
proof -
  note inv = segment_inv_reachable [OF assms(1)]
  show ?thesis
    using segment_inv_reads [OF inv assms(2,3)] segment_invD(3) [OF inv, where a = "Acked lsn r" for lsn r] by simp
qed

lemma reach_spawn:
  "segment_reachable m \<Longrightarrow> sm_appenders m tid = None \<Longrightarrow> segment_reachable (spawn_appender tid r m)"
  by (erule rtranclp.rtrancl_into_rtrancl) (rule segment_machine_step.spawn)

lemma reach_run: "segment_reachable m \<Longrightarrow> segment_reachable (run_appender tid m)"
  by (erule rtranclp.rtrancl_into_rtrancl) (rule segment_machine_step.run)

theorem segment_reads_back_witness:
  "read_records (segment_file (run_appender 0 (run_appender 0 (run_appender 0 (spawn_appender 0 (Remove [7]) segment_init)))))
     = ([(1, Remove [7])], EndOfLog)"
proof -
  let ?m = "run_appender 0 (run_appender 0 (run_appender 0 (spawn_appender 0 (Remove [7]) segment_init)))"
  have "segment_reachable ?m"
    by (intro reach_run reach_spawn) (simp_all add: segment_init_def)
  moreover have "sm_appenders ?m = [0 \<mapsto> Written 1 (Remove [7])]" "sm_placed ?m = [(1, Remove [7])]"
    by (simp_all add: run_appender_def spawn_appender_def segment_init_def allocate_lsn_def Let_def)
  moreover from this have "owes ?m = Map.empty"
    by (simp add: owes_def fun_eq_iff)
  ultimately show ?thesis
    using segment_reads_back [of ?m]
    by (simp add: frame_ok_def serialized_size_def RECORD_HEADER_SIZE_def short_def)
qed

lemma read_hole:
  assumes "17 \<le> n"
  shows "fst (read_records (replicate n 0 @ rest)) = []"
proof -
  have "take 17 (replicate n (0 :: byte) @ rest) = replicate 17 0"
    using assms by (simp add: min_def)
  then have "fst (next_record (replicate n 0 @ rest)) = Some (Err (CorruptedRecord ''Record length too small''))"
    using assms by (simp add: next_record_def RECORD_HEADER_SIZE_def Let_def slice_def u32_from_le_bytes_def)
  then show ?thesis
    by (cases "next_record (replicate n 0 @ rest)") (simp add: read_records.simps [of "replicate n 0 @ rest"])
qed

text \<open>
  C35: An acknowledged append can be lost in a crash.  LSNs and file offsets are
  handed out by two separate counters, and an append is acknowledged as soon as
  all lower LSNs are durable: an appender may take LSN 2 and the first offset,
  another LSN 1 and the second offset; the latter writes, is durable and is
  acknowledged while the former has not written yet.  If the process stops
  there, the file starts with a hole and the reader returns no record at all.
\<close>

theorem acked_record_behind_hole:
  "\<exists>m. segment_reachable m \<and> sm_appenders m 0 = Some (Acked 1 r1) \<and> sm_appenders m 1 = Some (Placed 2 r2 0)
     \<and> sm_placed m = [(2, r2), (1, r1)] \<and> fst (read_records (segment_file m)) = []"
proof -
  define m0 where "m0 = run_appender 1 (run_appender 0 (spawn_appender 1 r2 (spawn_appender 0 r1 segment_init)))"
  define m1 where "m1 = run_appender 0 (run_appender 0 (run_appender 1 m0))"
  define m2 where "m2 = run_appender 0 (run_appender 0 m1)"
  have "segment_reachable m2"
    unfolding m2_def m1_def m0_def
    by (intro reach_run reach_spawn) (simp_all add: segment_init_def spawn_appender_def)
  have m1: "sm_appenders m1 = [0 \<mapsto> Written 1 r1, 1 \<mapsto> Placed 2 r2 0]" "sm_placed m1 = [(2, r2), (1, r1)]"
    "segment_file m1 = replicate (length (encode_record_frame 2 r2)) 0 @ encode_record_frame 1 r1"
    "ww_segment_durable_lsn (sw_writer (sm_writer m1)) = 0" "ww_segment_durable_pending (sw_writer (sm_writer m1)) = {}"
    by (simp_all add: m1_def m0_def run_appender_def spawn_appender_def segment_init_def allocate_lsn_def Let_def
        write_all_at_def fun_upd_twist)
  have "drain_pending 0 {1} = (1, {})"
    by (simp add: drain_pending.simps [of 0] drain_pending.simps [of 1])
  then have m2: "sm_appenders m2 = [0 \<mapsto> Acked 1 r1, 1 \<mapsto> Placed 2 r2 0]" "sm_placed m2 = [(2, r2), (1, r1)]"
    "segment_file m2 = segment_file m1"
    using m1 by (simp_all add: m2_def run_appender_def mark_segment_durable_def
        wait_for_segment_durable_lsn_poll_def fun_upd_twist)
  have "17 \<le> length (encode_record_frame 2 r2)"
    by (simp add: length_encode_record_frame serialized_size_def RECORD_HEADER_SIZE_def)
  then have "fst (read_records (segment_file m2)) = []"
    using read_hole by (simp add: m2(3) m1(3))
  then show ?thesis
    using \<open>segment_reachable m2\<close> m2(1,2) by (intro exI [of _ m2]) simp
qed

end
