(* ===== verification/Wal_Crash.thy ===== *)
theory Wal_Crash
  imports Wal_Segment
begin

text \<open>
  What a crash leaves of a log written by lock-free appends.  A frame that has a place
  but is not written is a hole of zero bytes between frame boundaries, so a reader
  of the file, cut after any byte, returns the leading records whose frames are
  completely written and stops there.
\<close>

subsection \<open>Frames and their places\<close>

abbreviation frame_start :: "(lsn \<times> wal_record) list \<Rightarrow> nat \<Rightarrow> nat" where
  "frame_start P k \<equiv> length (log_bytes (take k P))"

abbreviation frame_at :: "(lsn \<times> wal_record) list \<Rightarrow> nat \<Rightarrow> byte list" where
  "frame_at P k \<equiv> encode_record_frame (fst (P ! k)) (snd (P ! k))"

lemma log_bytes_take_Suc: "k < length P \<Longrightarrow> log_bytes (take (Suc k) P) = log_bytes (take k P) @ frame_at P k"
  by (cases "P ! k") (simp add: take_Suc_conv_app_nth)

lemma frame_start_mono: "k \<le> k' \<Longrightarrow> frame_start P k \<le> frame_start P k'"
  by (metis append_take_drop_id le_add1 length_append log_bytes_simps(3) min.absorb1 take_take)

lemma frame_end: "k < k' \<Longrightarrow> k' \<le> length P \<Longrightarrow> frame_start P k + length (frame_at P k) \<le> frame_start P k'"
  using frame_start_mono [of "Suc k" k' P] by (simp add: log_bytes_take_Suc)

lemma log_bytes_frame: "k < length P \<Longrightarrow> take (length (frame_at P k)) (drop (frame_start P k) (log_bytes P)) = frame_at P k"
proof -
  assume k: "k < length P"
  have "log_bytes P = log_bytes (take (Suc k) P) @ log_bytes (drop (Suc k) P)"
    by (metis append_take_drop_id log_bytes_simps(3))
  then show ?thesis
    using k by (simp add: log_bytes_take_Suc)
qed

lemma frame_length: "17 \<le> length (encode_record_frame l r)"
  by (simp add: length_encode_record_frame serialized_size_def RECORD_HEADER_SIZE_def)

text \<open>A byte belongs to at most one frame.\<close>

lemma same_frame:
  assumes "k < length P" "k' < length P" "frame_start P k \<le> j" "j < frame_start P k + length (frame_at P k)"
    "frame_start P k' \<le> j" "j < frame_start P k' + length (frame_at P k')"
  shows "k = k'"
  using assms frame_end [of k k' P] frame_end [of k' k P] by (cases k k' rule: linorder_cases) auto

subsection \<open>Unwritten frames are holes\<close>

definition hole_inv :: "segment_machine \<Rightarrow> bool" where
  "hole_inv m \<longleftrightarrow>
     (\<forall>tid e. owes m tid = Some e \<longrightarrow>
        (\<exists>k<length (sm_placed m). e = (frame_start (sm_placed m) k, frame_at (sm_placed m) k)))
     \<and> inj_on (owes m) (dom (owes m))
     \<and> (\<forall>j<length (segment_file m). owed_at m j \<longrightarrow> segment_file m ! j = 0)"

lemma hole_zero: "hole_inv m \<Longrightarrow> j < length (segment_file m) \<Longrightarrow> owed_at m j \<Longrightarrow> segment_file m ! j = 0"
  unfolding hole_inv_def by blast

lemma hole_inv_quiet:
  assumes "hole_inv m" "owes m' = owes m" "sm_placed m' = sm_placed m" "segment_file m' = segment_file m"
  shows "hole_inv m'"
  using assms by (simp add: hole_inv_def owed_at_def)

lemma hole_inv_place:
  assumes inv: "hole_inv m" "segment_machine_inv m" and a: "sm_appenders m tid = Some (Reserved lsn r)"
  shows "hole_inv (run_appender tid m)"
proof -
  let ?P = "sm_placed m" and ?m' = "run_appender tid m" and ?new = "(length (log_bytes (sm_placed m)), encode_record_frame lsn r)"
  have m': "sm_placed ?m' = ?P @ [(lsn, r)]" "segment_file ?m' = segment_file m"
    "sm_appenders ?m' = (sm_appenders m)(tid \<mapsto> Placed lsn r (length (log_bytes ?P)))"
    using inv(2) a by (simp_all add: run_appender_def segment_machine_inv_def)
  have owes: "owes ?m' = (owes m)(tid \<mapsto> ?new)" "owes m tid = None"
    using owes_update [OF m'(3)] a by (simp_all add: owes_def)
  have old: "\<exists>k<length ?P. e = (frame_start ?P k, frame_at ?P k)" if "owes m t = Some e" for t e
    using inv(1) that unfolding hole_inv_def by blast
  have start: "frame_start ?P k < length (log_bytes ?P)" if "k < length ?P" for k
    using frame_end [OF that order_refl] frame_length [of "fst (?P ! k)" "snd (?P ! k)"] by simp
  have fresh: "owes m t \<noteq> Some ?new" for t
  proof
    assume "owes m t = Some ?new"
    then obtain k where "k < length ?P" "length (log_bytes ?P) = frame_start ?P k"
      using old by blast
    then show False
      using start [of k] by simp
  qed
  have "\<exists>k<length (?P @ [(lsn, r)]). e = (frame_start (?P @ [(lsn, r)]) k, frame_at (?P @ [(lsn, r)]) k)"
    if e: "owes ?m' t = Some e" for t e
  proof (cases "t = tid")
    case True
    then show ?thesis
      using e by (intro exI [of _ "length ?P"]) (simp add: owes(1))
  next
    case False
    then have "owes m t = Some e"
      using e by (simp add: owes(1))
    then obtain k where "k < length ?P" "e = (frame_start ?P k, frame_at ?P k)"
      using old by blast
    then show ?thesis
      by (intro exI [of _ k]) (simp add: nth_append)
  qed
  moreover have "inj_on (owes ?m') (dom (owes ?m'))"
  proof (rule inj_onI)
    fix t t'
    assume "t \<in> dom (owes ?m')" "t' \<in> dom (owes ?m')" "owes ?m' t = owes ?m' t'"
    then show "t = t'"
      using inj_onD [of "owes m" "dom (owes m)" t t'] inv(1) fresh [of t] fresh [of t']
      by (cases "t = tid"; cases "t' = tid") (auto simp: owes(1) hole_inv_def)
  qed
  moreover have "segment_file m ! j = 0" if j: "j < length (segment_file m)" "owed_at ?m' j" for j
  proof -
    have "length (segment_file m) \<le> length (log_bytes ?P)"
      using inv(2) by (simp add: segment_machine_inv_def)
    then have "\<not> fst ?new \<le> j"
      using j(1) by simp
    moreover obtain e where e: "e \<in> ran (owes ?m')" "fst e \<le> j" "j < fst e + length (snd e)"
      using j(2) by (auto simp: owed_at_def)
    ultimately have "e \<in> ran (owes m)"
      using ran_update [of "owes m" tid "Some ?new"] by (auto simp: owes(1))
    then have "owed_at m j"
      using e(2,3) unfolding owed_at_def by (auto simp: case_prod_unfold)
    then show ?thesis
      using inv(1) j(1) unfolding hole_inv_def by blast
  qed
  ultimately show ?thesis
    unfolding hole_inv_def m'(1,2) by blast
qed

lemma hole_inv_write:
  assumes inv: "hole_inv m" and a: "sm_appenders m tid = Some (Placed lsn r offset)"
  shows "hole_inv (run_appender tid m)"
proof -
  let ?P = "sm_placed m" and ?m' = "run_appender tid m" and ?f = "encode_record_frame lsn r"
  have m': "sm_placed ?m' = ?P" "segment_file ?m' = write_all_at ?f offset (segment_file m)"
    "sm_appenders ?m' = (sm_appenders m)(tid \<mapsto> Written lsn r)"
    using a by (simp_all add: run_appender_def Let_def)
  have owes: "owes ?m' = (owes m)(tid := None)" "owes m tid = Some (offset, ?f)"
    using owes_update [OF m'(3)] a by (simp_all add: owes_def)
  have old: "\<exists>k<length ?P. e = (frame_start ?P k, frame_at ?P k)" if "owes m t = Some e" for t e
    using inv that unfolding hole_inv_def by blast
  have inj: "inj_on (owes m) (dom (owes m))"
    using inv unfolding hole_inv_def by blast
  have "write_all_at ?f offset (segment_file m) ! j = 0"
    if j: "j < length (write_all_at ?f offset (segment_file m))" "owed_at ?m' j" for j
  proof -
    obtain t off fr where t: "t \<noteq> tid" "owes m t = Some (off, fr)" "off \<le> j" "j < off + length fr"
      using j(2) unfolding owed_at_def owes(1) ran_def by (auto split: if_splits)
    then have "(off, fr) \<noteq> (offset, ?f)"
      using inj_onD [OF inj, of t tid] owes(2) by auto
    moreover obtain k where k: "k < length ?P" "off = frame_start ?P k" "fr = frame_at ?P k"
      using old [OF t(2)] by blast
    moreover obtain k' where k': "k' < length ?P" "offset = frame_start ?P k'" "?f = frame_at ?P k'"
      using old [OF owes(2)] by blast
    ultimately have "\<not> (offset \<le> j \<and> j < offset + length ?f)"
      using same_frame [OF k(1) k'(1), of j] t(3,4) by auto
    moreover have "owed_at m j"
      using ranI [of "owes m" t, OF t(2)] t(3,4) by (auto simp: owed_at_def)
    then have "segment_file m ! j = 0" if "j < length (segment_file m)"
      using inv that unfolding hole_inv_def by blast
    ultimately show ?thesis
      using nth_write_all_at [OF j(1)] by auto
  qed
  moreover have "inj_on (owes ?m') (dom (owes ?m'))"
    using inj unfolding owes(1) by (auto simp: inj_on_def)
  moreover have "\<exists>k<length ?P. e = (frame_start ?P k, frame_at ?P k)" if "owes ?m' t = Some e" for t e
    using old that by (auto simp: owes(1) split: if_splits)
  ultimately show ?thesis
    unfolding hole_inv_def m'(1,2) by blast
qed

lemma hole_inv_run:
  assumes "hole_inv m" "segment_machine_inv m"
  shows "hole_inv (run_appender tid m)"
proof (cases "sm_appenders m tid")
  case (Some a)
  have quiet: "hole_inv (run_appender tid m)" if "owed a = None" "placed_by a = []"
  proof -
    obtain w a' where st: "append_record_segment_step (sm_writer m) a = (w, a')" by force
    then have "owed a' = None" "ww_file (sw_writer w) = segment_file m"
      using that by (cases a; auto simp: allocate_lsn_def mark_segment_durable_def Let_def split: option.splits sum.splits prod.splits)+
    then show ?thesis
      using Some st that by (intro hole_inv_quiet [OF assms(1)]) (auto simp: run_appender_def owes_def fun_eq_iff)
  qed
  show ?thesis
  proof (cases a)
    case (Reserved l r)
    then show ?thesis using hole_inv_place [OF assms] Some by simp
  next
    case (Placed l r off)
    then show ?thesis using hole_inv_write [OF assms(1)] Some by simp
  next
    case (WriteFailed l r off)
    then show ?thesis using run_appender_done [OF Some] assms(1) by simp
  qed (use quiet in simp_all)
qed (use assms in \<open>simp add: run_appender_def\<close>)

lemma hole_inv_reachable: "segment_reachable m \<Longrightarrow> hole_inv m"
proof (induction rule: rtranclp_induct)
  case base
  have "owes segment_init = Map.empty"
    by (simp add: owes_def segment_init_def fun_eq_iff)
  then show ?case
    by (simp add: hole_inv_def owed_at_def)
next
  case (step m m')
  have seg: "segment_machine_inv m"
    using step.hyps(1) by (rule segment_inv_reachable)
  from step.hyps(2) show ?case
  proof cases
    case (spawn tid r)
    then show ?thesis
      by (intro hole_inv_quiet [OF step.IH]) (auto simp: spawn_appender_def owes_def fun_eq_iff)
  next
    case (run tid)
    then show ?thesis
      using hole_inv_run [OF step.IH seg] by simp
  next
    case (write_error tid l r off)
    then show ?thesis
      by (intro hole_inv_quiet [OF step.IH]) (auto simp: owes_def mark_segment_failed_def fun_eq_iff)
  qed
qed

subsection \<open>Reading the file after a crash\<close>

lemma read_records_log:
  "\<forall>lr\<in>set ops. frame_ok lr \<Longrightarrow> fst (read_records (log_bytes ops @ rest)) = ops @ fst (read_records rest)"
  by (induction ops) (auto simp: read_records_frame split: prod.split)

text \<open>At a hole the reader stops, however much of it the file has.\<close>

lemma read_zeros:
  assumes "\<forall>i<17. i < length rest \<longrightarrow> rest ! i = 0"
  shows "fst (read_records rest) = []"
proof (cases "length rest < 17")
  case True
  then show ?thesis
    by (simp add: read_records.simps [of rest] next_record_def RECORD_HEADER_SIZE_def)
next
  case False
  then have "take 17 rest = replicate 17 0"
    using assms by (intro nth_equalityI) simp_all
  then show ?thesis
    using read_hole [of 17 "drop 17 rest"] append_take_drop_id [of 17 rest] by simp
qed

lemma read_cut_frame:
  assumes "frame_ok (l, r)" "n < length (encode_record_frame l r)"
  shows "fst (read_records (take n (encode_record_frame l r))) = []"
  using next_record_torn [OF assms] by (auto simp: read_records.simps [of "take n (encode_record_frame l r)"])

text \<open>The frames before position \<open>k\<close> are on disk and survive the cut.\<close>

definition complete_upto :: "segment_machine \<Rightarrow> nat \<Rightarrow> nat \<Rightarrow> bool" where
  "complete_upto m n k \<longleftrightarrow> (\<forall>j<frame_start (sm_placed m) k. j < n \<and> \<not> owed_at m j)"

lemma written_byte:
  assumes "segment_machine_inv m" "j < length (log_bytes (sm_placed m))" "\<not> owed_at m j"
  shows "j < length (segment_file m)" "segment_file m ! j = log_bytes (sm_placed m) ! j"
  using assms unfolding segment_machine_inv_def by blast+

lemma written_bytes:
  assumes "segment_machine_inv m" "a + n \<le> length (log_bytes (sm_placed m))" "\<forall>j. a \<le> j \<and> j < a + n \<longrightarrow> \<not> owed_at m j"
  shows "take n (drop a (segment_file m)) = take n (drop a (log_bytes (sm_placed m)))"
proof (cases n)
  case (Suc n')
  then have "a + n \<le> length (segment_file m)"
    using written_byte(1) [OF assms(1), of "a + n'"] assms(2,3) by fastforce
  then show ?thesis
    using assms written_byte(2) [OF assms(1)] by (intro nth_equalityI) simp_all
qed simp

lemma complete_le: "complete_upto m n k \<Longrightarrow> frame_start (sm_placed m) k \<le> n"
  unfolding complete_upto_def by (cases "frame_start (sm_placed m) k") (auto simp: Suc_le_eq)

lemma first_incomplete_unread:
  assumes inv: "segment_machine_inv m" "hole_inv m" and k: "k < length (sm_placed m)" "frame_ok (sm_placed m ! k)"
    and upto: "complete_upto m n k" "\<not> complete_upto m n (Suc k)"
  shows "fst (read_records (drop (frame_start (sm_placed m) k) (take n (segment_file m)))) = []"
proof -
  let ?P = "sm_placed m" and ?L = "frame_start (sm_placed m) k" and ?f = "frame_at (sm_placed m) k"
  have Suc: "frame_start ?P (Suc k) = ?L + length ?f"
    using k(1) by (simp add: log_bytes_take_Suc)
  have rest: "drop ?L (take n (segment_file m)) = take (n - ?L) (drop ?L (segment_file m))"
    by (simp add: drop_take)
  show ?thesis
  proof (cases "\<exists>j. ?L \<le> j \<and> j < ?L + length ?f \<and> owed_at m j")
    case True
    then obtain j t off fr where j: "?L \<le> j" "j < ?L + length ?f" and t: "owes m t = Some (off, fr)" "off \<le> j" "j < off + length fr"
      by (auto simp: owed_at_def ran_def)
    obtain k' where k': "k' < length ?P" "off = frame_start ?P k'" "fr = frame_at ?P k'"
      using inv(2) t(1) unfolding hole_inv_def by blast
    then have "k' = k"
      using same_frame [OF k'(1) k(1), of j] j t(2,3) by simp
    then have mem: "(?L, ?f) \<in> ran (owes m)"
      using ranI [of "owes m" t, OF t(1)] k'(2,3) by simp
    have "owed_at m (?L + i)" if "i < 17" for i
      unfolding owed_at_def using mem that frame_length [of "fst (?P ! k)" "snd (?P ! k)"]
      by (intro bexI [of _ "(?L, ?f)"]) simp_all
    then have "segment_file m ! (?L + i) = 0" if "i < 17" "?L + i < length (segment_file m)" for i
      using hole_zero [OF inv(2)] that by simp
    then show ?thesis
      unfolding rest by (intro read_zeros) auto
  next
    case False
    obtain j where j: "j < ?L + length ?f" "n \<le> j \<or> owed_at m j"
      using upto(2) unfolding complete_upto_def Suc by (auto simp: not_less)
    then have "n \<le> j"
      using False upto(1) unfolding complete_upto_def by (cases "j < ?L") auto
    then have n: "n < ?L + length ?f" "?L \<le> n"
      using j(1) complete_le [OF upto(1)] by simp_all
    have "?L + (n - ?L) \<le> length (log_bytes ?P)" "n - ?L < length ?f"
      using n frame_end [OF k(1) order_refl] frame_length [of "fst (?P ! k)" "snd (?P ! k)"] by auto
    then have "drop ?L (take n (segment_file m)) = take (n - ?L) (drop ?L (log_bytes ?P))"
      unfolding rest using False n by (intro written_bytes [OF inv(1)]) auto
    also have "\<dots> = take (n - ?L) ?f"
      using arg_cong [OF log_bytes_frame [OF k(1)], of "take (n - ?L)"] \<open>n - ?L < length ?f\<close> by simp
    finally show ?thesis
      using read_cut_frame [of "fst (?P ! k)" "snd (?P ! k)" "n - ?L"] k(2) \<open>n - ?L < length ?f\<close> by simp
  qed
qed

lemma crash_reads:
  assumes inv: "segment_machine_inv m" "hole_inv m" and ok: "\<forall>lr\<in>set (sm_placed m). frame_ok lr"
  shows "\<exists>k\<le>length (sm_placed m). fst (read_records (take n (segment_file m))) = take k (sm_placed m)
    \<and> complete_upto m n k \<and> (k < length (sm_placed m) \<longrightarrow> \<not> complete_upto m n (Suc k))"
proof -
  let ?P = "sm_placed m" and ?F = "take n (segment_file m)"
  define k where "k = (GREATEST k. k \<le> length ?P \<and> complete_upto m n k)"
  have "0 \<le> length ?P \<and> complete_upto m n 0"
    by (simp add: complete_upto_def)
  then have k: "k \<le> length ?P" "complete_upto m n k"
    using GreatestI_nat [of "\<lambda>k. k \<le> length ?P \<and> complete_upto m n k" 0 "length ?P"] unfolding k_def by blast+
  have max: "\<not> complete_upto m n (Suc k)" if "k < length ?P"
    using Greatest_le_nat [of "\<lambda>k. k \<le> length ?P \<and> complete_upto m n k" "Suc k" "length ?P"] that
    unfolding k_def [symmetric] by auto
  have L: "frame_start ?P k \<le> length (log_bytes ?P)"
    using frame_start_mono [OF k(1), of ?P] by simp
  have "take (frame_start ?P k) (segment_file m) = take (frame_start ?P k) (log_bytes ?P)"
    using written_bytes [OF inv(1), of 0 "frame_start ?P k"] L k(2) by (simp add: complete_upto_def)
  also have "\<dots> = log_bytes (take k ?P)"
    using log_bytes_simps(3) [of "take k ?P" "drop k ?P"] by (simp add: append_eq_conv_conj)
  finally have "take (frame_start ?P k) (segment_file m) = log_bytes (take k ?P)" .
  moreover have "frame_start ?P k \<le> n"
    using k(2) by (rule complete_le)
  ultimately have "?F = log_bytes (take k ?P) @ drop (frame_start ?P k) ?F"
    using append_take_drop_id [of "frame_start ?P k" ?F] by (simp add: min.absorb1)
  moreover have "fst (read_records (drop (frame_start ?P k) ?F)) = []"
  proof (cases "k < length ?P")
    case True
    then show ?thesis
      using first_incomplete_unread [OF inv True _ k(2) max] ok by simp
  next
    case False
    then have "length ?F \<le> frame_start ?P k"
      using inv(1) k(1) unfolding segment_machine_inv_def by (simp add: min.coboundedI1)
    then show ?thesis
      by simp
  qed
  moreover have "\<forall>lr\<in>set (take k ?P). frame_ok lr"
    using ok by (auto dest: in_set_takeD)
  ultimately have "fst (read_records ?F) = take k ?P"
    using read_records_log [of "take k ?P" "drop (frame_start ?P k) ?F"] by simp
  then show ?thesis
    using k max by blast
qed

text \<open>
  C39: What a crash leaves of a log written by lock-free appends, whatever their
  interleaving and whichever writes fail.  The file at any moment, cut after any
  byte, reads as the placed records up to the first one whose frame is not
  completely on disk: all of those before it, and nothing after it.
\<close>

theorem crash_reads_leading_frames:
  assumes "segment_reachable m" "\<forall>lr\<in>set (sm_placed m). frame_ok lr"
  shows "\<exists>k\<le>length (sm_placed m). fst (read_records (take n (segment_file m))) = take k (sm_placed m)
    \<and> (\<forall>j<length (log_bytes (take k (sm_placed m))). j < n \<and> \<not> owed_at m j)
    \<and> (k < length (sm_placed m) \<longrightarrow> (\<exists>j<length (log_bytes (take (Suc k) (sm_placed m))). n \<le> j \<or> owed_at m j))"
  using crash_reads [OF segment_inv_reachable hole_inv_reachable, OF assms(1) assms(1) assms(2), of n]
  unfolding complete_upto_def by (simp add: not_less disj_commute del: take_Suc)

theorem crash_reads_leading_frames_witness:
  "\<exists>m. segment_reachable m \<and> sm_placed m = [(1, Remove [7])] \<and> fst (read_records (take 9 (segment_file m))) = []"
proof -
  let ?m = "run_appender 0 (run_appender 0 (run_appender 0 (spawn_appender 0 (Remove [7]) segment_init)))"
  have m: "segment_reachable ?m"
    by (intro reach_run reach_spawn) (simp_all add: segment_init_def)
  have P: "sm_placed ?m = [(1, Remove [7])]"
    by (simp add: run_appender_def spawn_appender_def segment_init_def allocate_lsn_def Let_def)
  have "\<forall>lr\<in>set (sm_placed ?m). frame_ok lr"
    by (simp add: P frame_ok_def serialized_size_def RECORD_HEADER_SIZE_def short_def)
  from crash_reads_leading_frames [OF m this, of 9]
  obtain k where k: "k \<le> 1" "fst (read_records (take 9 (segment_file ?m))) = take k [(1, Remove [7])]"
      "\<forall>j<length (log_bytes (take k [(1, Remove [7])])). j < 9"
    unfolding P by auto
  have "k = 0"
  proof (rule ccontr)
    assume "k \<noteq> 0"
    then have "k = 1" using k(1) by simp
    then show False
      using k(3) frame_length [of 1 "Remove [7]"] by (auto dest: spec [of _ 9])
  qed
  then show ?thesis
    using m P k(2) by (intro exI [of _ ?m]) simp
qed

end
