(* ===== verification/Wal_Lsn.thy ===== *)
theory Wal_Lsn
  imports Wal_Segment
begin

text \<open>
  The LSNs of the lock-free append path.  Over the machine of \<open>Wal_Segment\<close> the
  lemmas show that the appenders hold exactly the LSNs handed out so far, each
  held by one appender, that the placed records are the records of the appenders
  that got an offset, and that an acknowledged append is covered by the durable
  frontier, below which every LSN has been written.
\<close>

fun lsn_of :: "appender \<Rightarrow> lsn option" where
  "lsn_of (Idle _) = None"
| "lsn_of (Reserved lsn _) = Some lsn"
| "lsn_of (Placed lsn _ _) = Some lsn"
| "lsn_of (Written lsn _) = Some lsn"
| "lsn_of (Waiting lsn _) = Some lsn"
| "lsn_of (Acked lsn _) = Some lsn"
| "lsn_of (WriteFailed lsn _ _) = Some lsn"
| "lsn_of (WaitFailed lsn _ _) = Some lsn"

fun record_of :: "appender \<Rightarrow> wal_record" where
  "record_of (Idle r) = r"
| "record_of (Reserved _ r) = r"
| "record_of (Placed _ r _) = r"
| "record_of (Written _ r) = r"
| "record_of (Waiting _ r) = r"
| "record_of (Acked _ r) = r"
| "record_of (WriteFailed _ r _) = r"
| "record_of (WaitFailed _ r _) = r"

text \<open>Whether an appender has an offset, and whether it has reported its record durable.\<close>

fun is_placed :: "appender \<Rightarrow> bool" where
  "is_placed (Idle _) = False"
| "is_placed (Reserved _ _) = False"
| "is_placed _ = True"

fun is_durable :: "appender \<Rightarrow> bool" where
  "is_durable (Waiting _ _) = True"
| "is_durable (Acked _ _) = True"
| "is_durable (WaitFailed _ _ _) = True"
| "is_durable _ = False"

definition placed_entry :: "appender \<Rightarrow> (lsn \<times> wal_record) option" where
  "placed_entry a =
     (if is_placed a then map_option (\<lambda>l. (l, record_of a)) (lsn_of a) else None)"

definition durable_entry :: "appender \<Rightarrow> lsn option" where
  "durable_entry a = (if is_durable a then lsn_of a else None)"

text \<open>A partial function of the appenders, by appender.\<close>

definition of_appender :: "(appender \<Rightarrow> 'a option) \<Rightarrow> segment_machine \<Rightarrow> nat \<rightharpoonup> 'a" where
  "of_appender f m i = Option.bind (sm_appenders m i) f"

abbreviation next_lsn :: "segment_machine \<Rightarrow> lsn" where
  "next_lsn m \<equiv> ww_next_lsn (sw_writer (sm_writer m))"

abbreviation durable_lsn :: "segment_machine \<Rightarrow> lsn" where
  "durable_lsn m \<equiv> ww_segment_durable_lsn (sw_writer (sm_writer m))"

definition lsn_inv :: "segment_machine \<Rightarrow> bool" where
  "lsn_inv m \<longleftrightarrow>
     0 < next_lsn m \<and> ran (of_appender lsn_of m) = {0<..<next_lsn m}
     \<and> inj_on (of_appender lsn_of m) (dom (of_appender lsn_of m))
     \<and> set (sm_placed m) = ran (of_appender placed_entry m)
     \<and> distinct (map fst (sm_placed m))
     \<and> segment_inv 0 (ran (of_appender durable_entry m)) (sw_writer (sm_writer m))
     \<and> (\<forall>i l r. sm_appenders m i = Some (Acked l r) \<longrightarrow> l \<le> durable_lsn m)"

lemma of_appender_update:
  "sm_appenders m' = (sm_appenders m)(i \<mapsto> a) \<Longrightarrow> of_appender f m' = (of_appender f m)(i := f a)"
  by (simp add: of_appender_def fun_eq_iff)

lemma ran_upd_None: "f i = None \<Longrightarrow> ran (f(i := x)) = ran f \<union> set_option x"
  using ran_map_upd [of f i] by (cases x) (auto simp: fun_upd_idem)

lemma inj_on_upd_fresh:
  "inj_on f (dom f) \<Longrightarrow> l \<notin> ran f \<Longrightarrow> inj_on (f(i \<mapsto> l)) (dom (f(i \<mapsto> l)))"
  by (auto simp: inj_on_def ran_def dom_def split: if_splits)

lemma lsn_holder_unique:
  assumes "lsn_inv m" "of_appender lsn_of m i = Some l" "of_appender lsn_of m j = Some l"
  shows "i = j"
  using assms unfolding lsn_inv_def by (metis domIff inj_onD option.distinct(1))

lemma placed_entry_lsn: "placed_entry a = Some (l, r) \<Longrightarrow> lsn_of a = Some l \<and> record_of a = r"
  by (auto simp: placed_entry_def split: if_splits)

lemma placed_appender:
  assumes "lsn_inv m" "(l, r) \<in> set (sm_placed m)"
  obtains i a where "sm_appenders m i = Some a" "placed_entry a = Some (l, r)"
  using assms by (auto simp: lsn_inv_def ran_def of_appender_def bind_eq_Some_conv)

text \<open>A step that keeps the LSN, the place and the record of its appender.\<close>

lemma lsn_inv_quiet:
  assumes inv: "lsn_inv m" and a: "sm_appenders m i = Some a"
    and m': "sm_appenders m' = (sm_appenders m)(i \<mapsto> a')" "sm_placed m' = sm_placed m" "next_lsn m' = next_lsn m"
      "lsn_of a' = lsn_of a" "placed_entry a' = placed_entry a"
    and dur: "segment_inv 0 (ran (of_appender durable_entry m')) (sw_writer (sm_writer m'))" "durable_lsn m \<le> durable_lsn m'"
      "\<And>l r. a' = Acked l r \<Longrightarrow> l \<le> durable_lsn m'"
  shows "lsn_inv m'"
proof -
  have "of_appender lsn_of m' = of_appender lsn_of m" "of_appender placed_entry m' = of_appender placed_entry m"
    using a m'(4,5) by (simp_all add: of_appender_update [OF m'(1)] fun_upd_idem of_appender_def)
  moreover have "l \<le> durable_lsn m'" if "sm_appenders m' j = Some (Acked l r)" for j l r
  proof (cases "j = i")
    case False
    then have "sm_appenders m j = Some (Acked l r)"
      using that by (simp add: m'(1))
    then have "l \<le> durable_lsn m"
      using inv unfolding lsn_inv_def by blast
    then show ?thesis
      using dur(2) by (rule order_trans)
  qed (use that dur(3) m'(1) in simp)
  ultimately show ?thesis
    using inv dur(1) m'(2,3) unfolding lsn_inv_def by simp
qed

lemma durable_unchanged:
  assumes "sm_appenders m i = Some a" "sm_appenders m' = (sm_appenders m)(i \<mapsto> a')" "durable_entry a' = durable_entry a"
  shows "of_appender durable_entry m' = of_appender durable_entry m"
  using assms(1,3) by (simp add: of_appender_update [OF assms(2)] fun_upd_idem of_appender_def)

lemma word_interval_Suc:
  fixes n :: u64
  assumes "0 < n" "n < n + 1"
  shows "{0<..<n + 1} = insert n {0<..<n}"
proof -
  have "x = n" if "x < n + 1" "\<not> x < n" for x
    using that inc_le [of n x] by (meson leD linorder_less_linear)
  then show ?thesis
    using assms by auto
qed

lemma lsn_inv_reserve:
  assumes inv: "lsn_inv m" and a: "sm_appenders m i = Some (Idle r)" and room: "next_lsn m \<noteq> - 1"
  shows "lsn_inv (run_appender i m)"
proof -
  let ?m' = "run_appender i m"
  have m': "sm_appenders ?m' = (sm_appenders m)(i \<mapsto> Reserved (next_lsn m) r)" "sm_placed ?m' = sm_placed m"
    "next_lsn ?m' = next_lsn m + 1" "durable_lsn ?m' = durable_lsn m"
    "segment_inv 0 S (sw_writer (sm_writer ?m')) = segment_inv 0 S (sw_writer (sm_writer m))" for S
    using a by (simp_all add: run_appender_def allocate_lsn_def segment_inv_def)
  have lsn: "of_appender lsn_of ?m' = (of_appender lsn_of m)(i \<mapsto> next_lsn m)" "of_appender lsn_of m i = None"
    and rest: "of_appender placed_entry ?m' = of_appender placed_entry m" "of_appender durable_entry ?m' = of_appender durable_entry m"
    using a by (simp_all add: of_appender_update [OF m'(1)] placed_entry_def durable_entry_def of_appender_def fun_upd_idem)
  have "next_lsn m + 1 \<noteq> 0"
    using room by (metis add_eq_0_iff2)
  then have lt: "next_lsn m < next_lsn m + 1"
    by (rule word_less_succ_nonzero)
  have "{0<..<next_lsn m + 1} = insert (next_lsn m) {0<..<next_lsn m}"
    using inv lt by (intro word_interval_Suc) (simp_all add: lsn_inv_def)
  then have "ran (of_appender lsn_of ?m') = {0<..<next_lsn m + 1}"
    using inv ran_upd_None [of "of_appender lsn_of m" i, OF lsn(2), of "Some (next_lsn m)"] by (simp add: lsn(1) lsn_inv_def)
  moreover have "inj_on (of_appender lsn_of ?m') (dom (of_appender lsn_of ?m'))"
    unfolding lsn(1) by (rule inj_on_upd_fresh) (use inv in \<open>simp_all add: lsn_inv_def\<close>)
  moreover have "0 < next_lsn m + 1"
    using lt by (rule le_less_trans [OF word_zero_le])
  ultimately show ?thesis
    using inv unfolding lsn_inv_def m' rest by simp
qed

lemma lsn_inv_place:
  assumes inv: "lsn_inv m" and a: "sm_appenders m i = Some (Reserved l r)"
  shows "lsn_inv (run_appender i m)"
proof -
  let ?m' = "run_appender i m"
  have m': "sm_appenders ?m' = (sm_appenders m)(i \<mapsto> Placed l r (sw_next_offset (sm_writer m)))"
    "sm_placed ?m' = sm_placed m @ [(l, r)]" "sw_writer (sm_writer ?m') = sw_writer (sm_writer m)"
    using a by (simp_all add: run_appender_def)
  have lsn: "of_appender lsn_of ?m' = of_appender lsn_of m" "of_appender durable_entry ?m' = of_appender durable_entry m"
    and entry: "of_appender placed_entry ?m' = (of_appender placed_entry m)(i \<mapsto> (l, r))" "of_appender placed_entry m i = None"
    using a by (simp_all add: of_appender_update [OF m'(1)] placed_entry_def durable_entry_def of_appender_def fun_upd_idem)
  have "l \<notin> fst ` set (sm_placed m)"
  proof
    assume "l \<in> fst ` set (sm_placed m)"
    then obtain r' where "(l, r') \<in> set (sm_placed m)"
      by force
    then obtain j b where b: "sm_appenders m j = Some b" "placed_entry b = Some (l, r')"
      by (rule placed_appender [OF inv])
    then have "j = i"
      using lsn_holder_unique [OF inv, of j l i] placed_entry_lsn [OF b(2)] a by (simp add: of_appender_def)
    then show False
      using a b by (auto simp: placed_entry_def)
  qed
  moreover have "ran (of_appender placed_entry ?m') = insert (l, r) (ran (of_appender placed_entry m))"
    using ran_upd_None [of "of_appender placed_entry m" i, OF entry(2), of "Some (l, r)"] by (simp add: entry(1))
  ultimately show ?thesis
    using inv by (auto simp: lsn_inv_def m' lsn)
qed

lemma mark_segment_durable_mono:
  assumes "0 \<notin> ww_segment_durable_pending w" "l \<noteq> 0"
  shows "ww_segment_durable_lsn w \<le> ww_segment_durable_lsn (mark_segment_durable l w)"
proof -
  obtain c q where d: "drain_pending (ww_segment_durable_lsn w) (insert l (ww_segment_durable_pending w)) = (c, q)"
    by fastforce
  then show ?thesis
    using drain_pending_spec [OF d] assms by (simp add: mark_segment_durable_def)
qed

lemma lsn_inv_mark:
  assumes inv: "lsn_inv m" and a: "sm_appenders m i = Some (Written l r)"
  shows "lsn_inv (run_appender i m)"
proof -
  let ?m' = "run_appender i m" and ?w = "sw_writer (sm_writer m)"
  have m': "sm_appenders ?m' = (sm_appenders m)(i \<mapsto> Waiting l r)" "sm_placed ?m' = sm_placed m"
    "sw_writer (sm_writer ?m') = mark_segment_durable l ?w"
    using a by (simp_all add: run_appender_def)
  have "of_appender lsn_of m i = Some l"
    using a by (simp add: of_appender_def)
  then have l: "l \<noteq> 0"
    using inv by (auto simp: lsn_inv_def dest: ranI)
  have "of_appender durable_entry ?m' = (of_appender durable_entry m)(i \<mapsto> l)" "of_appender durable_entry m i = None"
    using a by (simp_all add: of_appender_update [OF m'(1)] durable_entry_def of_appender_def)
  then have ran: "ran (of_appender durable_entry ?m') = insert l (ran (of_appender durable_entry m))"
    using ran_upd_None [of "of_appender durable_entry m" i "Some l"] by simp
  show ?thesis
  proof (rule lsn_inv_quiet [OF inv a m'(1,2)])
    show "segment_inv 0 (ran (of_appender durable_entry ?m')) (sw_writer (sm_writer ?m'))"
      unfolding ran m'(3) by (rule mark_segment_durable_inv [OF _ l]) (use inv in \<open>simp add: lsn_inv_def\<close>)
    show "durable_lsn m \<le> durable_lsn ?m'"
      unfolding m'(3) using inv l by (intro mark_segment_durable_mono) (auto simp: lsn_inv_def segment_inv_def)
  qed (simp_all add: m'(3) mark_segment_durable_def placed_entry_def split: prod.split)
qed

lemma lsn_inv_run:
  assumes inv: "lsn_inv m" and room: "next_lsn m \<noteq> - 1"
  shows "lsn_inv (run_appender i m)"
proof (cases "sm_appenders m i")
  case (Some a)
  let ?m' = "run_appender i m"
  have dur: "segment_inv 0 (ran (of_appender durable_entry m)) (sw_writer (sm_writer m))"
    using inv by (simp add: lsn_inv_def)
  show ?thesis
  proof (cases a)
    case (Idle r)
    then show ?thesis using lsn_inv_reserve [OF inv _ room] Some by simp
  next
    case (Reserved l r)
    then show ?thesis using lsn_inv_place [OF inv] Some by simp
  next
    case (Written l r)
    then show ?thesis using lsn_inv_mark [OF inv] Some by simp
  next
    case (Placed l r offset)
    then have m': "sm_appenders ?m' = (sm_appenders m)(i \<mapsto> Written l r)" "sm_placed ?m' = sm_placed m"
      using Some by (simp_all add: run_appender_def Let_def)
    have "of_appender durable_entry ?m' = of_appender durable_entry m"
      by (rule durable_unchanged [OF Some m'(1)]) (simp add: Placed durable_entry_def)
    then show ?thesis
      using Some Placed dur by (intro lsn_inv_quiet [OF inv Some m'])
        (simp_all add: run_appender_def placed_entry_def Let_def segment_inv_def)
  next
    case (Waiting l r)
    define a' where "a' = snd (append_record_segment_step (sm_writer m) a)"
    have step: "append_record_segment_step (sm_writer m) a = (sm_writer m, a')"
      and a': "lsn_of a' = Some l" "placed_entry a' = Some (l, r)" "durable_entry a' = Some l"
        "\<And>k q. a' = Acked k q \<Longrightarrow> k \<le> durable_lsn m"
      unfolding a'_def Waiting
      by (auto simp: placed_entry_def durable_entry_def wait_for_segment_durable_lsn_poll_def Let_def split: if_splits)
    then have m': "sm_appenders ?m' = (sm_appenders m)(i \<mapsto> a')" "sm_placed ?m' = sm_placed m"
        "sm_writer ?m' = sm_writer m"
      using Some Waiting by (simp_all add: run_appender_def)
    have "of_appender durable_entry ?m' = of_appender durable_entry m"
      by (rule durable_unchanged [OF Some m'(1)], unfold a'(3)) (simp add: Waiting durable_entry_def)
    then show ?thesis
      using a' dur Waiting by (intro lsn_inv_quiet [OF inv Some m'(1,2)]) (simp_all add: m'(3) placed_entry_def)
  qed (use inv run_appender_done [OF Some] in simp_all)
qed (use inv in \<open>simp add: run_appender_def\<close>)

lemma of_appender_spawn:
  "sm_appenders m i = None \<Longrightarrow> f (Idle r) = None \<Longrightarrow> of_appender f (spawn_appender i r m) = of_appender f m"
  by (simp add: of_appender_def spawn_appender_def fun_eq_iff)

lemma lsn_inv_spawn:
  assumes inv: "lsn_inv m" and "sm_appenders m i = None"
  shows "lsn_inv (spawn_appender i r m)"
proof -
  have m': "sm_appenders (spawn_appender i r m) = (sm_appenders m)(i \<mapsto> Idle r)"
    "sm_placed (spawn_appender i r m) = sm_placed m" "sm_writer (spawn_appender i r m) = sm_writer m"
    by (simp_all add: spawn_appender_def)
  show ?thesis
    using inv assms(2)
    by (auto simp: lsn_inv_def m' of_appender_spawn placed_entry_def durable_entry_def)
qed

lemma lsn_inv_write_error:
  assumes inv: "lsn_inv m" and a: "sm_appenders m i = Some (Placed l r offset)"
  shows "lsn_inv (m\<lparr> sm_writer := (sm_writer m)\<lparr> sw_writer := mark_segment_failed l (sw_writer (sm_writer m)) \<rparr>,
         sm_appenders := (sm_appenders m)(i \<mapsto> WriteFailed l r offset) \<rparr>)" (is "lsn_inv ?m'")
proof -
  have m': "sm_appenders ?m' = (sm_appenders m)(i \<mapsto> WriteFailed l r offset)"
    by simp
  have "of_appender durable_entry ?m' = of_appender durable_entry m"
    by (rule durable_unchanged [OF a m']) (simp add: durable_entry_def)
  then show ?thesis
    using inv by (intro lsn_inv_quiet [OF inv a m'])
      (simp_all add: placed_entry_def mark_segment_failed_def lsn_inv_def segment_inv_def)
qed

lemma of_appender_init: "of_appender f segment_init = Map.empty"
  by (simp add: of_appender_def segment_init_def fun_eq_iff)

lemma lsn_inv_init: "lsn_inv segment_init"
proof -
  have "{0<..<1 :: u64} = {}"
    by (auto simp: word_less_1 dest: less_le_trans)
  then show ?thesis
    unfolding lsn_inv_def of_appender_init by (simp add: segment_init_def segment_inv_def)
qed

text \<open>Below an acknowledged append every LSN belongs to a record that has a place.\<close>

lemma acked_below_placed:
  assumes inv: "lsn_inv m" and "sm_appenders m i = Some (Acked l r)" "0 < k" "k \<le> l"
  shows "k \<in> fst ` set (sm_placed m)"
proof -
  have "l \<le> durable_lsn m" "{0<..durable_lsn m} \<subseteq> ran (of_appender durable_entry m)"
    using inv assms(2) unfolding lsn_inv_def segment_inv_def by blast+
  then have "k \<in> ran (of_appender durable_entry m)"
    using assms(3,4) by force
  then obtain j a where a: "sm_appenders m j = Some a" "durable_entry a = Some k"
    by (auto simp: of_appender_def ran_def bind_eq_Some_conv)
  then have "placed_entry a = Some (k, record_of a)"
    by (cases a) (simp_all add: durable_entry_def placed_entry_def)
  then have "(k, record_of a) \<in> ran (of_appender placed_entry m)"
    using a(1) by (intro ranI [where a = j]) (simp add: of_appender_def)
  then show ?thesis
    using inv by (force simp: lsn_inv_def)
qed

end
