(* ===== verification/Durable_Write.thy ===== *)
theory Durable_Write
  imports Overlay_Publish Wal_Lsn
begin

text \<open>
  The durable write protocol of the byte trie (\<open>core/overlay/durable_write.rs\<close>,
  \<open>core/overlay/cas_walk.rs\<close>, \<open>lockfree_cas.rs\<close>, \<open>overlay_write_mode.rs\<close>,
  \<open>persistence_api.rs\<close>): append the data record, publish by compare-and-swap on
  the root, append the commit rank, mark both LSNs.  Each operation is a program
  whose steps are its accesses to shared state; any number of threads run it in
  any interleaving over one trie, one generation counter, one log and one
  watermark.  The log is the machine of \<open>Wal_Segment\<close>, where thread \<open>tid\<close> appends
  its data record as appender \<open>2 * tid\<close> and its rank as appender \<open>2 * tid + 1\<close>.

  The value type is the counter type \<open>u64\<close>, for which all operations exist; its
  codec and the loader of evicted nodes are arguments.  \<open>mutation\<close> names the six
  entry points with their arguments and \<open>phase\<close> is the program counter of a call;
  \<open>start_phase\<close>, \<open>probe_phase\<close> and \<open>publish_attempt\<close> select the code of the entry
  point.  A write or a sync of the log may fail at any time and the durability policy
  may be set at any time.  \<open>dm_history\<close> records
  the winning compare-and-swaps and is read by no step.
\<close>

subsection \<open>Operations\<close>

datatype durability_policy = Immediate | GroupCommit | Periodic | NoDurability

datatype mutation =
    MInsert "u8 list"
  | MRemove "u8 list"
  | MInsertValue "u8 list" u64
  | MUpsert "u8 list" u64
  | MCompareAndSwap "u8 list" "u64 option" u64
  | MIncrement "u8 list" u64

fun mutation_key :: "mutation \<Rightarrow> u8 list" where
  "mutation_key (MInsert k) = k"
| "mutation_key (MRemove k) = k"
| "mutation_key (MInsertValue k _) = k"
| "mutation_key (MUpsert k _) = k"
| "mutation_key (MCompareAndSwap k _ _) = k"
| "mutation_key (MIncrement k _) = k"

datatype reply = RBool bool | RCount u64

text \<open>The policy gate; the method and noun of the message are left out.\<close>

fun durable_policy_gate :: "durability_policy \<Rightarrow> persistent_artrie_error + unit" where
  "durable_policy_gate Immediate = Ok ()"
| "durable_policy_gate GroupCommit = Ok ()"
| "durable_policy_gate _ = Err (InvalidOperation ''requires Immediate or GroupCommit durability'')"

definition bound_increment_delta :: "u64 \<Rightarrow> persistent_artrie_error + i64" where
  "bound_increment_delta delta =
     (if uint delta \<le> i64_max then Ok delta
      else Err (InvalidOperation ''exceeds the i64 per-call WAL delta domain''))"

definition build_increment_record :: "u8 list \<Rightarrow> i64 \<Rightarrow> wal_record" where
  "build_increment_record key bounded = BatchIncrement [(key, bounded)]"

definition serialize_value :: "u64 value_codec \<Rightarrow> u64 \<Rightarrow> persistent_artrie_error + byte list" where
  "serialize_value C v =
     (case vc_serialize C v of
        None \<Rightarrow> Err (InternalError ''Failed to serialize value'')
      | Some bytes \<Rightarrow> Ok bytes)"

text \<open>The record each operation appends before it publishes.\<close>

fun data_record :: "u64 value_codec \<Rightarrow> mutation \<Rightarrow> persistent_artrie_error + wal_record" where
  "data_record C (MInsert k) = Ok (Insert k None)"
| "data_record C (MRemove k) = Ok (Remove k)"
| "data_record C (MInsertValue k v) = try_res (serialize_value C v) (\<lambda>bytes. Ok (Insert k (Some bytes)))"
| "data_record C (MUpsert k v) = try_res (serialize_value C v) (\<lambda>bytes. Ok (Upsert k bytes))"
| "data_record C (MCompareAndSwap k _ v) = try_res (serialize_value C v) (\<lambda>bytes. Ok (Upsert k bytes))"
| "data_record C (MIncrement k d) = try_res (bound_increment_delta d) (\<lambda>b. Ok (build_increment_record k b))"

definition find_leaf_lockfree :: "u64 overlay_trie \<Rightarrow> u8 list \<Rightarrow> (u8, u64) overlay_node option" where
  "find_leaf_lockfree t k = find_leaf_iterative u8_label (pr_node (lockfree_root t)) k 0"

definition value_present_faulting :: "u64 overlay_trie \<Rightarrow> u8 list \<Rightarrow> bool" where
  "value_present_faulting t k = (find_leaf_lockfree t k \<noteq> None)"

definition value_read_faulting :: "u64 overlay_trie \<Rightarrow> u8 list \<Rightarrow> u64 option" where
  "value_read_faulting t k = Option.bind (find_leaf_lockfree t k) get_value"

text \<open>Two optional values compared through their serialised bytes.\<close>

definition bytes_equal ::
    "u64 value_codec \<Rightarrow> u64 option \<Rightarrow> u64 option \<Rightarrow> persistent_artrie_error + bool" where
  "bytes_equal C expected current =
     (let ser = (\<lambda>v. case v of None \<Rightarrow> Ok None | Some x \<Rightarrow> try_res (serialize_value C x) (\<lambda>b. Ok (Some b)))
      in try_res (ser expected) (\<lambda>e. try_res (ser current) (\<lambda>c. Ok (c = e))))"

subsection \<open>Where a thread is\<close>

datatype phase =
    Start
  | Probe
  | Recheck
  | Answered reply
  | ToAppend reply
  | Appending reply
  | Pending lsn reply
  | Loaded lsn "u64 published_root" reply
  | Claimed lsn "u64 published_root" u64 reply
  | Counted lsn "u64 published_root" u64 u64
  | Ready lsn "u64 published_root" u64 "(u8, u64) overlay_node" int reply
  | Won lsn u64 reply
  | Ranking lsn u64 reply
  | Ranked lsn lsn u64 reply
  | HalfMarked lsn lsn u64 reply
  | Refused lsn
  | Burning lsn
  | Returned reply "(u64 \<times> lsn) option"
  | Errored persistent_artrie_error
  | Panicked

text \<open>Entering an operation: the cache fast path of the membership insert and the bound
  of the counter delta, each after the policy gate that all six operations share.\<close>

definition insert_entry :: "u8 list set \<Rightarrow> u8 list \<Rightarrow> phase" where
  [simp]: "insert_entry cache k = (if k \<in> cache then Returned (RBool False) None else Probe)"

definition increment_entry :: "u64 \<Rightarrow> phase" where
  [simp]: "increment_entry d =
     (case bound_increment_delta d of Inl e \<Rightarrow> Errored e | Inr _ \<Rightarrow> ToAppend (RCount 0))"

definition start_phase :: "durability_policy \<Rightarrow> u8 list set \<Rightarrow> mutation \<Rightarrow> phase" where
  "start_phase policy cache m =
     (case durable_policy_gate policy of
        Inl e \<Rightarrow> Errored e
      | Inr _ \<Rightarrow>
          (case m of
             MInsert k \<Rightarrow> insert_entry cache k
           | MIncrement k d \<Rightarrow> increment_entry d
           | _ \<Rightarrow> Probe))"

text \<open>The check each operation makes before anything is logged.\<close>

definition insert_probe :: "u64 overlay_trie \<Rightarrow> u8 list \<Rightarrow> phase" where
  [simp]: "insert_probe t k =
     (if find_leaf_lockfree t k \<noteq> None then Answered (RBool False) else ToAppend (RBool True))"

definition remove_probe :: "u64 overlay_trie \<Rightarrow> u8 list \<Rightarrow> phase" where
  [simp]: "remove_probe t k =
     (if find_leaf_lockfree t k \<noteq> None then ToAppend (RBool True)
      else if k = [] then Answered (RBool False)
      else Recheck)"

definition insert_value_probe :: "u64 overlay_trie \<Rightarrow> u8 list \<Rightarrow> phase" where
  [simp]: "insert_value_probe t k =
     (if value_present_faulting t k then Returned (RBool False) None else ToAppend (RBool True))"

definition upsert_probe :: "u64 overlay_trie \<Rightarrow> u8 list \<Rightarrow> phase" where
  [simp]: "upsert_probe t k = ToAppend (RBool (\<not> value_present_faulting t k))"

definition compare_and_swap_probe :: "u64 value_codec \<Rightarrow> u64 overlay_trie \<Rightarrow> u8 list \<Rightarrow> u64 option \<Rightarrow> phase" where
  [simp]: "compare_and_swap_probe C t k expected =
     (case bytes_equal C expected (value_read_faulting t k) of
        Inl e \<Rightarrow> Errored e
      | Inr same \<Rightarrow> if same then ToAppend (RBool True) else Returned (RBool False) None)"

fun probe_phase :: "u64 value_codec \<Rightarrow> u64 overlay_trie \<Rightarrow> mutation \<Rightarrow> phase" where
  "probe_phase C t (MInsert k) = insert_probe t k"
| "probe_phase C t (MRemove k) = remove_probe t k"
| "probe_phase C t (MInsertValue k v) = insert_value_probe t k"
| "probe_phase C t (MUpsert k v) = upsert_probe t k"
| "probe_phase C t (MCompareAndSwap k expected v) = compare_and_swap_probe C t k expected"
| "probe_phase C t (MIncrement k d) = ToAppend (RCount 0)"

text \<open>The second look of a remove, through the loader.\<close>

definition recheck_phase :: "(u8, u64) fault_in \<Rightarrow> u64 overlay_trie \<Rightarrow> mutation \<Rightarrow> phase" where
  "recheck_phase fault_in t m =
     (case walk_faulting_snapshot u8_label fault_in (pr_node (lockfree_root t)) (mutation_key m) of
        Inl e \<Rightarrow> Errored e
      | Inr None \<Rightarrow> Answered (RBool False)
      | Inr (Some _) \<Rightarrow> ToAppend (RBool True))"

text \<open>The effect on the lookup cache when nothing or something was published.\<close>

fun touch_cache :: "mutation \<Rightarrow> u8 list set \<Rightarrow> u8 list set" where
  "touch_cache (MInsert k) cache = insert k cache"
| "touch_cache (MRemove k) cache = cache - {k}"
| "touch_cache _ cache = cache"

fun touch_published :: "mutation \<Rightarrow> u8 list set \<Rightarrow> u8 list set" where
  "touch_published (MInsert k) cache = insert k cache"
| "touch_published (MRemove k) cache = cache - {k}"
| "touch_published (MInsertValue k _) cache = insert k cache"
| "touch_published (MUpsert k _) cache = insert k cache"
| "touch_published (MCompareAndSwap k _ _) cache = insert k cache"
| "touch_published (MIncrement k _) cache = cache"

subsection \<open>One attempt on a loaded root\<close>

datatype attempt =
    Publish "(u8, u64) overlay_node" int
  | NotApplied
  | AttemptError persistent_artrie_error

text \<open>The test of \<open>publish_root_cas_ranked\<close>, made before a generation is claimed.\<close>

fun already_in_state :: "mutation \<Rightarrow> (u8, u64) overlay_node \<Rightarrow> bool" where
  "already_in_state (MInsert []) root = is_final root"
| "already_in_state (MRemove []) root = (\<not> is_final root)"
| "already_in_state _ root = False"

definition build_attempt :: "durable_build_error + (u8, u64) overlay_node \<Rightarrow> int \<Rightarrow> attempt" where
  "build_attempt built delta =
     (case built of
        Inr new_root \<Rightarrow> Publish new_root delta
      | Inl AlreadyExists \<Rightarrow> NotApplied
      | Inl (Failure e) \<Rightarrow> AttemptError e)"

definition value_attempt ::
    "(u8, u64) fault_in \<Rightarrow> (u8, u64) overlay_node \<Rightarrow> u8 list \<Rightarrow> u64 \<Rightarrow> attempt" where
  "value_attempt fault_in root k v =
     (case build_value_path_iterative u8_label fault_in root k 0 v of
        Inl e \<Rightarrow> AttemptError e
      | Inr new_root \<Rightarrow>
          Publish new_root (if find_leaf_iterative u8_label root k 0 = None then 1 else 0))"

text \<open>The attempt of \<open>publish_root_cas_ranked\<close> on the empty key, of the membership
  writes on the other keys, and of the value writes in their three modes.\<close>

definition root_attempt ::
    "((u8, u64) overlay_node \<Rightarrow> (u8, u64) overlay_node) \<Rightarrow> (u8, u64) overlay_node \<Rightarrow> attempt" where
  [simp]: "root_attempt transform old = Publish (transform old) (finality_delta old (transform old))"

definition insert_attempt :: "(u8, u64) fault_in \<Rightarrow> u8 list \<Rightarrow> (u8, u64) overlay_node \<Rightarrow> attempt" where
  [simp]: "insert_attempt fault_in k root = build_attempt (build_final_path_iterative u8_label fault_in root k 0) 1"

definition remove_attempt :: "(u8, u64) fault_in \<Rightarrow> u8 list \<Rightarrow> (u8, u64) overlay_node \<Rightarrow> attempt" where
  [simp]: "remove_attempt fault_in k root = build_attempt (build_remove_path_iterative u8_label fault_in root k 0) (- 1)"

datatype value_write_mode = InsertOnce | UpsertMode | CompareAndSwapMode "u64 option"

definition value_publish_inner ::
    "u64 value_codec \<Rightarrow> (u8, u64) fault_in \<Rightarrow> u8 list \<Rightarrow> u64 \<Rightarrow> value_write_mode \<Rightarrow> (u8, u64) overlay_node \<Rightarrow> attempt" where
  [simp]: "value_publish_inner C fault_in k v mode root =
     (case mode of
        InsertOnce \<Rightarrow>
          if find_leaf_iterative u8_label root k 0 \<noteq> None then NotApplied else value_attempt fault_in root k v
      | UpsertMode \<Rightarrow> value_attempt fault_in root k v
      | CompareAndSwapMode expected \<Rightarrow>
          (case bytes_equal C expected (Option.bind (find_leaf_iterative u8_label root k 0) get_value) of
             Inl e \<Rightarrow> AttemptError e
           | Inr same \<Rightarrow> if same then value_attempt fault_in root k v else NotApplied))"

text \<open>Which attempt an operation makes; the increment has its own two steps.\<close>

fun publish_attempt ::
    "u64 value_codec \<Rightarrow> (u8, u64) fault_in \<Rightarrow> mutation \<Rightarrow> (u8, u64) overlay_node \<Rightarrow> attempt" where
  "publish_attempt C fault_in (MInsert k) root =
     (if k = [] then root_attempt (as_final u8_label) root else insert_attempt fault_in k root)"
| "publish_attempt C fault_in (MRemove k) root =
     (if k = [] then root_attempt (as_non_final u8_label) root else remove_attempt fault_in k root)"
| "publish_attempt C fault_in (MInsertValue k v) root = value_publish_inner C fault_in k v InsertOnce root"
| "publish_attempt C fault_in (MUpsert k v) root = value_publish_inner C fault_in k v UpsertMode root"
| "publish_attempt C fault_in (MCompareAndSwap k expected v) root =
     value_publish_inner C fault_in k v (CompareAndSwapMode expected) root"
| "publish_attempt C fault_in (MIncrement k d) root = NotApplied"

text \<open>The counter reads the live root through the loader and falls back to its own
  snapshot.\<close>

definition current_count ::
    "(u8, u64) fault_in \<Rightarrow> u64 overlay_trie \<Rightarrow> (u8, u64) overlay_node \<Rightarrow> u8 list \<Rightarrow> u64" where
  "current_count fault_in t root k =
     (case (case walk_faulting_snapshot u8_label fault_in (pr_node (lockfree_root t)) k of
              Inr found \<Rightarrow> Option.bind found get_value
            | Inl _ \<Rightarrow> Option.bind (find_leaf_iterative u8_label root k 0) get_value) of
        None \<Rightarrow> 0
      | Some v \<Rightarrow> v)"

definition add_count :: "u64 value_codec \<Rightarrow> u64 \<Rightarrow> u64 \<Rightarrow> u64 option" where
  "add_count C cur delta = i128_to_counter_value (vc_type C) (vc_deserialize C) (uint cur + uint delta)"

subsection \<open>The machine\<close>

record durable_machine =
  dm_policy :: durability_policy
  dm_trie :: "u64 overlay_trie"
  dm_commit_seq :: u64
  dm_wal :: segment_machine
  dm_watermark :: committed_watermark
  dm_threads :: "nat \<rightharpoonup> mutation \<times> phase"
  dm_history :: "(u64 \<times> lsn \<times> mutation) list"

abbreviation live_root :: "durable_machine \<Rightarrow> u64 published_root" where
  "live_root s \<equiv> lockfree_root (dm_trie s)"

definition set_cache :: "(u8 list set \<Rightarrow> u8 list set) \<Rightarrow> durable_machine \<Rightarrow> durable_machine" where
  "set_cache f s = s\<lparr> dm_trie := (dm_trie s)\<lparr> lockfree_cache := f (lockfree_cache (dm_trie s)) \<rparr> \<rparr>"

definition mark_lsn :: "lsn \<Rightarrow> durable_machine \<Rightarrow> durable_machine" where
  "mark_lsn lsn s = s\<lparr> dm_watermark := mark_committed lsn (dm_watermark s) \<rparr>"

definition start_append :: "nat \<Rightarrow> wal_record \<Rightarrow> durable_machine \<Rightarrow> durable_machine" where
  "start_append i r s = s\<lparr> dm_wal := spawn_appender i r (dm_wal s) \<rparr>"

text \<open>\<open>sync_wal_after_append\<close> once the sync has succeeded: under a synchronous policy the
  durable frontier it reports must cover the record.  A failing sync is a step of
  its own below.\<close>

definition sync_wal_after_append :: "lsn \<Rightarrow> durable_machine \<Rightarrow> persistent_artrie_error + unit" where
  "sync_wal_after_append appended_lsn s =
     (if appended_lsn = 0 then Ok ()
      else case dm_policy s of
             Periodic \<Rightarrow> Ok ()
           | NoDurability \<Rightarrow> Ok ()
           | _ \<Rightarrow> if durable_lsn (dm_wal s) < appended_lsn
                   then Err (WalErr ''sync failed to cover appended LSN'') else Ok ())"

text \<open>One step of \<open>append_control_wal_record\<close>: the append itself, then the check after it.\<close>

definition append_step ::
    "nat \<Rightarrow> (lsn \<Rightarrow> phase) \<Rightarrow> phase \<Rightarrow> durable_machine \<Rightarrow> durable_machine \<times> phase" where
  "append_step i finished unfinished s =
     (case sm_appenders (dm_wal s) i of
        Some (Acked lsn _) \<Rightarrow>
          (case sync_wal_after_append lsn s of Inl e \<Rightarrow> (s, Errored e) | Inr _ \<Rightarrow> (s, finished lsn))
      | Some (WriteFailed _ _ _) \<Rightarrow> (s, Errored (IoError ''WAL''))
      | Some (WaitFailed _ _ _) \<Rightarrow> (s, Errored (IoError ''WAL''))
      | _ \<Rightarrow> (s\<lparr> dm_wal := run_appender i (dm_wal s) \<rparr>, unfinished))"

fun after_attempt :: "lsn \<Rightarrow> u64 published_root \<Rightarrow> u64 \<Rightarrow> reply \<Rightarrow> attempt \<Rightarrow> phase" where
  "after_attempt lsn old g r (Publish new_root delta) = Ready lsn old g new_root delta r"
| "after_attempt lsn old g r NotApplied = Refused lsn"
| "after_attempt lsn old g r (AttemptError e) = Errored e"

fun thread_step ::
    "u64 value_codec \<Rightarrow> (u8, u64) fault_in \<Rightarrow> nat \<Rightarrow> mutation \<Rightarrow> phase \<Rightarrow> durable_machine
     \<Rightarrow> durable_machine \<times> phase" where
  "thread_step C fault_in tid m Start s =
     (s, start_phase (dm_policy s) (lockfree_cache (dm_trie s)) m)"
| "thread_step C fault_in tid m Probe s = (s, probe_phase C (dm_trie s) m)"
| "thread_step C fault_in tid m Recheck s = (s, recheck_phase fault_in (dm_trie s) m)"
| "thread_step C fault_in tid m (Answered r) s = (set_cache (touch_cache m) s, Returned r None)"
| "thread_step C fault_in tid m (ToAppend r) s =
     (case data_record C m of
        Inl e \<Rightarrow> (s, Errored e)
      | Inr d \<Rightarrow> (start_append (2 * tid) d s, Appending r))"
| "thread_step C fault_in tid m (Appending r) s =
     append_step (2 * tid) (\<lambda>lsn. Pending lsn r) (Appending r) s"
| "thread_step C fault_in tid m (Pending lsn r) s = (s, Loaded lsn (live_root s) r)"
| "thread_step C fault_in tid m (Loaded lsn old r) s =
     (if already_in_state m (pr_node old) then (s, Refused lsn)
      else (s\<lparr> dm_commit_seq := dm_commit_seq s + 1 \<rparr>, Claimed lsn old (dm_commit_seq s + 1) r))"
| "thread_step C fault_in tid m (Claimed lsn old g r) s =
     (s, case m of
           MIncrement k d \<Rightarrow> Counted lsn old g (current_count fault_in (dm_trie s) (pr_node old) k)
         | _ \<Rightarrow> after_attempt lsn old g r (publish_attempt C fault_in m (pr_node old)))"
| "thread_step C fault_in tid m (Counted lsn old g cur) s =
     (s, case m of
           MIncrement k d \<Rightarrow>
             (case add_count C cur d of
                None \<Rightarrow> Errored (InvalidOperation ''lock-free increment overflow'')
              | Some v \<Rightarrow> after_attempt lsn old g (RCount v) (value_attempt fault_in (pr_node old) k v))
         | _ \<Rightarrow> Panicked)"
| "thread_step C fault_in tid m (Ready lsn old g new_root delta r) s =
     (case compare_exchange_revision_counted (live_root s) old new_root delta of
        None \<Rightarrow> (s, Panicked)
      | Some (won, slot) \<Rightarrow>
          if won
          then (s\<lparr> dm_trie := (dm_trie s)\<lparr> lockfree_root := slot \<rparr>,
                  dm_history := dm_history s @ [(g, lsn, m)] \<rparr>, Won lsn g r)
          else (s, Pending lsn r))"
| "thread_step C fault_in tid m (Won lsn g r) s =
     (start_append (2 * tid + 1) (CommitRank lsn (mutation_key m) g) (set_cache (touch_published m) s),
      Ranking lsn g r)"
| "thread_step C fault_in tid m (Ranking lsn g r) s =
     append_step (2 * tid + 1) (\<lambda>rank_lsn. Ranked lsn rank_lsn g r) (Ranking lsn g r) s"
| "thread_step C fault_in tid m (Ranked lsn rank_lsn g r) s =
     (mark_lsn lsn s, HalfMarked lsn rank_lsn g r)"
| "thread_step C fault_in tid m (HalfMarked lsn rank_lsn g r) s =
     (mark_lsn rank_lsn s, Returned r (Some (g, lsn)))"
| "thread_step C fault_in tid m (Refused lsn) s = (set_cache (touch_cache m) s, Burning lsn)"
| "thread_step C fault_in tid m (Burning lsn) s =
     (mark_lsn lsn s,
      case m of
        MUpsert _ _ \<Rightarrow> Errored (InternalError ''value publish unexpectedly refused'')
      | _ \<Rightarrow> Returned (RBool False) None)"
| "thread_step C fault_in tid m ph s = (s, ph)"

text \<open>Steps of the whole machine: a caller enters an operation, a thread makes its
  next access, the durability policy is set, the write of a log record fails, or
  the sync after a completed append fails and the operation returns its error.\<close>

definition run_thread ::
    "u64 value_codec \<Rightarrow> (u8, u64) fault_in \<Rightarrow> nat \<Rightarrow> durable_machine \<Rightarrow> durable_machine" where
  "run_thread C fault_in tid s =
     (case dm_threads s tid of
        None \<Rightarrow> s
      | Some (m, ph) \<Rightarrow>
          let (s', ph') = thread_step C fault_in tid m ph s
          in s'\<lparr> dm_threads := (dm_threads s)(tid \<mapsto> (m, ph')) \<rparr>)"

definition spawn_thread :: "nat \<Rightarrow> mutation \<Rightarrow> durable_machine \<Rightarrow> durable_machine" where
  "spawn_thread tid m s = s\<lparr> dm_threads := (dm_threads s)(tid \<mapsto> (m, Start)) \<rparr>"

definition fail_write :: "nat \<Rightarrow> lsn \<Rightarrow> wal_record \<Rightarrow> nat \<Rightarrow> segment_machine \<Rightarrow> segment_machine" where
  "fail_write i lsn r offset w =
     w\<lparr> sm_writer := (sm_writer w)\<lparr> sw_writer := mark_segment_failed lsn (sw_writer (sm_writer w)) \<rparr>,
       sm_appenders := (sm_appenders w)(i \<mapsto> WriteFailed lsn r offset) \<rparr>"

text \<open>The appender whose record a thread in this phase is waiting for.\<close>

fun awaited_append :: "nat \<Rightarrow> phase \<Rightarrow> nat option" where
  "awaited_append tid (Appending _) = Some (2 * tid)"
| "awaited_append tid (Ranking _ _ _) = Some (2 * tid + 1)"
| "awaited_append tid _ = None"

definition fail_sync :: "nat \<Rightarrow> mutation \<Rightarrow> durable_machine \<Rightarrow> durable_machine" where
  "fail_sync tid m s = s\<lparr> dm_threads := (dm_threads s)(tid \<mapsto> (m, Errored (IoError ''WAL''))) \<rparr>"

definition set_durability_policy :: "durability_policy \<Rightarrow> durable_machine \<Rightarrow> durable_machine" where
  "set_durability_policy policy s = s\<lparr> dm_policy := policy \<rparr>"

inductive durable_step ::
    "u64 value_codec \<Rightarrow> (u8, u64) fault_in \<Rightarrow> durable_machine \<Rightarrow> durable_machine \<Rightarrow> bool"
  for C fault_in where
  spawn: "dm_threads s tid = None \<Longrightarrow> durable_step C fault_in s (spawn_thread tid m s)"
| run: "durable_step C fault_in s (run_thread C fault_in tid s)"
| write_error: "sm_appenders (dm_wal s) i = Some (Placed lsn r offset) \<Longrightarrow>
    durable_step C fault_in s (s\<lparr> dm_wal := fail_write i lsn r offset (dm_wal s) \<rparr>)"
| set_policy: "durable_step C fault_in s (set_durability_policy policy s)"
| sync_error: "dm_threads s tid = Some (m, ph) \<Longrightarrow> awaited_append tid ph = Some i \<Longrightarrow>
    sm_appenders (dm_wal s) i = Some (Acked lsn r) \<Longrightarrow> dm_policy s \<in> {Immediate, GroupCommit} \<Longrightarrow>
    durable_step C fault_in s (fail_sync tid m s)"

definition durable_init :: "durability_policy \<Rightarrow> durable_machine" where
  "durable_init policy = \<lparr> dm_policy = policy, dm_trie = install_overlay, dm_commit_seq = 0,
     dm_wal = segment_init, dm_watermark = watermark_new 0, dm_threads = Map.empty, dm_history = [] \<rparr>"

text \<open>The states reached in \<open>n\<close> steps.\<close>

inductive durable_run ::
    "u64 value_codec \<Rightarrow> (u8, u64) fault_in \<Rightarrow> nat \<Rightarrow> durable_machine \<Rightarrow> bool"
  for C fault_in where
  init: "durable_run C fault_in 0 (durable_init policy)"
| step: "durable_run C fault_in n s \<Longrightarrow> durable_step C fault_in s s' \<Longrightarrow> durable_run C fault_in (Suc n) s'"

end
