(* ===== verification/Durable_Protocol.thy ===== *)
theory Durable_Protocol
  imports Durable_Write
begin

text \<open>
  The invariant of the durable write protocol.  \<open>durable_inv\<close> says that the log holds
  each thread's data record and, after it, the rank of a published operation; that
  generations increase in the order of publication and the live root is what the
  published operations lead to; and what each phase of a thread has established.
  One lemma shows that the steps of a thread keep what the other threads rely on
  (\<open>keeps\<close>), one lemma for each kind of step keeps the invariant, and
  \<open>durable_run_inv\<close> collects them for every run.
\<close>

subsection \<open>Effect of an operation on its key\<close>

definition count_of :: "u64 option option \<Rightarrow> u64" where
  "count_of entry = (case entry of Some (Some v) \<Rightarrow> v | _ \<Rightarrow> 0)"

fun apply_entry :: "mutation \<Rightarrow> u64 option option \<Rightarrow> u64 option option" where
  "apply_entry (MInsert _) entry = (case entry of None \<Rightarrow> Some None | Some v \<Rightarrow> Some v)"
| "apply_entry (MRemove _) entry = None"
| "apply_entry (MInsertValue _ v) entry = Some (Some v)"
| "apply_entry (MUpsert _ v) entry = Some (Some v)"
| "apply_entry (MCompareAndSwap _ _ v) entry = Some (Some v)"
| "apply_entry (MIncrement _ d) entry =
     (if uint (count_of entry) + uint d < 2 ^ 64 then Some (Some (count_of entry + d)) else entry)"

definition apply_mutation :: "mutation \<Rightarrow> (u8 list \<rightharpoonup> u64 option) \<Rightarrow> u8 list \<rightharpoonup> u64 option" where
  "apply_mutation m M = M(mutation_key m := apply_entry m (M (mutation_key m)))"

text \<open>The map a sequence of published operations leads to.\<close>

definition history_map :: "(u64 \<times> lsn \<times> mutation) list \<Rightarrow> u8 list \<rightharpoonup> u64 option" where
  "history_map H = fold (\<lambda>(_, _, m). apply_mutation m) H Map.empty"

text \<open>The documented behaviour of the value codec on \<open>u64\<close>: eight little-endian
  bytes.\<close>

definition codec_ok :: "u64 value_codec \<Rightarrow> bool" where
  "codec_ok C \<longleftrightarrow> vc_type C = U64Value \<and> (\<forall>v. vc_serialize C v = Some (u64_to_le_bytes v))
     \<and> (\<forall>v. vc_deserialize C (u64_to_le_bytes v) = Some v)"

lemma word_succ_room:
  fixes x :: u64
  assumes "unat x < 2 ^ 64 - 1"
  shows "unat (x + 1) = Suc (unat x)" "x < x + 1" "x \<noteq> - 1"
proof -
  have "unat (- 1 :: u64) = 2 ^ 64 - 1"
    by (simp add: unsigned_minus_1_eq_mask mask_eq_exp_minus_1)
  then show "x \<noteq> - 1"
    using assms by (intro notI) simp
  then have "1 + x \<noteq> 0"
    using add_eq_0_iff [of 1 x] by blast
  then show unat: "unat (x + 1) = Suc (unat x)"
    using unatSuc [of x] by (simp only: add.commute not_False_eq_True)
  then show "x < x + 1"
    by (simp only: word_less_nat_alt lessI)
qed

lemma history_map_snoc: "history_map (H @ [(g, l, m)]) = apply_mutation m (history_map H)"
  by (simp add: history_map_def)

lemma add_count_spec:
  assumes "codec_ok C"
  shows "add_count C cur d = (if uint cur + uint d < 2 ^ 64 then Some (cur + d) else None)"
proof -
  have "\<not> uint cur + uint d < 0" by (simp add: not_less)
  moreover have "word_of_int (uint cur + uint d) = cur + d"
    by (simp add: wi_hom_add)
  ultimately show ?thesis
    using assms by (auto simp: add_count_def codec_ok_def i128_to_counter_value_def i128_to_counter_leaf_def)
qed

lemma bytes_equal_spec: "codec_ok C \<Longrightarrow> bytes_equal C e c = Ok (c = e)"
  by (auto simp: bytes_equal_def serialize_value_def codec_ok_def Let_def split: option.splits
      dest: arg_cong [of "u64_to_le_bytes _" _ u64_from_le_bytes])

subsection \<open>An attempt changes one key\<close>

text \<open>A new root that updates the key of the mutation in the loaded revision, with
  the change of the term count.\<close>

definition prepared :: "u64 published_root \<Rightarrow> u8 list \<Rightarrow> (u8, u64) overlay_node \<Rightarrow> int \<Rightarrow> u64 option option \<Rightarrow> bool" where
  "prepared old k new delta x \<longleftrightarrow>
     updates (pr_node old) new k x \<and> delta = entry_delta (root_map (pr_node old) k) x"

lemma value_attempt_spec:
  assumes "root_ok old" "loader_ok u8_label fault_in"
  shows "\<exists>new delta. value_attempt fault_in (pr_node old) k v = Publish new delta
    \<and> prepared old k new delta (Some (Some v))"
proof -
  obtain n where "build_value_path_iterative u8_label fault_in (pr_node old) k 0 v = Ok n"
      "updates (pr_node old) n k (Some (Some v))"
    using value_path_spec [OF assms] by blast
  moreover have "find_leaf_iterative u8_label (pr_node old) k 0 = None \<longleftrightarrow> root_map (pr_node old) k = None"
    using find_leaf_root_map [of "pr_node old" k] by auto
  ultimately show ?thesis
    by (auto simp: value_attempt_def prepared_def entry_delta_def simp del: term_map.simps)
qed

lemma attempt_spec:
  assumes "root_ok old" "loader_ok u8_label fault_in" "codec_ok C" "\<not> already_in_state m (pr_node old)"
    and "publish_attempt C fault_in m (pr_node old) = Publish new delta"
  shows "prepared old (mutation_key m) new delta (apply_entry m (root_map (pr_node old) (mutation_key m)))"
proof (cases m)
  case (MInsert k)
  show ?thesis
  proof (cases "k = []")
    case True
    then show ?thesis
      using assms root_clone_updates(1) [OF assms(1)] MInsert
      by (auto simp: prepared_def finality_delta_def entry_delta_def node_simps)
  next
    case False
    then show ?thesis
      using assms(5) final_path_spec [OF assms(1,2), of k] MInsert
      by (auto simp: build_attempt_def prepared_def entry_delta_def simp del: term_map.simps
          split: sum.splits durable_build_error.splits)
  qed
next
  case (MRemove k)
  show ?thesis
  proof (cases "k = []")
    case True
    then show ?thesis
      using assms root_clone_updates(2) [OF assms(1)] MRemove
      by (auto simp: prepared_def finality_delta_def entry_delta_def node_simps)
  next
    case False
    then show ?thesis
      using assms(5) remove_path_spec [OF assms(1,2), of k] MRemove
      by (auto simp: build_attempt_def prepared_def entry_delta_def simp del: term_map.simps
          split: sum.splits durable_build_error.splits)
  qed
next
  case (MInsertValue k v)
  then show ?thesis
    using assms(5) value_attempt_spec [OF assms(1,2), of k v] by (auto split: if_splits)
next
  case (MUpsert k v)
  then show ?thesis
    using assms(5) value_attempt_spec [OF assms(1,2), of k v] by auto
next
  case (MCompareAndSwap k e v)
  then show ?thesis
    using assms(5) value_attempt_spec [OF assms(1,2), of k v] by (auto simp: bytes_equal_spec [OF assms(3)] split: if_splits)
qed (use assms(5) in simp)

lemma current_count_spec:
  assumes "root_ok (lockfree_root t)"
  shows "current_count fault_in t root k = count_of (trie_map t k)"
proof -
  have "all_in_memory u8_label (pr_node (lockfree_root t))"
    using assms by (simp add: root_ok_def)
  from in_memory_path [OF this, of fault_in k] show ?thesis
    using walk_faulting_snapshot_spec [of u8_label fault_in "pr_node (lockfree_root t)" k]
    by (auto simp: current_count_def count_of_def simp del: term_map.simps split: sum.splits option.splits)
qed


subsection \<open>Invariant\<close>

definition owner :: "durable_machine \<Rightarrow> nat \<rightharpoonup> mutation" where
  "owner s tid = map_option fst (dm_threads s tid)"

abbreviation appender_at :: "durable_machine \<Rightarrow> nat \<Rightarrow> appender option" where
  "appender_at s i \<equiv> sm_appenders (dm_wal s) i"

text \<open>The data record of a thread is acknowledged at an LSN; its rank is.\<close>

definition data_at :: "durable_machine \<Rightarrow> nat \<Rightarrow> lsn \<Rightarrow> bool" where
  "data_at s tid l \<longleftrightarrow> (\<exists>d. appender_at s (2 * tid) = Some (Acked l d))"

definition rank_at :: "durable_machine \<Rightarrow> nat \<Rightarrow> lsn \<Rightarrow> lsn \<Rightarrow> u64 \<Rightarrow> bool" where
  "rank_at s tid rl l g \<longleftrightarrow> (\<exists>k. appender_at s (2 * tid + 1) = Some (Acked rl (CommitRank l k g)))"

text \<open>A data record that is durable and not published.\<close>

definition waiting_at :: "durable_machine \<Rightarrow> nat \<Rightarrow> lsn \<Rightarrow> bool" where
  "waiting_at s tid l \<longleftrightarrow> data_at s tid l \<and> appender_at s (2 * tid + 1) = None
     \<and> l \<notin> fst ` snd ` set (dm_history s)"

text \<open>A revision a thread loaded: it is the live root or an older one.\<close>

definition loaded_ok :: "nat \<Rightarrow> durable_machine \<Rightarrow> u64 published_root \<Rightarrow> bool" where
  "loaded_ok n s old \<longleftrightarrow> root_ok old \<and> card (dom (root_map (pr_node old))) \<le> n
     \<and> pr_id old \<le> pr_id (live_root s) \<and> (pr_id old = pr_id (live_root s) \<longrightarrow> old = live_root s)"

text \<open>A generation claimed after loading: while the root is the loaded one, it is
  above every published generation.\<close>

definition claimed_ok :: "durable_machine \<Rightarrow> u64 published_root \<Rightarrow> u64 \<Rightarrow> bool" where
  "claimed_ok s old g \<longleftrightarrow> g \<le> dm_commit_seq s
     \<and> (pr_id old = pr_id (live_root s) \<longrightarrow> (\<forall>c\<in>set (dm_history s). fst c < g))"

fun phase_inv :: "nat \<Rightarrow> lsn set \<Rightarrow> durable_machine \<Rightarrow> nat \<Rightarrow> mutation \<Rightarrow> phase \<Rightarrow> bool" where
  "phase_inv n S s tid m (Appending r) =
     (appender_at s (2 * tid) \<noteq> None \<and> appender_at s (2 * tid + 1) = None
      \<and> (\<forall>l. of_appender lsn_of (dm_wal s) (2 * tid) = Some l \<longrightarrow> l \<notin> fst ` snd ` set (dm_history s)))"
| "phase_inv n S s tid m (Pending l r) = waiting_at s tid l"
| "phase_inv n S s tid m (Loaded l old r) = (waiting_at s tid l \<and> loaded_ok n s old)"
| "phase_inv n S s tid m (Claimed l old g r) =
     (waiting_at s tid l \<and> loaded_ok n s old \<and> claimed_ok s old g \<and> \<not> already_in_state m (pr_node old))"
| "phase_inv n S s tid m (Counted l old g cur) =
     ((\<exists>k d. m = MIncrement k d) \<and> waiting_at s tid l \<and> loaded_ok n s old \<and> claimed_ok s old g
      \<and> (pr_id old = pr_id (live_root s) \<longrightarrow> cur = count_of (root_map (pr_node old) (mutation_key m))))"
| "phase_inv n S s tid m (Ready l old g new delta r) =
     (waiting_at s tid l \<and> loaded_ok n s old \<and> claimed_ok s old g
      \<and> (\<exists>x. prepared old (mutation_key m) new delta x
           \<and> (pr_id old = pr_id (live_root s) \<longrightarrow> x = apply_entry m (root_map (pr_node old) (mutation_key m)))))"
| "phase_inv n S s tid m (Won l g r) =
     (data_at s tid l \<and> appender_at s (2 * tid + 1) = None \<and> (g, l, m) \<in> set (dm_history s))"
| "phase_inv n S s tid m (Ranking l g r) =
     (data_at s tid l \<and> (\<exists>a. appender_at s (2 * tid + 1) = Some a \<and> record_of a = CommitRank l (mutation_key m) g)
      \<and> (g, l, m) \<in> set (dm_history s))"
| "phase_inv n S s tid m (Ranked l rl g r) =
     (data_at s tid l \<and> rank_at s tid rl l g \<and> (g, l, m) \<in> set (dm_history s))"
| "phase_inv n S s tid m (HalfMarked l rl g r) =
     (data_at s tid l \<and> rank_at s tid rl l g \<and> (g, l, m) \<in> set (dm_history s) \<and> l \<in> S)"
| "phase_inv n S s tid m (Returned r (Some (g, l))) =
     (data_at s tid l \<and> (\<exists>rl\<in>S. rank_at s tid rl l g) \<and> (g, l, m) \<in> set (dm_history s) \<and> l \<in> S)"
| "phase_inv n S s tid m (Returned r None) =
     (appender_at s (2 * tid) = None \<and> appender_at s (2 * tid + 1) = None \<or> (\<exists>l\<in>S. waiting_at s tid l))"
| "phase_inv n S s tid m (Refused l) = waiting_at s tid l"
| "phase_inv n S s tid m (Burning l) = waiting_at s tid l"
| "phase_inv n S s tid m (Errored _) = True"
| "phase_inv n S s tid m Panicked = False"
| "phase_inv n S s tid m ph = (appender_at s (2 * tid) = None \<and> appender_at s (2 * tid + 1) = None)"

text \<open>Every rank in a log comes after its data record.\<close>

definition ranks_follow :: "(lsn \<times> wal_record) list \<Rightarrow> bool" where
  "ranks_follow P \<longleftrightarrow> (\<forall>A B rl l k g. P = A @ (rl, CommitRank l k g) # B \<longrightarrow> l \<in> fst ` set A)"

text \<open>The log: every data record is its thread's, every rank names a published
  operation whose data record has a place before it.\<close>

definition log_inv :: "u64 value_codec \<Rightarrow> durable_machine \<Rightarrow> bool" where
  "log_inv C s \<longleftrightarrow> lsn_inv (dm_wal s) \<and> segment_machine_inv (dm_wal s)
     \<and> (\<forall>tid a. appender_at s (2 * tid) = Some a \<longrightarrow>
          (\<exists>m. owner s tid = Some m \<and> data_record C m = Ok (record_of a)))
     \<and> (\<forall>tid a. appender_at s (2 * tid + 1) = Some a \<longrightarrow>
          (\<exists>m l g. owner s tid = Some m \<and> record_of a = CommitRank l (mutation_key m) g
             \<and> (g, l, m) \<in> set (dm_history s) \<and> data_at s tid l))
     \<and> ranks_follow (sm_placed (dm_wal s))"

text \<open>The published operations: generations increase, every data record is durable,
  and the live root is what they lead to.\<close>

definition history_inv :: "nat \<Rightarrow> durable_machine \<Rightarrow> bool" where
  "history_inv n s \<longleftrightarrow> sorted_wrt (<) (map fst (dm_history s))
     \<and> (\<forall>(g, l, m)\<in>set (dm_history s). g \<le> dm_commit_seq s
          \<and> (\<exists>tid. owner s tid = Some m \<and> data_at s tid l))
     \<and> distinct (map (fst \<circ> snd) (dm_history s))
     \<and> root_ok (live_root s) \<and> trie_map (dm_trie s) = history_map (dm_history s)
     \<and> card (dom (trie_map (dm_trie s))) \<le> n"

definition counters_inv :: "nat \<Rightarrow> lsn set \<Rightarrow> durable_machine \<Rightarrow> bool" where
  "counters_inv n S s \<longleftrightarrow> unat (dm_commit_seq s) \<le> n \<and> unat (next_lsn (dm_wal s)) \<le> Suc n
     \<and> watermark_inv 0 S (dm_watermark s) \<and> S \<subseteq> {0<..<next_lsn (dm_wal s)}"

definition durable_inv :: "u64 value_codec \<Rightarrow> nat \<Rightarrow> lsn set \<Rightarrow> durable_machine \<Rightarrow> bool" where
  "durable_inv C n S s \<longleftrightarrow> log_inv C s \<and> history_inv n s \<and> counters_inv n S s
     \<and> (\<forall>tid m ph. dm_threads s tid = Some (m, ph) \<longrightarrow> phase_inv n S s tid m ph)"


subsection \<open>Steps of one thread as seen by the others\<close>

definition keeps :: "nat \<Rightarrow> durable_machine \<Rightarrow> durable_machine \<Rightarrow> bool" where
  "keeps tid s s' \<longleftrightarrow>
     (\<forall>i. i \<noteq> 2 * tid \<longrightarrow> i \<noteq> 2 * tid + 1 \<longrightarrow> appender_at s' i = appender_at s i)
     \<and> set (dm_history s) \<subseteq> set (dm_history s')
     \<and> (\<forall>c\<in>set (dm_history s') - set (dm_history s). data_at s tid (fst (snd c)))
     \<and> dm_commit_seq s \<le> dm_commit_seq s' \<and> pr_id (live_root s) \<le> pr_id (live_root s')
     \<and> (pr_id (live_root s') = pr_id (live_root s) \<longrightarrow>
          live_root s' = live_root s \<and> dm_history s' = dm_history s)"

lemma keepsD:
  assumes "keeps tid s s'"
  shows "i \<noteq> 2 * tid \<Longrightarrow> i \<noteq> Suc (2 * tid) \<Longrightarrow> appender_at s' i = appender_at s i"
    and "c \<in> set (dm_history s) \<Longrightarrow> c \<in> set (dm_history s')"
    and "c \<in> set (dm_history s') \<Longrightarrow> c \<in> set (dm_history s) \<or> data_at s tid (fst (snd c))"
    and "dm_commit_seq s \<le> dm_commit_seq s'"
    and "pr_id (live_root s) \<le> pr_id (live_root s')"
    and "pr_id (live_root s') = pr_id (live_root s) \<Longrightarrow> live_root s' = live_root s \<and> dm_history s' = dm_history s"
  using assms unfolding keeps_def Suc_eq_plus1 by blast+

lemma keeps_appender:
  "keeps tid s s' \<Longrightarrow> tid' \<noteq> tid \<Longrightarrow>
   appender_at s' (2 * tid') = appender_at s (2 * tid') \<and> appender_at s' (Suc (2 * tid')) = appender_at s (Suc (2 * tid'))"
proof -
  assume a: "keeps tid s s'" "tid' \<noteq> tid"
  have "2 * tid' \<noteq> Suc (2 * tid)" "Suc (2 * tid') \<noteq> 2 * tid"
    by presburger+
  then show ?thesis
    using keepsD(1) [OF a(1)] a(2) by simp
qed

lemma keeps_unpublished:
  assumes k: "keeps tid s s'" and "tid' \<noteq> tid" "lsn_inv (dm_wal s)" "of_appender lsn_of (dm_wal s) (2 * tid') = Some l"
    and "l \<notin> fst ` snd ` set (dm_history s)"
  shows "l \<notin> fst ` snd ` set (dm_history s')"
proof
  assume "l \<in> fst ` snd ` set (dm_history s')"
  then obtain c where c: "c \<in> set (dm_history s')" "l = fst (snd c)"
    by auto
  then have "data_at s tid l"
    using keepsD(3) [OF k c(1)] assms(5) by auto
  then have "of_appender lsn_of (dm_wal s) (2 * tid) = Some l"
    by (auto simp: data_at_def of_appender_def)
  then show False
    using lsn_holder_unique [OF assms(3,4), of "2 * tid"] assms(2) by simp
qed

lemma keeps_loaded:
  assumes k: "keeps tid s s'" and old: "loaded_ok n s old"
  shows "loaded_ok (Suc n) s' old"
    and "claimed_ok s old g \<Longrightarrow> claimed_ok s' old g"
    and "pr_id old = pr_id (live_root s') \<Longrightarrow> pr_id old = pr_id (live_root s)"
proof -
  have old': "root_ok old" "card (dom (root_map (pr_node old))) \<le> n" "pr_id old \<le> pr_id (live_root s)"
      "pr_id old = pr_id (live_root s) \<Longrightarrow> old = live_root s"
    using old unfolding loaded_ok_def by blast+
  show same: "pr_id old = pr_id (live_root s)" if "pr_id old = pr_id (live_root s')"
    using keepsD(5) [OF k] old'(3) that by linarith
  have stay: "live_root s' = live_root s \<and> dm_history s' = dm_history s" if "pr_id old = pr_id (live_root s')"
    by (rule keepsD(6) [OF k]) (use that same [OF that] in \<open>rule trans [OF sym]\<close>)
  have "old = live_root s'" if "pr_id old = pr_id (live_root s')"
    by (rule trans [OF old'(4) [OF same [OF that]] conjunct1 [OF stay [OF that], THEN sym]])
  moreover have "pr_id old \<le> pr_id (live_root s')"
    using keepsD(5) [OF k] old'(3) by linarith
  ultimately show "loaded_ok (Suc n) s' old"
    using old'(1,2) unfolding loaded_ok_def by (intro conjI impI) simp_all
  assume g: "claimed_ok s old g"
  have "g \<le> dm_commit_seq s'"
    using g keepsD(4) [OF k] unfolding claimed_ok_def by (elim conjE) (rule order_trans)
  moreover have "\<forall>c\<in>set (dm_history s'). fst c < g" if "pr_id old = pr_id (live_root s')"
    using g same [OF that] stay [OF that] unfolding claimed_ok_def by simp
  ultimately show "claimed_ok s' old g"
    unfolding claimed_ok_def by blast
qed

lemma keeps_at:
  assumes "keeps tid s s'" "tid' \<noteq> tid"
  shows "data_at s' tid' l = data_at s tid' l" "rank_at s' tid' rl l g = rank_at s tid' rl l g"
  using keeps_appender [OF assms] by (simp_all add: data_at_def rank_at_def)

lemma keeps_waiting:
  assumes "keeps tid s s'" "tid' \<noteq> tid" "lsn_inv (dm_wal s)" "waiting_at s tid' l"
  shows "waiting_at s' tid' l"
proof -
  have "of_appender lsn_of (dm_wal s) (2 * tid') = Some l"
    using assms(4) by (auto simp: waiting_at_def data_at_def of_appender_def)
  then show ?thesis
    using keeps_unpublished [OF assms(1-3)] keeps_appender [OF assms(1,2)] assms(4)
    by (simp add: waiting_at_def data_at_def)
qed

lemma keeps_phase:
  assumes k: "keeps tid s s'" "tid' \<noteq> tid" and inv: "lsn_inv (dm_wal s)" "S \<subseteq> S'" and ph: "phase_inv n S s tid' m ph"
  shows "phase_inv (Suc n) S' s' tid' m ph"
proof -
  note app = keeps_appender [OF k] keeps_at [OF k]
  note waiting = keeps_waiting [OF k inv(1)]
  have hist: "c \<in> set (dm_history s')" if "c \<in> set (dm_history s)" for c
    using keepsD(2) [OF k(1) that] .
  show ?thesis
  proof (cases ph)
    case (Appending r)
    have "of_appender lsn_of (dm_wal s') (2 * tid') = of_appender lsn_of (dm_wal s) (2 * tid')"
      using app(1) by (simp add: of_appender_def)
    then show ?thesis
      using ph Appending app(1) keeps_unpublished [OF k inv(1)] by simp
  next
    case (Ready l old g new delta r)
    then have old: "loaded_ok n s old"
      using ph by simp
    show ?thesis
      using ph Ready waiting keeps_loaded(1,2) [OF k(1) old] keeps_loaded(3) [OF k(1) old] by (simp, blast)
  next
    case (Counted l old g cur)
    then have old: "loaded_ok n s old"
      using ph by simp
    show ?thesis
      using ph Counted waiting keeps_loaded(1,2) [OF k(1) old] keeps_loaded(3) [OF k(1) old] by simp
  next
    case (Loaded l old r)
    then show ?thesis
      using ph waiting keeps_loaded(1) [OF k(1), of n old] by simp
  next
    case (Claimed l old g r)
    then show ?thesis
      using ph waiting keeps_loaded(1,2) [OF k(1), of n old] by simp
  next
    case (Returned r c)
    then show ?thesis
      using ph by (cases c) (auto simp: app hist intro: subsetD [OF inv(2)] bexI [OF _ subsetD [OF inv(2)]] waiting)
  next
    case (HalfMarked l rl g r)
    then show ?thesis
      using ph subsetD [OF inv(2)] by (simp add: app hist)
  qed (use ph in \<open>simp_all add: app hist waiting\<close>)
qed


text \<open>The invariant after a step of one thread, from what the step does to the shared
  state and to the thread itself.\<close>

lemma durable_inv_step:
  assumes inv: "durable_inv C n S s" and t: "dm_threads s tid = Some (m, ph)"
      "dm_threads s' = (dm_threads s)(tid \<mapsto> (m, ph'))"
    and k: "keeps tid s s'" "S \<subseteq> S'"
    and new: "log_inv C s'" "history_inv (Suc n) s'" "counters_inv (Suc n) S' s'" "phase_inv (Suc n) S' s' tid m ph'"
  shows "durable_inv C (Suc n) S' s'"
proof -
  have "phase_inv (Suc n) S' s' tid' m' ph''" if "dm_threads s' tid' = Some (m', ph'')" for tid' m' ph''
  proof (cases "tid' = tid")
    case False
    moreover have "lsn_inv (dm_wal s)"
      using inv unfolding durable_inv_def log_inv_def by blast
    moreover have "phase_inv n S s tid' m' ph''"
      using False inv that t(2) unfolding durable_inv_def by simp
    ultimately show ?thesis
      using keeps_phase [OF k(1) _ _ k(2)] by blast
  qed (use that t(2) new(4) in simp)
  then show ?thesis
    using new(1-3) unfolding durable_inv_def by blast
qed

text \<open>Parts of the invariant that a step leaves alone.\<close>

lemma log_inv_cong:
  assumes inv: "log_inv C s" and s': "dm_wal s' = dm_wal s" "set (dm_history s) \<subseteq> set (dm_history s')"
      "\<And>tid m. owner s tid = Some m \<Longrightarrow> owner s' tid = Some m"
  shows "log_inv C s'"
proof -
  have "\<exists>m. owner s' tid = Some m \<and> data_record C m = Ok (record_of a)" if "appender_at s (2 * tid) = Some a" for tid a
    using inv that s'(3) unfolding log_inv_def by blast
  moreover have "\<exists>m l g. owner s' tid = Some m \<and> record_of a = CommitRank l (mutation_key m) g
      \<and> (g, l, m) \<in> set (dm_history s') \<and> data_at s' tid l" if "appender_at s (2 * tid + 1) = Some a" for tid a
    using inv that s'(2,3) unfolding log_inv_def data_at_def s'(1) by blast
  ultimately show ?thesis
    using inv unfolding log_inv_def s'(1) by blast
qed

lemma history_inv_cong:
  assumes inv: "history_inv n s"
    and "dm_history s' = dm_history s" "live_root s' = live_root s" "dm_commit_seq s \<le> dm_commit_seq s'"
      "\<And>tid m. owner s tid = Some m \<Longrightarrow> owner s' tid = Some m"
      "\<And>tid l. data_at s tid l \<Longrightarrow> data_at s' tid l"
  shows "history_inv (Suc n) s'"
proof -
  have "g \<le> dm_commit_seq s' \<and> (\<exists>tid. owner s' tid = Some m \<and> data_at s' tid l)" if "(g, l, m) \<in> set (dm_history s)" for g l m
    using inv that assms(4-6) unfolding history_inv_def by (fastforce intro: order_trans)
  then show ?thesis
    using inv unfolding history_inv_def assms(2,3) by auto
qed

lemma counters_inv_cong:
  assumes "counters_inv n S s" "dm_commit_seq s' = dm_commit_seq s" "next_lsn (dm_wal s') = next_lsn (dm_wal s)"
    "dm_watermark s' = dm_watermark s"
  shows "counters_inv (Suc n) S s'"
  using assms unfolding counters_inv_def by simp

lemma keeps_same:
  assumes "dm_wal s' = dm_wal s" "dm_history s' = dm_history s" "live_root s' = live_root s"
    "dm_commit_seq s \<le> dm_commit_seq s'"
  shows "keeps tid s s'"
  using assms unfolding keeps_def by simp

lemma owner_update:
  "dm_threads s tid = Some (m, ph) \<Longrightarrow> dm_threads s' = (dm_threads s)(tid \<mapsto> (m, ph')) \<Longrightarrow> owner s' = owner s"
  by (simp add: owner_def fun_eq_iff)

lemma owner_kept:
  assumes "dm_threads s tid = Some (m, ph)" "dm_threads s' = (dm_threads s)(tid \<mapsto> (m, ph'))" "owner s t = Some x"
  shows "owner s' t = Some x"
  using owner_update [OF assms(1,2)] assms(3) by simp

text \<open>A step that touches at most the lookup cache.\<close>

lemma inv_quiet:
  assumes inv: "durable_inv C n S s" and t: "dm_threads s tid = Some (m, ph)"
      "dm_threads s' = (dm_threads s)(tid \<mapsto> (m, ph'))"
    and s': "dm_wal s' = dm_wal s" "dm_history s' = dm_history s" "live_root s' = live_root s"
      "dm_commit_seq s' = dm_commit_seq s" "dm_watermark s' = dm_watermark s"
    and ph': "phase_inv (Suc n) S s' tid m ph'"
  shows "durable_inv C (Suc n) S s'"
proof (rule durable_inv_step [OF inv t keeps_same [OF s'(1-3)] order_refl _ _ _ ph'])
  have parts: "log_inv C s" "history_inv n s" "counters_inv n S s"
    using inv unfolding durable_inv_def by blast+
  show "log_inv C s'"
    using log_inv_cong [OF parts(1) s'(1) _ owner_kept [OF t]] s'(2) by simp
  show "history_inv (Suc n) s'"
    using history_inv_cong [OF parts(2) s'(2,3) _ owner_kept [OF t]] s'(1,4) by (simp add: data_at_def)
  show "counters_inv (Suc n) S s'"
    by (rule counters_inv_cong [OF parts(3)]) (simp_all add: s')
qed (simp add: s')

lemma commit_seq_room:
  assumes "counters_inv n S s" "n < 2 ^ 64 - 1"
  shows "unat (dm_commit_seq s + 1) = Suc (unat (dm_commit_seq s))" "dm_commit_seq s < dm_commit_seq s + 1"
  using word_succ_room [of "dm_commit_seq s"] assms by (simp_all add: counters_inv_def)

lemma inv_claim:
  assumes inv: "durable_inv C n S s" and t: "dm_threads s tid = Some (m, ph)"
      "dm_threads s' = (dm_threads s)(tid \<mapsto> (m, ph'))"
    and s': "dm_wal s' = dm_wal s" "dm_history s' = dm_history s" "live_root s' = live_root s"
      "dm_commit_seq s' = dm_commit_seq s + 1" "dm_watermark s' = dm_watermark s"
    and n: "n < 2 ^ 64 - 1" and ph': "phase_inv (Suc n) S s' tid m ph'"
  shows "durable_inv C (Suc n) S s'"
proof -
  have parts: "log_inv C s" "history_inv n s" "counters_inv n S s"
    using inv unfolding durable_inv_def by blast+
  note unat = commit_seq_room(1) [OF parts(3) n] and lt = commit_seq_room(2) [OF parts(3) n]
  show "durable_inv C (Suc n) S s'"
  proof (rule durable_inv_step [OF inv t keeps_same [OF s'(1-3)] order_refl _ _ _ ph'])
    show "log_inv C s'"
      using log_inv_cong [OF parts(1) s'(1) _ owner_kept [OF t]] s'(2) by simp
    show "history_inv (Suc n) s'"
      using history_inv_cong [OF parts(2) s'(2,3) _ owner_kept [OF t]] s'(1,4) lt by (simp add: data_at_def)
    show "counters_inv (Suc n) S s'"
      using parts(3) unat by (simp add: counters_inv_def s')
  qed (use lt in \<open>simp add: s'\<close>)
qed

lemma inv_mark:
  assumes inv: "durable_inv C n S s" and t: "dm_threads s tid = Some (m, ph)"
      "dm_threads s' = (dm_threads s)(tid \<mapsto> (m, ph'))"
    and s': "dm_wal s' = dm_wal s" "dm_history s' = dm_history s" "live_root s' = live_root s"
      "dm_commit_seq s' = dm_commit_seq s" "dm_watermark s' = mark_committed l (dm_watermark s)"
    and l: "l \<in> {0<..<next_lsn (dm_wal s)}" and ph': "phase_inv (Suc n) (insert l S) s' tid m ph'"
  shows "durable_inv C (Suc n) (insert l S) s'"
proof (rule durable_inv_step [OF inv t keeps_same [OF s'(1-3)] subset_insertI _ _ _ ph'])
  have parts: "log_inv C s" "history_inv n s" "counters_inv n S s"
    using inv unfolding durable_inv_def by blast+
  show "log_inv C s'"
    using log_inv_cong [OF parts(1) s'(1) _ owner_kept [OF t]] s'(2) by simp
  show "history_inv (Suc n) s'"
    using history_inv_cong [OF parts(2) s'(2,3) _ owner_kept [OF t]] s'(1,4) by (simp add: data_at_def)
  show "counters_inv (Suc n) (insert l S) s'"
    using parts(3) mark_committed_inv [of 0 S "dm_watermark s" l] l by (simp add: counters_inv_def s')
qed (simp add: s')


subsection \<open>Steps of the log\<close>

lemma run_appender_other: "i \<noteq> j \<Longrightarrow> sm_appenders (run_appender i w) j = sm_appenders w j"
  by (simp add: run_appender_def split: option.splits prod.splits)

lemma step_record: "record_of (snd (append_record_segment_step sw a)) = record_of a"
  by (cases a) (auto simp: Let_def split: prod.splits option.splits sum.splits)

lemma run_appender_at:
  "sm_appenders (run_appender i w) i = map_option (\<lambda>a. snd (append_record_segment_step (sm_writer w) a)) (sm_appenders w i)"
  by (auto simp: run_appender_def split: option.splits prod.splits)

lemma run_appender_record:
  assumes "sm_appenders (run_appender i w) j = Some a"
  obtains b where "sm_appenders w j = Some b" "record_of b = record_of a"
proof (cases "j = i")
  case True
  then show ?thesis
    using assms that step_record by (auto simp: run_appender_at)
qed (use assms that run_appender_other [of i j w] in auto)

lemma run_appender_acked:
  "sm_appenders w j = Some (Acked l d) \<Longrightarrow> sm_appenders (run_appender i w) j = Some (Acked l d)"
  by (cases "i = j") (simp_all add: run_appender_at run_appender_other)

lemma run_appender_next:
  "next_lsn (run_appender i w) = (case sm_appenders w i of Some (Idle _) \<Rightarrow> next_lsn w + 1 | _ \<Rightarrow> next_lsn w)"
proof (cases "sm_appenders w i")
  case (Some a)
  then show ?thesis
    by (cases a) (simp_all add: run_appender_def allocate_lsn_def mark_segment_durable_def Let_def split: option.split sum.split prod.split)
qed (simp add: run_appender_def)

lemma run_appender_placed:
  "sm_placed (run_appender i w) = sm_placed w @ (case sm_appenders w i of Some a \<Rightarrow> placed_by a | None \<Rightarrow> [])"
  by (auto simp: run_appender_def split: option.splits prod.splits)

lemma ranks_follow_snoc:
  assumes "ranks_follow P" "\<And>rl l k g. x = (rl, CommitRank l k g) \<Longrightarrow> l \<in> fst ` set P"
  shows "ranks_follow (P @ [x])"
  unfolding ranks_follow_def
proof (intro allI impI)
  fix A B rl l k g
  assume e: "P @ [x] = A @ (rl, CommitRank l k g) # B"
  show "l \<in> fst ` set A"
  proof (cases B rule: rev_cases)
    case Nil
    then show ?thesis using e assms(2) by auto
  next
    case (snoc B' y)
    then have "P = A @ (rl, CommitRank l k g) # B'"
      using e by (metis append_Cons append_assoc butlast_snoc)
    then show ?thesis
      using assms(1) unfolding ranks_follow_def by blast
  qed
qed

lemma data_record_not_rank: "data_record C m = Ok r \<Longrightarrow> r \<noteq> CommitRank l k g"
  by (cases m) (auto simp: serialize_value_def bound_increment_delta_def build_increment_record_def split: option.splits if_splits)

lemma data_at_placed:
  assumes "lsn_inv (dm_wal s)" "data_at s tid l"
  shows "l \<in> fst ` set (sm_placed (dm_wal s))"
proof -
  obtain d where "appender_at s (2 * tid) = Some (Acked l d)"
    using assms(2) by (auto simp: data_at_def)
  then have "(l, d) \<in> ran (of_appender placed_entry (dm_wal s))"
    by (intro ranI [where a = "2 * tid"]) (simp add: of_appender_def placed_entry_def)
  moreover have "set (sm_placed (dm_wal s)) = ran (of_appender placed_entry (dm_wal s))"
    using assms(1) unfolding lsn_inv_def by blast
  ultimately show ?thesis
    by (intro image_eqI [where x = "(l, d)"]) simp_all
qed

lemma log_invD:
  assumes "log_inv C s"
  shows "lsn_inv (dm_wal s)" "segment_machine_inv (dm_wal s)" "ranks_follow (sm_placed (dm_wal s))"
    and "appender_at s (2 * tid) = Some a \<Longrightarrow> \<exists>m. owner s tid = Some m \<and> data_record C m = Ok (record_of a)"
    and "appender_at s (Suc (2 * tid)) = Some a \<Longrightarrow>
      \<exists>m l g. owner s tid = Some m \<and> record_of a = CommitRank l (mutation_key m) g
        \<and> (g, l, m) \<in> set (dm_history s) \<and> data_at s tid l"
  using assms unfolding log_inv_def Suc_eq_plus1 by (elim conjE, (assumption | simp only: simp_thms; blast))+

lemma placed_by_rank:
  assumes inv: "log_inv C s" and a: "appender_at s i = Some a" "placed_by a = [(rl, CommitRank l k g)]"
  shows "l \<in> fst ` set (sm_placed (dm_wal s))"
proof -
  have rec: "record_of a = CommitRank l k g"
    using a(2) by (cases a) simp_all
  obtain tid where "i = 2 * tid \<or> i = Suc (2 * tid)"
    using oddE [of i] evenE [of i] by (metis Suc_eq_plus1)
  then have "data_at s tid l"
    using log_invD(4) [OF inv, of tid a] log_invD(5) [OF inv, of tid a] a(1) rec by (auto dest: data_record_not_rank)
  then show ?thesis
    using data_at_placed [OF log_invD(1) [OF inv]] by blast
qed

lemma log_inv_run:
  assumes inv: "log_inv C s" and room: "next_lsn (dm_wal s) \<noteq> - 1"
    and s': "dm_wal s' = run_appender i (dm_wal s)" "dm_history s' = dm_history s" "owner s' = owner s"
  shows "log_inv C s'"
proof -
  let ?w = "dm_wal s"
  have data: "data_at s' tid l" if "data_at s tid l" for tid l
    using that run_appender_acked [of ?w] by (auto simp: data_at_def s'(1))
  have "\<exists>m. owner s' tid = Some m \<and> data_record C m = Ok (record_of a)" if a: "appender_at s' (2 * tid) = Some a" for tid a
    using run_appender_record [OF a [unfolded s'(1)]] log_invD(4) [OF inv, of tid] unfolding s'(3) by metis
  moreover have "\<exists>m l g. owner s' tid = Some m \<and> record_of a = CommitRank l (mutation_key m) g
      \<and> (g, l, m) \<in> set (dm_history s') \<and> data_at s' tid l" if a: "appender_at s' (2 * tid + 1) = Some a" for tid a
    using run_appender_record [OF a [unfolded s'(1)]] log_invD(5) [OF inv, of tid] data unfolding s'(2,3) Suc_eq_plus1 by metis
  moreover have "ranks_follow (sm_placed (run_appender i ?w))"
  proof (cases "case sm_appenders ?w i of Some a \<Rightarrow> placed_by a | None \<Rightarrow> []")
    case Nil
    then show ?thesis
      using log_invD(3) [OF inv] by (simp add: run_appender_placed)
  next
    case (Cons x xs)
    then obtain a where a: "sm_appenders ?w i = Some a" "placed_by a = [x]"
      by (cases "sm_appenders ?w i") (auto split: appender.splits elim: placed_by.elims)
    then show ?thesis
      using ranks_follow_snoc [OF log_invD(3) [OF inv], of x] placed_by_rank [OF inv a(1)] by (simp add: run_appender_placed)
  qed
  ultimately show ?thesis
    using lsn_inv_run [OF log_invD(1) [OF inv] room] segment_inv_run [OF log_invD(2) [OF inv]]
    unfolding log_inv_def s'(1) by blast
qed


lemma next_lsn_room:
  assumes "counters_inv n S s" "n < 2 ^ 64 - 2"
  shows "next_lsn (dm_wal s) \<noteq> - 1" "unat (next_lsn (dm_wal s) + 1) = Suc (unat (next_lsn (dm_wal s)))"
    "next_lsn (dm_wal s) < next_lsn (dm_wal s) + 1"
  using word_succ_room [of "next_lsn (dm_wal s)"] assms by (simp_all add: counters_inv_def)

lemma inv_run:
  assumes inv: "durable_inv C n S s" and t: "dm_threads s tid = Some (m, ph)"
      "dm_threads s' = (dm_threads s)(tid \<mapsto> (m, ph'))"
    and i: "i = 2 * tid \<or> i = Suc (2 * tid)" and n: "n < 2 ^ 64 - 2"
    and s': "dm_wal s' = run_appender i (dm_wal s)" "dm_history s' = dm_history s" "live_root s' = live_root s"
      "dm_commit_seq s' = dm_commit_seq s" "dm_watermark s' = dm_watermark s"
    and ph': "phase_inv (Suc n) S s' tid m ph'"
  shows "durable_inv C (Suc n) S s'"
proof (rule durable_inv_step [OF inv t _ order_refl _ _ _ ph'])
  have parts: "log_inv C s" "history_inv n s" "counters_inv n S s"
    using inv unfolding durable_inv_def by blast+
  note room = next_lsn_room [OF parts(3) n]
  show "keeps tid s s'"
    using i run_appender_other [of i _ "dm_wal s"] unfolding keeps_def s' by auto
  show "log_inv C s'"
    using log_inv_run [OF parts(1) room(1) s'(1,2) owner_update [OF t]] .
  show "history_inv (Suc n) s'"
    using history_inv_cong [OF parts(2) s'(2,3) _ owner_kept [OF t]] run_appender_acked [of "dm_wal s"]
    by (simp add: data_at_def s'(1,4)) blast
  have "next_lsn (dm_wal s') = next_lsn (dm_wal s) \<or> next_lsn (dm_wal s') = next_lsn (dm_wal s) + 1"
    unfolding s'(1) run_appender_next by (simp split: option.split appender.split)
  then have "unat (next_lsn (dm_wal s')) \<le> Suc (unat (next_lsn (dm_wal s)))" "next_lsn (dm_wal s) \<le> next_lsn (dm_wal s')"
    using room(2,3) by auto
  moreover from this(2) have "{0<..<next_lsn (dm_wal s)} \<subseteq> {0<..<next_lsn (dm_wal s')}"
    by (intro subsetI) (simp, erule conjE, erule (1) less_le_trans)
  moreover have "unat (dm_commit_seq s) \<le> n" "unat (next_lsn (dm_wal s)) \<le> Suc n" "watermark_inv 0 S (dm_watermark s)"
      "S \<subseteq> {0<..<next_lsn (dm_wal s)}"
    using parts(3) unfolding counters_inv_def by blast+
  ultimately show "counters_inv (Suc n) S s'"
    unfolding counters_inv_def s'(4,5) by (intro conjI) (linarith, linarith, assumption, rule subset_trans)
qed

lemma inv_spawn_append:
  assumes inv: "durable_inv C n S s" and t: "dm_threads s tid = Some (m, ph)"
      "dm_threads s' = (dm_threads s)(tid \<mapsto> (m, ph'))"
    and i: "appender_at s i = None"
      "i = 2 * tid \<and> data_record C m = Ok r \<or>
       i = Suc (2 * tid) \<and> (\<exists>l g. r = CommitRank l (mutation_key m) g \<and> (g, l, m) \<in> set (dm_history s) \<and> data_at s tid l)"
    and s': "dm_wal s' = spawn_appender i r (dm_wal s)" "dm_history s' = dm_history s" "live_root s' = live_root s"
      "dm_commit_seq s' = dm_commit_seq s" "dm_watermark s' = dm_watermark s"
    and ph': "phase_inv (Suc n) S s' tid m ph'"
  shows "durable_inv C (Suc n) S s'"
proof (rule durable_inv_step [OF inv t _ order_refl _ _ _ ph'])
  have parts: "log_inv C s" "history_inv n s" "counters_inv n S s"
    using inv unfolding durable_inv_def by blast+
  have app: "appender_at s' = (appender_at s)(i \<mapsto> Idle r)" and w: "sm_placed (dm_wal s') = sm_placed (dm_wal s)"
    "sm_writer (dm_wal s') = sm_writer (dm_wal s)"
    by (simp_all add: s'(1) spawn_appender_def fun_eq_iff)
  have own: "owner s tid = Some m" "owner s' = owner s"
    using t(1) owner_update [OF t] by (simp_all add: owner_def)
  have ne: "2 * a \<noteq> Suc (2 * b)" for a b :: nat
    by presburger
  have data: "data_at s' tid' l" if "data_at s tid' l" for tid' l
    using that i(1) by (auto simp: data_at_def app)
  show "keeps tid s s'"
    using i(2) unfolding keeps_def s'(2-5) app by auto
  show "history_inv (Suc n) s'"
    using history_inv_cong [OF parts(2) s'(2,3) _ owner_kept [OF t] data] by (simp add: s'(4))
  show "counters_inv (Suc n) S s'"
    by (rule counters_inv_cong [OF parts(3)]) (simp_all add: s' spawn_appender_def)
  have "\<exists>m. owner s' tid' = Some m \<and> data_record C m = Ok (record_of a)" if "appender_at s' (2 * tid') = Some a" for tid' a
  proof (cases "i = 2 * tid'")
    case True
    then have "tid' = tid" "data_record C m = Ok r"
      using i(2) ne [of tid' tid] by auto
    then show ?thesis
      using that own True by (auto simp: app)
  qed (use that log_invD(4) [OF parts(1)] own in \<open>simp add: app\<close>)
  moreover have "\<exists>m l g. owner s' tid' = Some m \<and> record_of a = CommitRank l (mutation_key m) g
      \<and> (g, l, m) \<in> set (dm_history s') \<and> data_at s' tid' l" if "appender_at s' (2 * tid' + 1) = Some a" for tid' a
  proof (cases "i = 2 * tid' + 1")
    case True
    then have "tid' = tid" "\<exists>l g. r = CommitRank l (mutation_key m) g \<and> (g, l, m) \<in> set (dm_history s) \<and> data_at s tid l"
      using i(2) ne [of tid tid'] by auto
    then show ?thesis
      using that own True data by (auto simp: app s'(2))
  next
    case False
    then have "appender_at s (Suc (2 * tid')) = Some a"
      using that by (simp add: app)
    then show ?thesis
      using log_invD(5) [OF parts(1)] data unfolding own(2) s'(2) by blast
  qed
  ultimately show "log_inv C s'"
    using lsn_inv_spawn [OF log_invD(1) [OF parts(1)] i(1)] log_invD(3) [OF parts(1)]
      segment_inv_step [OF segment_machine_step.spawn [OF i(1)] log_invD(2) [OF parts(1)]]
    unfolding log_inv_def s'(1) by (simp add: spawn_appender_def)
qed


subsection \<open>The publishing step\<close>

lemma compare_exchange_cases:
  assumes "root_ok old" "prepared old k new delta x" "card (dom (root_map (pr_node old))) < 2 ^ 64 - 1"
  shows "\<exists>slot'. compare_exchange_revision_counted slot old new delta =
      Some (if pr_id slot = pr_id old then (True, slot') else (False, slot))
    \<and> (pr_id slot = pr_id old \<longrightarrow> root_ok slot' \<and> root_map (pr_node slot') = (root_map (pr_node old))(k := x)
        \<and> pr_id slot' = Suc (pr_id slot))"
proof -
  obtain slot' where slot': "compare_exchange_revision_counted old old new delta = Some (True, slot')"
      "root_ok slot'" "pr_node slot' = new" "pr_id slot' = Suc (pr_id old)"
    using compare_exchange_spec [OF assms(1) _ assms(3), of new k x] assms(2) unfolding prepared_def by blast
  show ?thesis
  proof (cases "pr_id slot = pr_id old")
    case True
    then have "compare_exchange_revision_counted slot old new delta = compare_exchange_revision_counted old old new delta"
      by (simp add: compare_exchange_revision_counted_def split: option.split)
    then show ?thesis
      using slot' True assms(2) by (intro exI [of _ slot']) (simp add: prepared_def updates_def)
  next
    case False
    then show ?thesis
      using slot'(1) by (cases "checked_add_signed (pr_term_count old) delta")
        (simp_all add: compare_exchange_revision_counted_def)
  qed
qed

lemma sorted_wrt_snoc: "sorted_wrt (<) xs \<Longrightarrow> \<forall>x\<in>set xs. x < (y :: u64) \<Longrightarrow> sorted_wrt (<) (xs @ [y])"
  by (simp add: sorted_wrt_append)

lemma card_dom_apply:
  assumes "finite (dom M)"
  shows "card (dom (apply_mutation m M)) \<le> Suc (card (dom M))"
proof -
  have "dom (apply_mutation m M) \<subseteq> insert (mutation_key m) (dom M)"
    by (auto simp: apply_mutation_def split: if_splits)
  then have "card (dom (apply_mutation m M)) \<le> card (insert (mutation_key m) (dom M))"
    using assms by (intro card_mono) simp_all
  also have "\<dots> \<le> Suc (card (dom M))"
    using assms by (simp add: card_insert_if)
  finally show ?thesis .
qed

lemma inv_publish:
  assumes inv: "durable_inv C n S s" and t: "dm_threads s tid = Some (m, ph)"
      "dm_threads s' = (dm_threads s)(tid \<mapsto> (m, ph'))"
    and s': "dm_wal s' = dm_wal s" "dm_history s' = dm_history s @ [(g, l, m)]"
      "dm_commit_seq s' = dm_commit_seq s" "dm_watermark s' = dm_watermark s"
    and root: "pr_id (live_root s') = Suc (pr_id (live_root s))" "root_ok (live_root s')"
      "trie_map (dm_trie s') = apply_mutation m (trie_map (dm_trie s))"
    and g: "g \<le> dm_commit_seq s" "\<forall>c\<in>set (dm_history s). fst c < g" and l: "waiting_at s tid l"
    and ph': "phase_inv (Suc n) S s' tid m ph'"
  shows "durable_inv C (Suc n) S s'"
proof (rule durable_inv_step [OF inv t _ order_refl _ _ _ ph'])
  have parts: "log_inv C s" "history_inv n s" "counters_inv n S s"
    using inv unfolding durable_inv_def by blast+
  have data: "data_at s tid l" "l \<notin> fst ` snd ` set (dm_history s)"
    using l by (simp_all add: waiting_at_def)
  have own: "owner s tid = Some m" "owner s' = owner s" and same: "data_at s' = data_at s"
    using t(1) owner_update [OF t] by (simp_all add: owner_def data_at_def s'(1) fun_eq_iff)
  show "keeps tid s s'"
    using data(1) root(1) unfolding keeps_def s' by (simp, auto)
  show "log_inv C s'"
    by (rule log_inv_cong [OF parts(1) s'(1) _ owner_kept [OF t]]) (simp_all add: s'(2) subset_insertI)
  show "counters_inv (Suc n) S s'"
    by (rule counters_inv_cong [OF parts(3)]) (simp_all add: s')
  note hist = parts(2) [unfolded history_inv_def]
  have "finite (dom (trie_map (dm_trie s)))" "card (dom (trie_map (dm_trie s))) \<le> n"
    using hist by (auto simp: root_ok_def)
  then have "card (dom (apply_mutation m (trie_map (dm_trie s)))) \<le> Suc n"
    using card_dom_apply [of "trie_map (dm_trie s)" m] by linarith
  moreover have "sorted_wrt (<) (map fst (dm_history s'))"
    unfolding s'(2) using sorted_wrt_snoc [of "map fst (dm_history s)" g] hist g(2) by simp
  moreover have "distinct (map (fst \<circ> snd) (dm_history s'))"
    unfolding s'(2) using hist data(2) by (simp add: image_image)
  moreover have "\<forall>(g, l, m)\<in>set (dm_history s'). g \<le> dm_commit_seq s' \<and> (\<exists>tid. owner s' tid = Some m \<and> data_at s' tid l)"
    unfolding s'(2,3) own(2) same using hist g(1) own(1) data(1) by auto
  ultimately show "history_inv (Suc n) s'"
    unfolding history_inv_def root(3) using root(2) hist by (simp add: s'(2) history_map_snoc)
qed


subsection \<open>Failed writes and new threads\<close>

lemma log_inv_fail:
  assumes inv: "log_inv C s" and a: "appender_at s i = Some (Placed l r offset)"
    and s': "dm_wal s' = fail_write i l r offset (dm_wal s)" "dm_history s' = dm_history s" "owner s' = owner s"
  shows "log_inv C s'"
proof -
  have app: "appender_at s' = (appender_at s)(i \<mapsto> WriteFailed l r offset)" "sm_placed (dm_wal s') = sm_placed (dm_wal s)"
    by (simp_all add: s'(1) fail_write_def fun_eq_iff)
  have data: "data_at s' tid k = data_at s tid k" for tid k
    using a by (auto simp: data_at_def app(1))
  have rec: "\<exists>b. appender_at s j = Some b \<and> record_of b = record_of c" if "appender_at s' j = Some c" for j c
    using that a by (cases "j = i") (auto simp: app(1))
  have "\<exists>m. owner s' tid = Some m \<and> data_record C m = Ok (record_of c)" if c: "appender_at s' (2 * tid) = Some c" for tid c
    using rec [OF c] log_invD(4) [OF inv, of tid] unfolding s'(3) by metis
  moreover have "\<exists>m l g. owner s' tid = Some m \<and> record_of c = CommitRank l (mutation_key m) g
      \<and> (g, l, m) \<in> set (dm_history s') \<and> data_at s' tid l" if c: "appender_at s' (2 * tid + 1) = Some c" for tid c
    using rec [OF c] log_invD(5) [OF inv, of tid] data unfolding s'(2,3) Suc_eq_plus1 by metis
  moreover have "lsn_inv (dm_wal s')"
    unfolding s'(1) fail_write_def using lsn_inv_write_error [OF log_invD(1) [OF inv] a] .
  moreover have "segment_machine_inv (dm_wal s')"
    unfolding s'(1) fail_write_def
    using segment_inv_step [OF segment_machine_step.write_error [OF a] log_invD(2) [OF inv]] .
  ultimately show ?thesis
    using log_invD(3) [OF inv] unfolding log_inv_def app(2) by blast
qed

lemma phase_inv_fail:
  assumes ph: "phase_inv n S s tid m ph" and a: "appender_at s i = Some (Placed l r offset)"
    and i: "i = 2 * tid \<or> i = Suc (2 * tid)"
    and s': "appender_at s' = (appender_at s)(i \<mapsto> WriteFailed l r offset)" "dm_history s' = dm_history s"
  shows "phase_inv (Suc n) S s' tid m ph"
proof (cases ph)
  case (Appending q)
  then have "i = 2 * tid"
    using ph a i by auto
  then show ?thesis
    using ph a Appending by (simp add: s' of_appender_def)
next
  case (Ranking k g q)
  then have "i = Suc (2 * tid)"
    using ph a i by (auto simp: data_at_def)
  then show ?thesis
    using ph a Ranking by (simp add: s' data_at_def)
next
  case (Returned q c)
  then have False
    using ph a i by (cases c) (auto simp: data_at_def rank_at_def waiting_at_def)
  then show ?thesis ..
next
  case (Won k g q)
  then have False
    using ph a i by (auto simp: data_at_def)
  then show ?thesis ..
next
  case (Ranked k rk g q)
  then have False
    using ph a i by (auto simp: data_at_def rank_at_def)
  then show ?thesis ..
next
  case (HalfMarked k rk g q)
  then have False
    using ph a i by (auto simp: data_at_def rank_at_def)
  then show ?thesis ..
qed (use ph a i in \<open>auto simp: waiting_at_def data_at_def\<close>)

lemma inv_write_error:
  assumes inv: "durable_inv C n S s" and a: "appender_at s i = Some (Placed l r offset)"
  shows "durable_inv C (Suc n) S (s\<lparr> dm_wal := fail_write i l r offset (dm_wal s) \<rparr>)" (is "durable_inv C _ S ?s'")
proof -
  have parts: "log_inv C s" "history_inv n s" "counters_inv n S s"
    using inv unfolding durable_inv_def by blast+
  obtain tid where i: "i = 2 * tid \<or> i = Suc (2 * tid)"
    using oddE [of i] evenE [of i] by (metis Suc_eq_plus1)
  then obtain m where "owner s tid = Some m"
    using log_invD(4,5) [OF parts(1), of tid] a by blast
  then obtain ph where t: "dm_threads s tid = Some (m, ph)"
    by (auto simp: owner_def)
  have app: "appender_at ?s' = (appender_at s)(i \<mapsto> WriteFailed l r offset)"
    by (simp add: fail_write_def fun_eq_iff)
  have own: "owner ?s' = owner s"
    by (simp add: owner_def fun_eq_iff)
  have data: "data_at ?s' tid' k" if "data_at s tid' k" for tid' k
    using that a unfolding data_at_def app by auto
  show ?thesis
  proof (rule durable_inv_step [OF inv t _ _ order_refl])
    show "dm_threads ?s' = (dm_threads s)(tid \<mapsto> (m, ph))"
      using t by (simp add: fun_upd_idem)
    show "keeps tid s ?s'"
      using i unfolding keeps_def app by auto
    show "log_inv C ?s'"
      by (rule log_inv_fail [OF parts(1) a _ _ own]) simp_all
    show "history_inv (Suc n) ?s'"
      by (rule history_inv_cong [OF parts(2) _ _ _ _ data]) (simp_all add: own)
    show "counters_inv (Suc n) S ?s'"
      by (rule counters_inv_cong [OF parts(3)]) (simp_all add: fail_write_def mark_segment_failed_def)
    have "phase_inv n S s tid m ph"
      using inv t unfolding durable_inv_def by blast
    then show "phase_inv (Suc n) S ?s' tid m ph"
      by (rule phase_inv_fail [OF _ a i app]) simp
  qed
qed

lemma inv_spawn:
  assumes inv: "durable_inv C n S s" and none: "dm_threads s tid = None"
  shows "durable_inv C (Suc n) S (spawn_thread tid m s)" (is "durable_inv C _ S ?s'")
proof -
  have parts: "log_inv C s" "history_inv n s" "counters_inv n S s"
    using inv unfolding durable_inv_def by blast+
  have own: "owner ?s' = (owner s)(tid \<mapsto> m)" "owner s tid = None" and at: "data_at ?s' = data_at s"
    using none by (auto simp: owner_def spawn_thread_def data_at_def fun_eq_iff)
  have grow: "owner ?s' t = Some x" if "owner s t = Some x" for t x
    using that own by auto
  have "log_inv C ?s'"
    by (rule log_inv_cong [OF parts(1) _ _ grow]) (simp_all add: spawn_thread_def)
  moreover have "history_inv (Suc n) ?s'"
    by (rule history_inv_cong [OF parts(2) _ _ _ grow]) (simp_all add: at, simp_all add: spawn_thread_def)
  moreover have "counters_inv (Suc n) S ?s'"
    by (rule counters_inv_cong [OF parts(3)]) (simp_all add: spawn_thread_def)
  moreover have "phase_inv (Suc n) S ?s' t x ph" if th: "dm_threads ?s' t = Some (x, ph)" for t x ph
  proof (cases "t = tid")
    case True
    then have "ph = Start"
      using th by (simp add: spawn_thread_def)
    moreover have "appender_at s (2 * tid) = None" "appender_at s (Suc (2 * tid)) = None"
      using log_invD(4,5) [OF parts(1), of tid] own(2) by fastforce+
    ultimately show ?thesis
      using True by (simp add: spawn_thread_def)
  next
    case False
    have "keeps tid s ?s'"
      by (rule keeps_same) (simp_all add: spawn_thread_def)
    moreover have "phase_inv n S s t x ph"
      using inv th False unfolding durable_inv_def by (simp add: spawn_thread_def)
    ultimately show ?thesis
      using keeps_phase [OF _ False log_invD(1) [OF parts(1)] order_refl] by blast
  qed
  ultimately show ?thesis
    unfolding durable_inv_def by blast
qed

subsection \<open>Every step keeps the invariant\<close>

lemma phase_inv_frame:
  assumes "dm_wal s' = dm_wal s" "dm_history s' = dm_history s" "live_root s' = live_root s"
    "dm_commit_seq s' = dm_commit_seq s"
  shows "phase_inv n S s' tid m ph = phase_inv n S s tid m ph"
proof (cases ph)
  case (Returned r c)
  then show ?thesis
    by (cases c) (auto simp: data_at_def rank_at_def waiting_at_def assms)
qed (simp_all add: data_at_def rank_at_def waiting_at_def loaded_ok_def claimed_ok_def assms)

lemma phase_inv_Suc: "phase_inv n S s tid m ph \<Longrightarrow> phase_inv (Suc n) S s tid m ph"
proof (cases ph)
  case (Returned r c)
  assume "phase_inv n S s tid m ph"
  with Returned show ?thesis
    by (cases c) auto
qed (simp_all add: loaded_ok_def)

lemma inv_set_policy:
  assumes inv: "durable_inv C n S s"
  shows "durable_inv C (Suc n) S (set_durability_policy policy s)" (is "durable_inv C _ S ?s'")
proof -
  have parts: "log_inv C s" "history_inv n s" "counters_inv n S s"
    using inv unfolding durable_inv_def by blast+
  have own: "owner ?s' = owner s" and at: "data_at ?s' = data_at s"
    by (auto simp: owner_def data_at_def set_durability_policy_def fun_eq_iff)
  have "log_inv C ?s'"
    by (rule log_inv_cong [OF parts(1)]) (simp_all add: own, simp_all add: set_durability_policy_def)
  moreover have "history_inv (Suc n) ?s'"
    by (rule history_inv_cong [OF parts(2)]) (simp_all add: own at, simp_all add: set_durability_policy_def)
  moreover have "counters_inv (Suc n) S ?s'"
    by (rule counters_inv_cong [OF parts(3)]) (simp_all add: set_durability_policy_def)
  moreover have "phase_inv (Suc n) S ?s' t x ph" if "dm_threads ?s' t = Some (x, ph)" for t x ph
    using inv that phase_inv_Suc phase_inv_frame [of ?s' s]
    unfolding durable_inv_def by (simp add: set_durability_policy_def)
  ultimately show ?thesis
    unfolding durable_inv_def by blast
qed

lemma inv_sync_error:
  assumes inv: "durable_inv C n S s" and t: "dm_threads s tid = Some (m, ph)"
  shows "durable_inv C (Suc n) S (fail_sync tid m s)"
  by (rule inv_quiet [OF inv t, where ph' = "Errored (IoError ''WAL'')"]) (simp_all add: fail_sync_def)

lemma sync_covers: "l \<le> durable_lsn (dm_wal s) \<Longrightarrow> sync_wal_after_append l s = Ok ()"
  by (simp add: sync_wal_after_append_def not_less [symmetric] split: durability_policy.split)

lemma entry_phases:
  assumes "appender_at s (2 * tid) = None" "appender_at s (Suc (2 * tid)) = None"
  shows "phase_inv n S s tid m (start_phase policy cache m)" "phase_inv n S s tid m (probe_phase C t m)"
    "phase_inv n S s tid m (recheck_phase fault_in t m)"
proof -
  show "phase_inv n S s tid m (start_phase policy cache m)"
    using assms by (cases "durable_policy_gate policy"; cases m) (simp_all add: start_phase_def split: sum.split)
  show "phase_inv n S s tid m (probe_phase C t m)"
    using assms by (cases m) (simp_all split: sum.split)
  show "phase_inv n S s tid m (recheck_phase fault_in t m)"
    using assms by (simp add: recheck_phase_def split: sum.split option.split)
qed

lemma step_lsn:
  "lsn_of (snd (append_record_segment_step sw a)) =
    (case a of Idle _ \<Rightarrow> Some (ww_next_lsn (sw_writer sw)) | _ \<Rightarrow> lsn_of a)"
  by (cases a) (simp_all add: allocate_lsn_def Let_def split: option.split sum.split)

lemma held_lsn:
  assumes "lsn_inv w" "of_appender lsn_of w i = Some l"
  shows "l \<in> {0<..<next_lsn w}"
  using assms unfolding lsn_inv_def by (metis ranI)

lemma data_lsn: "lsn_inv (dm_wal s) \<Longrightarrow> data_at s tid l \<Longrightarrow> l \<in> {0<..<next_lsn (dm_wal s)}"
  by (rule held_lsn [where i = "2 * tid"]) (auto simp: data_at_def of_appender_def)

lemma rank_lsn: "lsn_inv (dm_wal s) \<Longrightarrow> rank_at s tid rl l g \<Longrightarrow> rl \<in> {0<..<next_lsn (dm_wal s)}"
  by (rule held_lsn [where i = "2 * tid + 1"]) (auto simp: rank_at_def of_appender_def)

lemma history_lsn:
  assumes "lsn_inv (dm_wal s)" "history_inv n s" "l \<in> fst ` snd ` set (dm_history s)"
  shows "l \<in> {0<..<next_lsn (dm_wal s)}"
proof -
  obtain g m where "(g, l, m) \<in> set (dm_history s)"
    using assms(3) by auto
  then obtain tid where "data_at s tid l"
    using assms(2) unfolding history_inv_def by blast
  then show ?thesis
    using data_lsn [OF assms(1)] by blast
qed

text \<open>Progress of an append keeps the thread in its phase.\<close>

lemma appending_run:
  assumes inv: "log_inv C s" "history_inv n s" and ph: "phase_inv n S s tid m (Appending r)"
    and s': "dm_wal s' = run_appender (2 * tid) (dm_wal s)" "dm_history s' = dm_history s"
  shows "phase_inv n S s' tid m (Appending r)"
proof -
  let ?w = "dm_wal s"
  obtain a where a: "sm_appenders ?w (2 * tid) = Some a"
    using ph by auto
  have app: "appender_at s' (2 * tid) = Some (snd (append_record_segment_step (sm_writer ?w) a))"
    "appender_at s' (Suc (2 * tid)) = None"
    using ph by (simp_all add: s'(1) run_appender_at a run_appender_other)
  have "l \<notin> fst ` snd ` set (dm_history s)" if "lsn_of (snd (append_record_segment_step (sm_writer ?w) a)) = Some l" for l
  proof (cases "l = next_lsn ?w")
    case True
    then show ?thesis
      using history_lsn [OF log_invD(1) [OF inv(1)] inv(2)] by auto
  next
    case False
    then have "of_appender lsn_of ?w (2 * tid) = Some l"
      using that [unfolded step_lsn] a by (cases a) (simp_all add: of_appender_def)
    then show ?thesis
      using ph by simp
  qed
  then show ?thesis
    using app by (simp add: of_appender_def s'(2))
qed

lemma run_thread_eq:
  assumes "dm_threads s tid = Some (m, ph)" "thread_step C fault_in tid m ph s = (u, ph')"
  shows "run_thread C fault_in tid s = u\<lparr> dm_threads := (dm_threads s)(tid \<mapsto> (m, ph')) \<rparr>"
  using assms by (simp add: run_thread_def)

lemma set_cache_fields:
  "dm_wal (set_cache f s) = dm_wal s" "dm_history (set_cache f s) = dm_history s"
  "live_root (set_cache f s) = live_root s" "dm_commit_seq (set_cache f s) = dm_commit_seq s"
  "dm_watermark (set_cache f s) = dm_watermark s" "dm_threads (set_cache f s) = dm_threads s"
  by (simp_all add: set_cache_def)

lemma step_local:
  assumes inv: "durable_inv C n S s" and t: "dm_threads s tid = Some (m, ph)"
    and st: "thread_step C fault_in tid m ph s = (u, ph')" "u = s \<or> u = set_cache f s"
    and ph': "phase_inv (Suc n) S s tid m ph'"
  shows "durable_inv C (Suc n) S (run_thread C fault_in tid s)"
proof -
  let ?s' = "u\<lparr> dm_threads := (dm_threads s)(tid \<mapsto> (m, ph')) \<rparr>"
  have s': "dm_wal ?s' = dm_wal s" "dm_history ?s' = dm_history s" "live_root ?s' = live_root s"
      "dm_commit_seq ?s' = dm_commit_seq s" "dm_watermark ?s' = dm_watermark s"
    using st(2) by (auto simp: set_cache_fields)
  have "phase_inv (Suc n) S ?s' tid m ph'"
    using ph' phase_inv_frame [OF s'(1-4)] by blast
  then show ?thesis
    unfolding run_thread_eq [OF t st(1)] by (intro inv_quiet [OF inv t _ s']) simp_all
qed

lemma step_append:
  assumes inv: "durable_inv C n S s" and n: "n < 2 ^ 64 - 2" and t: "dm_threads s tid = Some (m, ph)"
    and st: "thread_step C fault_in tid m ph s = append_step i finished ph s" and i: "i = 2 * tid \<or> i = Suc (2 * tid)"
    and fin: "\<And>l d. appender_at s i = Some (Acked l d) \<Longrightarrow> phase_inv (Suc n) S s tid m (finished l)"
    and stay: "\<And>s'. dm_wal s' = run_appender i (dm_wal s) \<Longrightarrow> dm_history s' = dm_history s \<Longrightarrow>
      phase_inv (Suc n) S s' tid m ph"
  shows "durable_inv C (Suc n) S (run_thread C fault_in tid s)"
proof -
  let ?run = "s\<lparr> dm_wal := run_appender i (dm_wal s) \<rparr>"
  have "(\<exists>ph'. append_step i finished ph s = (s, ph') \<and> phase_inv (Suc n) S s tid m ph') \<or>
      append_step i finished ph s = (?run, ph)"
    using fin by (cases "appender_at s i"; cases "the (appender_at s i)") (simp_all add: append_step_def split: sum.split)
  then show ?thesis
  proof (elim disjE exE conjE)
    fix ph'
    assume "append_step i finished ph s = (s, ph')" "phase_inv (Suc n) S s tid m ph'"
    then show ?thesis
      using step_local [OF inv t, where u = s and ph' = ph' and fault_in = fault_in] st by simp
  next
    assume "append_step i finished ph s = (?run, ph)"
    then have eq: "run_thread C fault_in tid s = ?run\<lparr> dm_threads := (dm_threads s)(tid \<mapsto> (m, ph)) \<rparr>"
      using run_thread_eq [OF t] st by simp
    show ?thesis
      unfolding eq by (rule inv_run [OF inv t _ i n _ _ _ _ _ stay]) simp_all
  qed
qed

lemma step_appending:
  assumes inv: "durable_inv C n S s" and n: "n < 2 ^ 64 - 2" and t: "dm_threads s tid = Some (m, Appending r)"
  shows "durable_inv C (Suc n) S (run_thread C fault_in tid s)"
proof (rule step_append [OF inv n t, where i = "2 * tid" and finished = "\<lambda>l. Pending l r"])
  have parts: "log_inv C s" "history_inv n s"
    using inv unfolding durable_inv_def by blast+
  have ph: "phase_inv n S s tid m (Appending r)"
    using inv t unfolding durable_inv_def by blast
  show "phase_inv (Suc n) S s tid m (Pending l r)" if "appender_at s (2 * tid) = Some (Acked l d)" for l d
    using ph that by (simp add: waiting_at_def data_at_def of_appender_def)
  show "phase_inv (Suc n) S s' tid m (Appending r)"
    if "dm_wal s' = run_appender (2 * tid) (dm_wal s)" "dm_history s' = dm_history s" for s'
    using phase_inv_Suc [OF appending_run [OF parts ph that]] .
qed simp_all

lemma step_ranking:
  assumes inv: "durable_inv C n S s" and n: "n < 2 ^ 64 - 2" and t: "dm_threads s tid = Some (m, Ranking l g r)"
  shows "durable_inv C (Suc n) S (run_thread C fault_in tid s)"
proof (rule step_append [OF inv n t, where i = "Suc (2 * tid)" and finished = "\<lambda>rl. Ranked l rl g r"])
  have ph: "phase_inv n S s tid m (Ranking l g r)"
    using inv t unfolding durable_inv_def by blast
  show "phase_inv (Suc n) S s tid m (Ranked l rl g r)" if "appender_at s (Suc (2 * tid)) = Some (Acked rl d)" for rl d
    using ph that by (simp add: rank_at_def)
  show "phase_inv (Suc n) S s' tid m (Ranking l g r)"
    if s': "dm_wal s' = run_appender (Suc (2 * tid)) (dm_wal s)" "dm_history s' = dm_history s" for s'
  proof -
    have "data_at s' tid l"
      using ph run_appender_acked [of "dm_wal s"] by (auto simp: data_at_def s'(1))
    moreover obtain a where "appender_at s (Suc (2 * tid)) = Some a" "record_of a = CommitRank l (mutation_key m) g"
      using ph by auto
    then have "\<exists>a. appender_at s' (Suc (2 * tid)) = Some a \<and> record_of a = CommitRank l (mutation_key m) g"
      by (simp add: s'(1) run_appender_at step_record)
    ultimately show ?thesis
      using ph s'(2) by simp
  qed
qed simp_all

lemma step_loaded:
  assumes inv: "durable_inv C n S s" and n: "n < 2 ^ 64 - 2" and t: "dm_threads s tid = Some (m, Loaded l old r)"
  shows "durable_inv C (Suc n) S (run_thread C fault_in tid s)"
proof -
  have parts: "log_inv C s" "history_inv n s" "counters_inv n S s"
    using inv unfolding durable_inv_def by blast+
  have ph: "waiting_at s tid l" "loaded_ok (Suc n) s old"
    using inv t phase_inv_Suc unfolding durable_inv_def by fastforce+
  show ?thesis
  proof (cases "already_in_state m (pr_node old)")
    case True
    then show ?thesis
      using step_local [OF inv t, where u = s and ph' = "Refused l" and fault_in = fault_in] ph(1) by simp
  next
    case False
    let ?g = "dm_commit_seq s + 1"
    let ?s' = "s\<lparr> dm_commit_seq := ?g, dm_threads := (dm_threads s)(tid \<mapsto> (m, Claimed l old ?g r)) \<rparr>"
    have lt: "dm_commit_seq s < ?g"
      using commit_seq_room(2) [OF parts(3)] n by simp
    have "\<forall>c\<in>set (dm_history s). fst c < ?g"
      using parts(2) lt unfolding history_inv_def by (auto dest: le_less_trans)
    then have "phase_inv (Suc n) S ?s' tid m (Claimed l old ?g r)"
      using ph False by (simp add: waiting_at_def data_at_def loaded_ok_def claimed_ok_def)
    moreover have "run_thread C fault_in tid s = ?s'"
      using run_thread_eq [OF t] False by simp
    ultimately show ?thesis
      using n by (auto intro: inv_claim [OF inv t])
  qed
qed

lemma step_claimed:
  assumes inv: "durable_inv C n S s" and ok: "codec_ok C" "loader_ok u8_label fault_in"
    and t: "dm_threads s tid = Some (m, Claimed l old g r)"
  shows "durable_inv C (Suc n) S (run_thread C fault_in tid s)"
proof -
  have "phase_inv n S s tid m (Claimed l old g r)" "root_ok (live_root s)"
    using inv t unfolding durable_inv_def history_inv_def by blast+
  then have ph: "waiting_at s tid l" "loaded_ok n s old" "claimed_ok s old g" "\<not> already_in_state m (pr_node old)"
      and live: "root_ok (live_root s)"
    by simp_all
  have old: "loaded_ok (Suc n) s old" "root_ok old"
    using ph(2) unfolding loaded_ok_def by simp_all
  define ph' where "ph' = snd (thread_step C fault_in tid m (Claimed l old g r) s)"
  have st: "thread_step C fault_in tid m (Claimed l old g r) s = (s, ph')"
    by (simp add: ph'_def)
  have "phase_inv (Suc n) S s tid m ph'"
  proof (cases "\<exists>k d. m = MIncrement k d")
    case True
    then obtain k d where m: "m = MIncrement k d"
      by blast
    have "trie_map (dm_trie s) k = root_map (pr_node old) k" if "pr_id old = pr_id (live_root s)"
    proof -
      have "live_root s = old"
        using ph(2) that unfolding loaded_ok_def by blast
      then show ?thesis by simp
    qed
    then show ?thesis
      using ph old current_count_spec [OF live, of fault_in "pr_node old" k] unfolding ph'_def m by (simp del: term_map.simps)
  next
    case False
    then have "ph' = after_attempt l old g r (publish_attempt C fault_in m (pr_node old))"
      unfolding ph'_def by (cases m) simp_all
    then show ?thesis
      using attempt_spec [OF old(2) ok(2,1) ph(4)] ph(1,3) old(1)
      by (cases "publish_attempt C fault_in m (pr_node old)") auto
  qed
  then show ?thesis
    using step_local [OF inv t st] by blast
qed

lemma step_counted:
  assumes inv: "durable_inv C n S s" and ok: "codec_ok C" "loader_ok u8_label fault_in"
    and t: "dm_threads s tid = Some (m, Counted l old g cur)"
  shows "durable_inv C (Suc n) S (run_thread C fault_in tid s)"
proof -
  have "phase_inv n S s tid m (Counted l old g cur)"
    using inv t unfolding durable_inv_def by blast
  then obtain k d where m: "m = MIncrement k d" and ph: "waiting_at s tid l" "loaded_ok n s old" "claimed_ok s old g"
      "pr_id old = pr_id (live_root s) \<Longrightarrow> cur = count_of (root_map (pr_node old) k)"
    by auto
  have old: "loaded_ok (Suc n) s old" "root_ok old"
    using ph(2) unfolding loaded_ok_def by simp_all
  define ph' where "ph' = snd (thread_step C fault_in tid m (Counted l old g cur) s)"
  have st: "thread_step C fault_in tid m (Counted l old g cur) s = (s, ph')"
    by (simp add: ph'_def)
  have "phase_inv (Suc n) S s tid m ph'"
  proof (cases "uint cur + uint d < 2 ^ 64")
    case True
    obtain new delta where new: "value_attempt fault_in (pr_node old) k (cur + d) = Publish new delta"
        "prepared old k new delta (Some (Some (cur + d)))"
      using value_attempt_spec [OF old(2) ok(2)] by blast
    then have "ph' = Ready l old g new delta (RCount (cur + d))"
      using True unfolding ph'_def m by (simp add: add_count_spec [OF ok(1)])
    moreover have "Some (Some (cur + d)) = apply_entry m (root_map (pr_node old) k)" if "pr_id old = pr_id (live_root s)"
      using True ph(4) [OF that] by (simp add: m del: term_map.simps)
    ultimately show ?thesis
      using ph(1,3) old(1) new(2) by (auto simp: m simp del: apply_entry.simps)
  next
    case False
    then show ?thesis
      unfolding ph'_def m by (simp add: add_count_spec [OF ok(1)])
  qed
  then show ?thesis
    using step_local [OF inv t st] by blast
qed

lemma step_ready:
  assumes inv: "durable_inv C n S s" and n: "n < 2 ^ 64 - 2" and t: "dm_threads s tid = Some (m, Ready l old g new delta r)"
  shows "durable_inv C (Suc n) S (run_thread C fault_in tid s)"
proof -
  have "phase_inv n S s tid m (Ready l old g new delta r)"
    using inv t unfolding durable_inv_def by blast
  then obtain x where ph: "waiting_at s tid l" "loaded_ok n s old" "claimed_ok s old g"
      "prepared old (mutation_key m) new delta x"
      "pr_id old = pr_id (live_root s) \<Longrightarrow> x = apply_entry m (root_map (pr_node old) (mutation_key m))"
    by auto
  have old: "root_ok old" "card (dom (root_map (pr_node old))) < 2 ^ 64 - 1"
      "pr_id old = pr_id (live_root s) \<Longrightarrow> old = live_root s"
    using ph(2) n unfolding loaded_ok_def by simp_all
  obtain slot' where slot': "compare_exchange_revision_counted (live_root s) old new delta =
      Some (if pr_id (live_root s) = pr_id old then (True, slot') else (False, live_root s))"
    and won: "pr_id (live_root s) = pr_id old \<Longrightarrow> root_ok slot' \<and> pr_id slot' = Suc (pr_id (live_root s))
      \<and> root_map (pr_node slot') = (root_map (pr_node old))(mutation_key m := x)"
    using compare_exchange_cases [OF old(1) ph(4) old(2), of "live_root s"] by blast
  show ?thesis
  proof (cases "pr_id (live_root s) = pr_id old")
    case False
    then have "thread_step C fault_in tid m (Ready l old g new delta r) s = (s, Pending l r)"
      by (simp add: slot')
    then show ?thesis
      using step_local [OF inv t] ph(1) by simp
  next
    case True
    let ?u = "s\<lparr> dm_trie := (dm_trie s)\<lparr> lockfree_root := slot' \<rparr>, dm_history := dm_history s @ [(g, l, m)] \<rparr>"
    have st: "thread_step C fault_in tid m (Ready l old g new delta r) s = (?u, Won l g r)"
      using True by (simp add: slot')
    let ?s' = "?u\<lparr> dm_threads := (dm_threads s)(tid \<mapsto> (m, Won l g r)) \<rparr>"
    have "trie_map (dm_trie ?s') = apply_mutation m (trie_map (dm_trie s))"
      using won [OF True] old(3) [OF True [symmetric]] ph(5) [OF True [symmetric]] by (simp add: apply_mutation_def)
    moreover have "g \<le> dm_commit_seq s" "\<forall>c\<in>set (dm_history s). fst c < g"
      using ph(3) True unfolding claimed_ok_def by auto
    moreover have "phase_inv (Suc n) S ?s' tid m (Won l g r)"
      using ph(1) by (simp add: waiting_at_def data_at_def)
    ultimately show ?thesis
      unfolding run_thread_eq [OF t st] using won [OF True] ph(1)
      by (intro inv_publish [OF inv t, where g = g and l = l]) (simp_all del: phase_inv.simps)
  qed
qed

lemma step_spawns:
  assumes inv: "durable_inv C n S s" and t: "dm_threads s tid = Some (m, ph)"
  shows "ph = ToAppend r \<Longrightarrow> durable_inv C (Suc n) S (run_thread C fault_in tid s)"
    and "ph = Won l g r \<Longrightarrow> durable_inv C (Suc n) S (run_thread C fault_in tid s)"
proof -
  have phase: "phase_inv n S s tid m ph"
    using inv t unfolding durable_inv_def by blast
  show "durable_inv C (Suc n) S (run_thread C fault_in tid s)" if ph: "ph = ToAppend r"
  proof (cases "data_record C m")
    case (Inl e)
    then show ?thesis
      using step_local [OF inv t, where u = s and ph' = "Errored e" and fault_in = fault_in] ph by simp
  next
    case (Inr d)
    let ?u = "start_append (2 * tid) d s"
    have app: "appender_at ?u (2 * tid) = Some (Idle d)" "appender_at ?u (Suc (2 * tid)) = appender_at s (Suc (2 * tid))"
      by (simp_all add: start_append_def spawn_appender_def)
    have st: "thread_step C fault_in tid m ph s = (?u, Appending r)"
      by (simp add: ph Inr)
    have "phase_inv (Suc n) S (?u\<lparr> dm_threads := (dm_threads s)(tid \<mapsto> (m, Appending r)) \<rparr>) tid m (Appending r)"
      using app phase ph by (simp add: of_appender_def)
    moreover have "appender_at s (2 * tid) = None"
      using phase ph by simp
    ultimately show ?thesis
      unfolding run_thread_eq [OF t st] using Inr
      by (intro inv_spawn_append [OF inv t, where i = "2 * tid" and r = d])
        (simp_all add: start_append_def del: phase_inv.simps)
  qed
  show "durable_inv C (Suc n) S (run_thread C fault_in tid s)" if ph: "ph = Won l g r"
  proof -
    let ?c = "CommitRank l (mutation_key m) g"
    let ?u = "start_append (2 * tid + 1) ?c (set_cache (touch_published m) s)"
    have app: "appender_at ?u (Suc (2 * tid)) = Some (Idle ?c)" "appender_at ?u (2 * tid) = appender_at s (2 * tid)"
      by (simp_all add: start_append_def spawn_appender_def set_cache_fields)
    have st: "thread_step C fault_in tid m ph s = (?u, Ranking l g r)"
      by (simp add: ph)
    have won: "data_at s tid l" "appender_at s (Suc (2 * tid)) = None" "(g, l, m) \<in> set (dm_history s)"
      using phase ph by simp_all
    have "phase_inv (Suc n) S (?u\<lparr> dm_threads := (dm_threads s)(tid \<mapsto> (m, Ranking l g r)) \<rparr>) tid m (Ranking l g r)"
      using app won by (simp add: data_at_def start_append_def set_cache_fields)
    then show ?thesis
      unfolding run_thread_eq [OF t st] using won
      by (intro inv_spawn_append [OF inv t, where i = "Suc (2 * tid)" and r = ?c])
        (simp_all add: start_append_def set_cache_fields del: phase_inv.simps)
  qed
qed

lemma step_marks:
  assumes inv: "durable_inv C n S s" and t: "dm_threads s tid = Some (m, ph)"
    and ph: "(\<exists>l rl g r. ph = Ranked l rl g r) \<or> (\<exists>l rl g r. ph = HalfMarked l rl g r) \<or> (\<exists>l. ph = Burning l)"
  shows "\<exists>S'. durable_inv C (Suc n) S' (run_thread C fault_in tid s)"
proof -
  have phase: "phase_inv n S s tid m ph"
    using inv t unfolding durable_inv_def by blast
  have lsn: "lsn_inv (dm_wal s)"
    using inv unfolding durable_inv_def log_inv_def by blast
  obtain l ph' where st: "thread_step C fault_in tid m ph s = (mark_lsn l s, ph')"
      and l: "l \<in> {0<..<next_lsn (dm_wal s)}" and ph': "phase_inv (Suc n) (insert l S) s tid m ph'"
    using ph
  proof (elim disjE exE)
    fix l rl g r
    assume e: "ph = Ranked l rl g r"
    then show ?thesis
      using phase data_lsn [OF lsn, of tid l] by (intro that [of l "HalfMarked l rl g r"]) simp_all
  next
    fix l rl g r
    assume e: "ph = HalfMarked l rl g r"
    then show ?thesis
      using phase rank_lsn [OF lsn, of tid rl l g] by (intro that [of rl "Returned r (Some (g, l))"]) simp_all
  next
    fix l
    assume e: "ph = Burning l"
    have "phase_inv (Suc n) (insert l S) s tid m (Returned (RBool False) None)"
      using phase e by (auto simp: waiting_at_def)
    then show ?thesis
      using phase e data_lsn [OF lsn, of tid l] by (cases m) (auto simp: waiting_at_def intro!: that [of l])
  qed
  have "phase_inv (Suc n) (insert l S) ((mark_lsn l s)\<lparr> dm_threads := (dm_threads s)(tid \<mapsto> (m, ph')) \<rparr>) tid m ph'"
    using ph' by (subst phase_inv_frame [where s = s]) (simp_all add: mark_lsn_def)
  then show ?thesis
    unfolding run_thread_eq [OF t st]
    by (intro exI [of _ "insert l S"] inv_mark [OF inv t _ _ _ _ _ _ l]) (simp_all add: mark_lsn_def)
qed

lemma inv_run_thread:
  assumes inv: "durable_inv C n S s" and n: "n < 2 ^ 64 - 2" and ok: "codec_ok C" "loader_ok u8_label fault_in"
  shows "\<exists>S'. durable_inv C (Suc n) S' (run_thread C fault_in tid s)"
proof (cases "dm_threads s tid")
  case None
  then have "run_thread C fault_in tid s = s"
    by (simp add: run_thread_def)
  moreover have "durable_inv C (Suc n) S s"
    using inv phase_inv_Suc unfolding durable_inv_def history_inv_def counters_inv_def by fastforce
  ultimately show ?thesis by auto
next
  case (Some mp)
  then obtain m ph where t: "dm_threads s tid = Some (m, ph)"
    by (cases mp) auto
  have phase: "phase_inv (Suc n) S s tid m ph" and live: "history_inv n s"
    using inv t phase_inv_Suc unfolding durable_inv_def by blast+
  note local = step_local [OF inv t, where fault_in = fault_in]
  show ?thesis
  proof (cases ph)
    case (Appending r)
    then show ?thesis using step_appending [OF inv n] t by blast
  next
    case (Ranking l g r)
    then show ?thesis using step_ranking [OF inv n] t by blast
  next
    case (Loaded l old r)
    then show ?thesis using step_loaded [OF inv n] t by blast
  next
    case (Claimed l old g r)
    then show ?thesis using step_claimed [OF inv ok] t by blast
  next
    case (Counted l old g cur)
    then show ?thesis using step_counted [OF inv ok] t by blast
  next
    case (Ready l old g new delta r)
    then show ?thesis using step_ready [OF inv n] t by blast
  next
    case (ToAppend r)
    then show ?thesis using step_spawns(1) [OF inv t] by blast
  next
    case (Won l g r)
    then show ?thesis using step_spawns(2) [OF inv t] by blast
  next
    case (Ranked l rl g r)
    then show ?thesis using step_marks [OF inv t] by blast
  next
    case (HalfMarked l rl g r)
    then show ?thesis using step_marks [OF inv t] by blast
  next
    case (Burning l)
    then show ?thesis using step_marks [OF inv t] by blast
  next
    case (Pending l r)
    have "root_ok (live_root s)" "card (dom (trie_map (dm_trie s))) \<le> n"
      using live unfolding history_inv_def by blast+
    then have "loaded_ok (Suc n) s (live_root s)"
      by (simp add: loaded_ok_def)
    then show ?thesis
      using local [of s "Loaded l (live_root s) r"] phase Pending by auto
  next
    case Start
    then show ?thesis
      using local [of s "start_phase (dm_policy s) (lockfree_cache (dm_trie s)) m"] entry_phases(1) phase by auto
  next
    case Probe
    then show ?thesis
      using local [of s "probe_phase C (dm_trie s) m"] entry_phases(2) phase by auto
  next
    case Recheck
    then show ?thesis
      using local [of s "recheck_phase fault_in (dm_trie s) m"] entry_phases(3) phase by auto
  next
    case (Answered r)
    then show ?thesis
      using local [of "set_cache (touch_cache m) s" "Returned r None" "touch_cache m"] phase by auto
  next
    case (Refused l)
    then show ?thesis
      using local [of "set_cache (touch_cache m) s" "Burning l" "touch_cache m"] phase by auto
  next
    case (Returned r c)
    then show ?thesis
      using local [of s ph] phase by auto
  next
    case (Errored e)
    then show ?thesis
      using local [of s ph] phase by auto
  next
    case Panicked
    then show ?thesis
      using phase by simp
  qed
qed

lemma inv_init: "durable_inv C 0 {} (durable_init policy)"
proof -
  have "segment_machine_inv segment_init" "lsn_inv segment_init"
    using segment_inv_reachable [of segment_init] lsn_inv_init by simp_all
  moreover have "sm_appenders segment_init = Map.empty" "sm_placed segment_init = []" "next_lsn segment_init = 1"
    by (simp_all add: segment_init_def)
  moreover have "watermark_inv 0 {} (watermark_new 0)"
    by (simp add: watermark_inv_def watermark_new_def)
  moreover have "root_ok (lockfree_root install_overlay)"
    using trie_ok_install(1) unfolding trie_ok_def by blast
  ultimately show ?thesis
    using trie_ok_install(2)
    by (simp add: durable_inv_def log_inv_def history_inv_def counters_inv_def durable_init_def history_map_def
        ranks_follow_def del: term_map.simps)
qed

theorem durable_run_inv:
  assumes "durable_run C fault_in n s" "n < 2 ^ 64 - 2" "codec_ok C" "loader_ok u8_label fault_in"
  shows "\<exists>S. durable_inv C n S s"
  using assms
proof (induction rule: durable_run.induct)
  case (init policy)
  then show ?case using inv_init by blast
next
  case (step n s s')
  then obtain S where inv: "durable_inv C n S s"
    by auto
  from step.hyps(2) show ?case
  proof cases
    case (spawn tid m)
    then show ?thesis using inv_spawn [OF inv] by blast
  next
    case (run tid)
    then show ?thesis using inv_run_thread [OF inv] step.prems by auto
  next
    case (write_error i l r offset)
    then show ?thesis using inv_write_error [OF inv] by blast
  next
    case (set_policy policy)
    then show ?thesis using inv_set_policy [OF inv] by blast
  next
    case (sync_error tid m ph i l r)
    then show ?thesis using inv_sync_error [OF inv] by blast
  qed
qed

end
