(* ===== verification/Durable_Recovery.thy ===== *)
theory Durable_Recovery
  imports Durable_Protocol Wal_Crash "HOL-Library.Sublist"
begin

text \<open>
  Reopening after the durable write protocol.  A record of the log is replayed as the
  operation that wrote it.  Reconciling any prefix of the placed records yields the
  published operations whose rank is in the prefix (\<open>retained\<close>), in the order of their
  publication; draining them into an empty overlay leads to the fold of those that replay
  applies (\<open>replayed\<close>), all but the increments of the empty key.  A non-empty prefix
  without the first LSN is refused.
\<close>

subsection \<open>Replaying a published operation\<close>

fun mutation_op :: "lsn \<Rightarrow> mutation \<Rightarrow> recovered_operation" where
  "mutation_op l (MInsert k) = RInsert l k None"
| "mutation_op l (MRemove k) = RRemove l k"
| "mutation_op l (MInsertValue k v) = RInsert l k (Some (u64_to_le_bytes v))"
| "mutation_op l (MUpsert k v) = RUpsert l k (u64_to_le_bytes v)"
| "mutation_op l (MCompareAndSwap k _ v) = RUpsert l k (u64_to_le_bytes v)"
| "mutation_op l (MIncrement k d) = RIncrement l k d None"

text \<open>Replay drops the increment of the empty key.\<close>

fun empty_increment :: "mutation \<Rightarrow> bool" where
  "empty_increment (MIncrement k d) = (k = [])"
| "empty_increment _ = False"

lemma data_record_op:
  assumes "codec_ok C" "data_record C m = Ok r"
  shows "recovered_operations_from_record l r = [mutation_op l m]"
  using assms by (cases m)
    (auto simp: codec_ok_def serialize_value_def bound_increment_delta_def build_increment_record_def split: if_splits)

lemma replay_delta_spec:
  assumes "codec_ok C" "uint d \<le> i64_max"
  shows "replay_delta C v d =
    (let cur = (case v of Some x \<Rightarrow> x | None \<Rightarrow> 0) in if uint cur + uint d < 2 ^ 64 then Some (cur + d) else None)"
proof -
  have sint: "sint d = uint d"
    using assms(2) by (simp add: sint_uint signed_take_bit_int_eq_self order_trans [OF _ uint_ge_0])
  have "i128_to_counter_value U64Value (vc_deserialize C) (uint cur + uint d) =
      (if uint cur + uint d < 2 ^ 64 then Some (cur + d) else None)" for cur
    using add_count_spec [OF assms(1), of cur d] assms(1) by (simp add: add_count_def codec_ok_def)
  from this this [of 0] show ?thesis
    using assms(1) by (cases v)
      (simp_all add: replay_delta_def codec_ok_def counter_value_to_i128_def counter_leaf_to_i128_def sint Let_def)
qed

lemma replay_mutation:
  assumes "codec_ok C" "data_record C m = Ok r"
  shows "replay_map C (mutation_op l m) M = (if empty_increment m then M else apply_mutation m M)"
proof (cases m)
  case (MIncrement k d)
  then have d: "uint d \<le> i64_max"
    using assms(2) by (simp add: bound_increment_delta_def split: if_splits)
  have "count_of (M k) = (case (case M k of None \<Rightarrow> None | Some v \<Rightarrow> v) of None \<Rightarrow> 0 | Some v \<Rightarrow> v)"
    by (auto simp: count_of_def split: option.splits)
  then show ?thesis
    using replay_delta_spec [OF assms(1) d]
    by (auto simp: replay_map_def apply_mutation_def MIncrement Let_def fun_eq_iff)
qed (use assms(1) in \<open>simp_all add: replay_map_def apply_mutation_def codec_ok_def\<close>)

subsection \<open>Reconciling the log\<close>

text \<open>The published operations whose rank a log contains.\<close>

definition ranked_in :: "(lsn \<times> wal_record) list \<Rightarrow> lsn \<Rightarrow> bool" where
  "ranked_in rs l \<longleftrightarrow> (\<exists>(rl, r)\<in>set rs. \<exists>k g. r = CommitRank l k g)"

definition retained :: "(lsn \<times> wal_record) list \<Rightarrow> (u64 \<times> lsn \<times> mutation) list \<Rightarrow> (u64 \<times> lsn \<times> mutation) list" where
  "retained rs H = filter (\<lambda>(g, l, m). ranked_in rs l) H"

text \<open>Those of them that replay applies.\<close>

definition replayed :: "(lsn \<times> wal_record) list \<Rightarrow> (u64 \<times> lsn \<times> mutation) list \<Rightarrow> (u64 \<times> lsn \<times> mutation) list" where
  "replayed rs H = filter (\<lambda>(g, l, m). ranked_in rs l \<and> \<not> empty_increment m) H"

lemma replayed_retained: "replayed rs H = filter (\<lambda>(g, l, m). \<not> empty_increment m) (retained rs H)"
  by (simp add: replayed_def retained_def case_prod_unfold conj_commute)

lemma rank_map_snoc: "rank_map (rs @ [(rl, r)]) = rank_of_marker r (rank_map rs)"
  by (simp add: rank_map_def)

lemma rank_map_sound: "rank_map rs l = Some g \<Longrightarrow> \<exists>rl k. (rl, CommitRank l k g) \<in> set rs"
proof (induction rs rule: rev_induct)
  case (snoc x rs)
  obtain rl r where x: "x = (rl, r)" by force
  then show ?case
    using snoc by (cases r) (auto simp: rank_map_snoc split: if_splits)
qed (simp add: rank_map_def)

lemma rank_map_complete: "(rl, CommitRank l k g) \<in> set rs \<Longrightarrow> rank_map rs l \<noteq> None"
proof (induction rs rule: rev_induct)
  case (snoc x rs)
  obtain rl' r where x: "x = (rl', r)" by force
  then show ?case
    using snoc by (cases r) (auto simp: rank_map_snoc)
qed simp

lemma rank_published:
  assumes inv: "log_inv C s" and "(rl, CommitRank l k g) \<in> set (sm_placed (dm_wal s))"
  shows "\<exists>m. (g, l, m) \<in> set (dm_history s)"
proof -
  obtain i a where a: "appender_at s i = Some a" "placed_entry a = Some (rl, CommitRank l k g)"
    using placed_appender [OF log_invD(1) [OF inv] assms(2)] by blast
  have rec: "record_of a = CommitRank l k g"
    using placed_entry_lsn [OF a(2)] by simp
  obtain tid where "i = 2 * tid \<or> i = Suc (2 * tid)"
    using oddE [of i] evenE [of i] by (metis Suc_eq_plus1)
  then show ?thesis
    using log_invD(4) [OF inv, of tid a] log_invD(5) [OF inv, of tid a] a(1) rec by (auto dest: data_record_not_rank)
qed

lemma published_record:
  assumes inv: "log_inv C s" "history_inv n s" and h: "(g, l, m) \<in> set (dm_history s)" "(l, r) \<in> set (sm_placed (dm_wal s))"
  shows "data_record C m = Ok r"
proof -
  obtain tid d where tid: "owner s tid = Some m" "appender_at s (2 * tid) = Some (Acked l d)"
    using inv(2) h(1) unfolding history_inv_def data_at_def by blast
  obtain j b where b: "appender_at s j = Some b" "placed_entry b = Some (l, r)"
    using placed_appender [OF log_invD(1) [OF inv(1)] h(2)] by blast
  have "j = 2 * tid"
    using lsn_holder_unique [OF log_invD(1) [OF inv(1)], of j l "2 * tid"] placed_entry_lsn [OF b(2)] b(1) tid(2)
    by (simp add: of_appender_def)
  then have "r = d"
    using b tid(2) by (auto simp: placed_entry_def)
  then show ?thesis
    using log_invD(4) [OF inv(1) tid(2)] tid(1) by simp
qed

lemma history_unique:
  assumes "history_inv n s" "(g, l, m) \<in> set (dm_history s)" "(g', l, m') \<in> set (dm_history s)"
  shows "g = g' \<and> m = m'"
proof -
  have "distinct (map (fst \<circ> snd) (dm_history s))"
    using assms(1) unfolding history_inv_def by blast
  then have "inj_on (fst \<circ> snd) (set (dm_history s))"
    by (simp add: distinct_map)
  from inj_onD [OF this _ assms(2,3)] show ?thesis
    by simp
qed

lemma rank_map_history:
  assumes inv: "log_inv C s" "history_inv n s" and pre: "prefix rs (sm_placed (dm_wal s))"
    and h: "(g, l, m) \<in> set (dm_history s)"
  shows "rank_map rs l = (if ranked_in rs l then Some g else None)"
proof (cases "rank_map rs l")
  case None
  then show ?thesis
    using rank_map_complete by (fastforce simp: ranked_in_def)
next
  case (Some g')
  then obtain rl k where rk: "(rl, CommitRank l k g') \<in> set rs"
    using rank_map_sound by blast
  then have "(rl, CommitRank l k g') \<in> set (sm_placed (dm_wal s))"
    using pre set_mono_prefix by blast
  then obtain m' where "(g', l, m') \<in> set (dm_history s)"
    using rank_published [OF inv(1)] by blast
  then have "g' = g"
    using history_unique [OF inv(2) h] by simp
  moreover have "ranked_in rs l"
    using rk by (fastforce simp: ranked_in_def)
  ultimately show ?thesis
    using Some by simp
qed

lemma ranked_has_data:
  assumes "ranks_follow P" "prefix rs P" "ranked_in rs l"
  shows "l \<in> fst ` set rs"
proof -
  obtain rl k g where "(rl, CommitRank l k g) \<in> set rs"
    using assms(3) by (auto simp: ranked_in_def)
  then obtain A B where "rs = A @ (rl, CommitRank l k g) # B"
    using split_list by metis
  moreover from this obtain B' where "P = A @ (rl, CommitRank l k g) # B'"
    using assms(2) by (auto simp: prefix_def)
  then have "l \<in> fst ` set A"
    using assms(1) unfolding ranks_follow_def by blast
  ultimately show ?thesis
    by auto
qed

text \<open>The operation each published entry is replayed as.\<close>

definition stamped_op :: "u64 \<times> lsn \<times> mutation \<Rightarrow> u64 \<times> lsn \<times> recovered_operation" where
  "stamped_op = (\<lambda>(g, l, m). (g, l, mutation_op l m))"

definition stamps :: "(lsn \<times> wal_record) list \<Rightarrow> lsn \<times> wal_record \<Rightarrow> (u64 \<times> lsn \<times> recovered_operation) list" where
  "stamps rs = (\<lambda>(l, r). case rank_map rs l of
     None \<Rightarrow> [] | Some g \<Rightarrow> map (\<lambda>op. (g, l, op)) (recovered_operations_from_record l r))"

lemma stamps_set:
  assumes inv: "log_inv C s" "history_inv n s" and C: "codec_ok C" and pre: "prefix rs (sm_placed (dm_wal s))"
  shows "set (concat (map (stamps rs) rs)) = stamped_op ` set (retained rs (dm_history s))"
    and "x \<in> set rs \<Longrightarrow> length (stamps rs x) \<le> 1"
proof -
  have sub: "set rs \<subseteq> set (sm_placed (dm_wal s))"
    using pre by (rule set_mono_prefix)
  have single: "stamps rs (l, r) = [stamped_op (g, l, m)]"
    if "(l, r) \<in> set rs" "(g, l, m) \<in> set (dm_history s)" "ranked_in rs l" for l r g m
    using data_record_op [OF C published_record [OF inv that(2)]] sub that rank_map_history [OF inv pre that(2)]
    by (auto simp: stamps_def stamped_op_def)
  have ranked: "stamps rs (l, r) = [] \<or> (\<exists>g m. (g, l, m) \<in> set (dm_history s) \<and> ranked_in rs l)" for l r
  proof (cases "rank_map rs l")
    case (Some g)
    then obtain rl k where rk: "(rl, CommitRank l k g) \<in> set rs"
      using rank_map_sound by blast
    then have "\<exists>m. (g, l, m) \<in> set (dm_history s)"
      using rank_published [OF inv(1)] sub by blast
    then show ?thesis
      using rk by (fastforce simp: ranked_in_def)
  qed (simp add: stamps_def)
  show "length (stamps rs x) \<le> 1" if "x \<in> set rs"
    using that ranked [of "fst x" "snd x"] single [of "fst x" "snd x"] by (cases x) auto
  show "set (concat (map (stamps rs) rs)) = stamped_op ` set (retained rs (dm_history s))"
  proof (intro equalityI subsetI)
    fix y
    assume "y \<in> set (concat (map (stamps rs) rs))"
    then obtain l r where lr: "(l, r) \<in> set rs" "y \<in> set (stamps rs (l, r))"
      by auto
    then obtain g m where "(g, l, m) \<in> set (dm_history s)" "ranked_in rs l"
      using ranked [of l r] by auto
    then show "y \<in> stamped_op ` set (retained rs (dm_history s))"
      using single [OF lr(1)] lr(2) by (auto simp: retained_def)
  next
    fix y
    assume "y \<in> stamped_op ` set (retained rs (dm_history s))"
    then obtain g l m where y: "y = stamped_op (g, l, m)" "(g, l, m) \<in> set (dm_history s)" "ranked_in rs l"
      by (auto simp: retained_def)
    then obtain r where "(l, r) \<in> set rs"
      using ranked_has_data [OF log_invD(3) [OF inv(1)] pre] by force
    then show "y \<in> set (concat (map (stamps rs) rs))"
      using single [OF _ y(2,3)] y(1) by force
  qed
qed

lemma distinct_short: "length xs \<le> 1 \<Longrightarrow> distinct xs"
  by (cases xs) auto

lemma distinct_concat_stamps:
  fixes F :: "'a \<times> 'b \<Rightarrow> ('c \<times> 'a \<times> 'd) list"
  assumes "distinct (map fst rs)" "\<And>x. x \<in> set rs \<Longrightarrow> length (F x) \<le> 1"
    "\<And>x y. y \<in> set (F x) \<Longrightarrow> fst (snd y) = fst x"
  shows "distinct (map (fst \<circ> snd) (concat (map F rs)))"
  using assms(1,2)
proof (induction rs)
  case (Cons x rs)
  have "distinct (map (fst \<circ> snd) (F x))"
    using Cons.prems(2) [of x] by (intro distinct_short) simp
  moreover have "distinct (map (fst \<circ> snd) (concat (map F rs)))"
    by (rule Cons.IH) (use Cons.prems in simp_all)
  moreover have "(fst \<circ> snd) y \<noteq> (fst \<circ> snd) z" if y: "y \<in> set (F x)" and z: "z \<in> set (concat (map F rs))" for y z
  proof -
    obtain x' where "x' \<in> set rs" "z \<in> set (F x')"
      using z by auto
    then have "fst (snd z) \<in> fst ` set rs"
      using assms(3) by auto
    moreover have "fst x \<notin> fst ` set rs"
      using Cons.prems(1) by simp
    ultimately show ?thesis
      using assms(3) [OF y] by (metis comp_apply)
  qed
  ultimately show ?case
    by (simp only: list.map concat.simps map_append distinct_append set_map) blast
qed simp

lemma inj_on_key:
  assumes "distinct (map (fst \<circ> snd) ys)"
  shows "inj_on (\<lambda>(g, l, _). (g, l)) (set ys)"
proof -
  have "inj_on (fst \<circ> snd) (set ys)"
    using assms by (simp add: distinct_map)
  then show ?thesis
    unfolding inj_on_def by (auto simp: case_prod_unfold)
qed

lemma distinct_key: "distinct (map (fst \<circ> snd) ys) \<Longrightarrow> distinct (map (\<lambda>(g, l, _). (g, l)) ys)"
  using inj_on_key [of ys] by (simp add: distinct_map)

lemma reconcile_retained:
  assumes inv: "log_inv C s" "history_inv n s" and C: "codec_ok C" and pre: "prefix rs (sm_placed (dm_wal s))"
    and reg: "\<And>l. l \<in> fst ` set rs \<Longrightarrow> regime_of l = Overlay"
  shows "reconcile_lww_with_regime rs False cp regime_of =
    map (\<lambda>(g, l, m). mutation_op l m) (retained rs (dm_history s))"
proof -
  let ?H = "retained rs (dm_history s)" and ?key = "\<lambda>(g, l, _). (g, l)"
  let ?xs = "concat (map (stamps rs) rs)" and ?ys = "map stamped_op ?H"
  have stamp: "stamp_record (rank_map rs) False cp regime_of x = stamps rs x" if "x \<in> set rs" for x
  proof -
    have "regime_of (fst x) = Overlay"
      using reg that by blast
    then show ?thesis
      by (simp add: stamp_record_def stamp_of_def stamps_def case_prod_unfold split: option.split)
  qed
  have st: "concat (map (stamp_record (rank_map rs) False cp regime_of) rs) = ?xs"
    by (rule arg_cong [where f = concat]) (simp add: stamp)
  have hist: "sorted_wrt (<) (map fst (dm_history s))" "distinct (map (fst \<circ> snd) (dm_history s))"
    using inv(2) unfolding history_inv_def by blast+
  have dist_H: "distinct (map (fst \<circ> snd) ?H)"
    unfolding retained_def using hist(2) by (simp add: distinct_map_filter)
  have lsn: "fst \<circ> snd \<circ> stamped_op = fst \<circ> snd" "?key \<circ> stamped_op = (\<lambda>(g, l, _). (g, l))"
    by (auto simp: stamped_op_def)
  have dist_ys: "distinct (map (fst \<circ> snd) ?ys)"
    using dist_H by (simp add: lsn(1))
  obtain rest where "sm_placed (dm_wal s) = rs @ rest"
    using pre by (auto simp: prefix_def)
  moreover have "distinct (map fst (sm_placed (dm_wal s)))"
    using log_invD(1) [OF inv(1)] unfolding lsn_inv_def by blast
  ultimately have "distinct (map fst rs)"
    by simp
  then have dist: "distinct (map (fst \<circ> snd) ?xs)"
    using stamps_set(2) [OF inv C pre] by (intro distinct_concat_stamps) (auto simp: stamps_def split: option.splits)
  have set_eq: "set ?xs = set ?ys"
    using stamps_set(1) [OF inv C pre] by simp
  have "sort_key ?key ?xs = ?ys"
  proof (rule map_sorted_distinct_set_unique [where f = ?key])
    show "inj_on ?key (set (sort_key ?key ?xs) \<union> set ?ys)"
      using set_eq inj_on_key [OF dist_ys] by simp
    have "sorted_wrt (\<lambda>x y. fst x < fst y) ?H"
      unfolding retained_def using hist(1) by (intro sorted_wrt_filter) (simp add: sorted_wrt_map)
    then have "sorted_wrt (\<lambda>x y. ?key x \<le> ?key y) ?H"
      by (rule sorted_wrt_mono_rel [rotated]) (auto simp: less_imp_le)
    then show "sorted (map ?key ?ys)"
      by (simp add: sorted_wrt_map lsn(2) stamped_op_def case_prod_unfold)
    show "distinct (map ?key (sort_key ?key ?xs))"
      using dist set_eq inj_on_key [OF dist_ys] by (simp add: distinct_map)
    show "distinct (map ?key ?ys)"
      by (rule distinct_key [OF dist_ys])
    show "set (sort_key ?key ?xs) = set ?ys"
      using set_eq by simp
  qed simp
  then show ?thesis
    unfolding reconcile_lww_with_regime_def st Let_def
    by (simp add: stamped_op_def case_prod_unfold comp_def)
qed

subsection \<open>Reopening\<close>

definition reopen :: "u64 value_codec \<Rightarrow> (u8, u64) fault_in \<Rightarrow> byte list \<Rightarrow> (string + nat \<times> u64 overlay_trie) option" where
  "reopen C fault_in bytes = drain_segments_into_overlay C fault_in [Some bytes] False 0 install_overlay"

lemma regime_fold: "l \<in> fst ` set rs \<Longrightarrow> fold (\<lambda>(lsn, _) m. m(lsn \<mapsto> v)) rs M l = Some v"
  by (induction rs rule: rev_induct) (force split: if_splits)+

lemma length_history:
  assumes "history_inv n s" "counters_inv n S s"
  shows "length (dm_history s) \<le> Suc n"
proof -
  have sorted: "sorted_wrt (<) (map fst (dm_history s))" and le: "\<forall>c\<in>set (dm_history s). fst c \<le> dm_commit_seq s"
    using assms(1) unfolding history_inv_def by auto
  have "unat ` set (map fst (dm_history s)) \<subseteq> {..n}"
    using le assms(2) unfolding counters_inv_def by (auto simp: word_le_nat_alt intro: order_trans)
  then have "card (unat ` set (map fst (dm_history s))) \<le> Suc n"
    using card_mono [of "{..n}"] by simp
  moreover have "inj_on unat (set (map fst (dm_history s)))"
    by (rule inj_onI) (simp add: word_unat_eq_iff)
  moreover have "distinct (map fst (dm_history s))"
    using sorted by (simp add: strict_sorted_iff)
  ultimately show ?thesis
    by (simp add: card_image distinct_card del: set_map)
qed

lemma fold_skip:
  "fold (\<lambda>x. if P x then id else f x) xs M = fold f (filter (\<lambda>x. \<not> P x) xs) M"
  by (induction xs arbitrary: M) simp_all

lemma fold_replay_retained:
  assumes inv: "log_inv C s" "history_inv n s" and C: "codec_ok C" and pre: "prefix rs (sm_placed (dm_wal s))"
  shows "fold (replay_map C) (map (\<lambda>(g, l, m). mutation_op l m) (retained rs (dm_history s))) Map.empty
    = history_map (replayed rs (dm_history s))"
proof -
  let ?H = "retained rs (dm_history s)" and ?P = "\<lambda>(g, l, m). empty_increment m"
  have "replay_map C (mutation_op l m) M = (if empty_increment m then M else apply_mutation m M)"
    if h: "(g, l, m) \<in> set ?H" for g l m M
  proof -
    have H: "(g, l, m) \<in> set (dm_history s)" "ranked_in rs l"
      using h by (auto simp: retained_def)
    then obtain r where "(l, r) \<in> set (sm_placed (dm_wal s))"
      using ranked_has_data [OF log_invD(3) [OF inv(1)] pre] set_mono_prefix [OF pre] by force
    then show ?thesis
      using replay_mutation [OF C published_record [OF inv H(1)]] by blast
  qed
  then have "fold (\<lambda>(g, l, m). replay_map C (mutation_op l m)) ?H M
      = fold (\<lambda>c. if ?P c then id else (\<lambda>(g, l, m). apply_mutation m) c) ?H M" for M
    by (intro fold_cong) (auto simp: fun_eq_iff)
  then show ?thesis
    by (simp add: fold_skip replayed_retained history_map_def fold_map comp_def case_prod_unfold)
qed

lemma placed_positive:
  assumes "log_inv C s" "(l, r) \<in> set (sm_placed (dm_wal s))"
  shows "1 \<le> l"
proof -
  have lsn: "lsn_inv (dm_wal s)"
    using assms(1) by (simp add: log_inv_def)
  obtain i a where "sm_appenders (dm_wal s) i = Some a" "placed_entry a = Some (l, r)"
    using placed_appender [OF lsn assms(2)] by blast
  then have "of_appender lsn_of (dm_wal s) i = Some l"
    using placed_entry_lsn by (simp add: of_appender_def)
  then have "0 < l"
    using lsn unfolding lsn_inv_def by (auto dest: ranI)
  then show ?thesis
    by (simp add: word_le_nat_alt word_less_nat_alt)
qed

text \<open>What reopening makes of a log whose readable part is a prefix of the placed
  records.\<close>

lemma reopen_replayed:
  assumes inv: "durable_inv C n S s" and n: "n < 2 ^ 64 - 2" and ok: "codec_ok C" "loader_ok u8_label fault_in"
    and scan: "fst (segment_scan bytes) = rs" "segment_regime (Some bytes) = Overlay" "prefix rs (sm_placed (dm_wal s))"
  shows "if rs = [] \<or> 1 \<in> fst ` set rs
    then \<exists>k t. reopen C fault_in bytes = Some (Ok (k, t)) \<and> trie_ok t
      \<and> trie_map t = history_map (replayed rs (dm_history s))
    else reopen C fault_in bytes = Some (Err ''archive drain has a prefix gap'')"
proof -
  have parts: "log_inv C s" "history_inv n s" "counters_inv n S s"
    using inv unfolding durable_inv_def by blast+
  let ?reg = "fold (\<lambda>(lsn, _) m. m(lsn \<mapsto> Overlay)) rs Map.empty"
  have collect: "drain_collect [Some bytes] ([], Map.empty, []) = (rs, ?reg, map fst rs)"
    using scan(1,2) by (simp add: drain_segment_def Let_def)
  have gap: "(map fst rs \<noteq> [] \<and> \<not> False \<and> 1 < Min (set (map fst rs))) \<longleftrightarrow> \<not> (rs = [] \<or> 1 \<in> fst ` set rs)"
  proof -
    have "\<forall>l\<in>fst ` set rs. 1 \<le> l"
      using placed_positive [OF parts(1)] set_mono_prefix [OF scan(3)] by force
    moreover have "1 < Min (set (map fst rs)) \<longleftrightarrow> (\<forall>l\<in>fst ` set rs. 1 < l)" if "rs \<noteq> []"
      using that by simp
    ultimately show ?thesis
      by (force simp: order_less_le simp del: set_map)
  qed
  have winners: "reconcile_lww_with_regime rs False 0 (\<lambda>lsn. case ?reg lsn of Some r \<Rightarrow> r | None \<Rightarrow> Owned)
      = map (\<lambda>(g, l, m). mutation_op l m) (retained rs (dm_history s))"
    by (rule reconcile_retained [OF parts(1,2) ok(1) scan(3)]) (simp add: regime_fold)
  have "length (retained rs (dm_history s)) \<le> Suc n"
    using length_filter_le order_trans [OF _ length_history [OF parts(2,3)]] unfolding retained_def by blast
  then have "card (dom (trie_map install_overlay)) + length (map (\<lambda>(g, l, m). mutation_op l m) (retained rs (dm_history s))) < 2 ^ 64"
    using n by (simp del: term_map.simps)
  from drain_winners_spec [OF trie_ok_install(1) ok(2) this, of C 0] show ?thesis
    unfolding reopen_def drain_segments_into_overlay_def collect prod.case Let_def gap winners
    using fold_replay_retained [OF parts(1,2) ok(1) scan(3)] by (auto simp del: term_map.simps)
qed

text \<open>The log of a run is a reachable log of lock-free appends.\<close>

lemma thread_wal:
  assumes st: "thread_step C fault_in tid m ph s = (s', ph')" and inv: "phase_inv n S s tid m ph"
  shows "segment_machine_step\<^sup>*\<^sup>* (dm_wal s) (dm_wal s')"
proof -
  have spawn: "segment_machine_step\<^sup>*\<^sup>* (dm_wal s) (spawn_appender i d (dm_wal s))" if "appender_at s i = None" for i d
    using segment_machine_step.spawn [OF that] by (rule r_into_rtranclp)
  have run: "segment_machine_step\<^sup>*\<^sup>* (dm_wal s) (run_appender i (dm_wal s))" for i
    using segment_machine_step.run by (rule r_into_rtranclp)
  show ?thesis
    using st inv by (cases ph)
      (auto simp: set_cache_def mark_lsn_def start_append_def append_step_def
        split: sum.splits option.splits appender.splits if_splits prod.splits intro: spawn run)
qed

lemma durable_log_reachable:
  assumes "durable_run C fault_in n s" "n < 2 ^ 64 - 2" "codec_ok C" "loader_ok u8_label fault_in"
  shows "segment_reachable (dm_wal s)"
  using assms
proof (induction rule: durable_run.induct)
  case (init policy)
  then show ?case
    by (simp add: durable_init_def)
next
  case (step n s s')
  then have reach: "segment_reachable (dm_wal s)"
    by simp
  obtain S where inv: "durable_inv C n S s"
    using durable_run_inv [OF step.hyps(1)] step.prems by auto
  from step.hyps(2) have "segment_machine_step\<^sup>*\<^sup>* (dm_wal s) (dm_wal s')"
  proof cases
    case (run tid)
    show ?thesis
    proof (cases "dm_threads s tid")
      case (Some c)
      obtain m ph where c: "c = (m, ph)" by force
      obtain u ph' where st: "thread_step C fault_in tid m ph s = (u, ph')" by force
      have "phase_inv n S s tid m ph"
        using inv Some c unfolding durable_inv_def by blast
      then show ?thesis
        using thread_wal [OF st] run Some c st by (simp add: run_thread_def)
    qed (use run in \<open>simp add: run_thread_def\<close>)
  next
    case (write_error i l r off)
    then show ?thesis
      using segment_machine_step.write_error [of "dm_wal s" i l r off] by (simp add: fail_write_def r_into_rtranclp)
  qed (simp_all add: spawn_thread_def set_durability_policy_def fail_sync_def)
  then show ?case
    using reach by simp
qed

lemma scan_header:
  assumes "length h = 64" "wal_header_from_bytes h = Ok hdr" "regime hdr = Overlay"
  shows "segment_regime (Some (h @ body)) = Overlay" "segment_scan (h @ body) = read_records body"
  using assms by (simp_all add: segment_regime_def read_header_def segment_scan_def)

lemma returned_ranked:
  assumes inv: "durable_inv C n S s" and t: "dm_threads s tid = Some (m, Returned r (Some (g, l)))"
  shows "(g, l, m) \<in> set (retained (sm_placed (dm_wal s)) (dm_history s))"
proof -
  have lsn: "lsn_inv (dm_wal s)"
    using inv unfolding durable_inv_def log_inv_def by blast
  have "phase_inv n S s tid m (Returned r (Some (g, l)))"
    using inv t unfolding durable_inv_def by blast
  then obtain rl k where h: "(g, l, m) \<in> set (dm_history s)"
      and rk: "appender_at s (Suc (2 * tid)) = Some (Acked rl (CommitRank l k g))"
    by (auto simp: rank_at_def)
  have "(rl, CommitRank l k g) \<in> ran (of_appender placed_entry (dm_wal s))"
    using rk by (intro ranI [where a = "Suc (2 * tid)"]) (simp add: of_appender_def placed_entry_def)
  then have "ranked_in (sm_placed (dm_wal s)) l"
    using lsn unfolding lsn_inv_def ranked_in_def by blast
  then show ?thesis
    using h by (simp add: retained_def)
qed

lemma returned_first_lsn:
  assumes inv: "durable_inv C n S s" and t: "dm_threads s tid = Some (m, Returned r (Some (g, l)))"
  shows "1 \<in> fst ` set (sm_placed (dm_wal s))"
proof -
  have lsn: "lsn_inv (dm_wal s)"
    using inv unfolding durable_inv_def log_inv_def by blast
  have at: "data_at s tid l"
    using inv t unfolding durable_inv_def by fastforce
  then obtain d where "appender_at s (2 * tid) = Some (Acked l d)"
    by (auto simp: data_at_def)
  moreover have "0 < l"
    using data_lsn [OF lsn at] by simp
  then have "1 \<le> l"
    by (simp add: word_le_nat_alt word_less_nat_alt)
  ultimately show ?thesis
    by (intro acked_below_placed [OF lsn]) simp_all
qed

lemma quiescent_retained:
  assumes inv: "durable_inv C n S s" and fin: "\<forall>tid m ph. dm_threads s tid = Some (m, ph) \<longrightarrow> (\<exists>r c. ph = Returned r c)"
  shows "retained (sm_placed (dm_wal s)) (dm_history s) = dm_history s"
proof -
  have hist: "history_inv n s"
    using inv unfolding durable_inv_def by blast
  have "ranked_in (sm_placed (dm_wal s)) l" if h: "(g, l, m) \<in> set (dm_history s)" for g l m
  proof -
    obtain tid where tid: "owner s tid = Some m" "data_at s tid l"
      using hist h unfolding history_inv_def by blast
    then obtain r c where t: "dm_threads s tid = Some (m, Returned r c)"
      using fin by (fastforce simp: owner_def)
    have ph: "phase_inv n S s tid m (Returned r c)"
      using inv t unfolding durable_inv_def by blast
    have "l \<in> fst ` snd ` set (dm_history s)"
      using h by force
    then have "\<not> waiting_at s tid l'" for l'
      using tid(2) by (auto simp only: waiting_at_def data_at_def option.inject appender.inject)
    then obtain g' l' where c: "c = Some (g', l')"
      using ph tid(2) by (cases c) (auto simp: data_at_def)
    then have "l' = l"
      using ph tid(2) by (auto simp: data_at_def)
    then have "(g', l, m) \<in> set (retained (sm_placed (dm_wal s)) (dm_history s))"
      using returned_ranked [OF inv] t c by blast
    then show ?thesis
      by (simp add: retained_def)
  qed
  then show ?thesis
    unfolding retained_def by (intro filter_True) auto
qed

end
