(* ===== verification/Durable_Runs.thy ===== *)
theory Durable_Runs
  imports Durable_Recovery
begin

text \<open>
  Executions of the durable write protocol.  The first part runs single threads to
  completion on a log without appends in flight.  The second part holds the theorems
  on crashes and acknowledged writes with executions as witnesses, the executions in
  which the protocol gives less than its callers may expect, and the well-formedness
  of every reachable state.
\<close>

subsection \<open>Schedules\<close>

definition run_schedule ::
    "u64 value_codec \<Rightarrow> (u8, u64) fault_in \<Rightarrow> nat list \<Rightarrow> durable_machine \<Rightarrow> durable_machine" where
  "run_schedule C fault_in tids s = fold (run_thread C fault_in) tids s"

lemma durable_run_schedule:
  "durable_run C fault_in n s \<Longrightarrow> durable_run C fault_in (n + length tids) (run_schedule C fault_in tids s)"
proof (induction tids arbitrary: n s)
  case (Cons tid tids)
  then have "durable_run C fault_in (Suc n) (run_thread C fault_in tid s)"
    by (blast intro: durable_run.step durable_step.run)
  then show ?case
    using Cons.IH [of "Suc n"] by (simp add: run_schedule_def)
qed (simp add: run_schedule_def)

lemma run_schedule_simps [simp]:
  "run_schedule C fault_in [] s = s"
  "run_schedule C fault_in (tid # tids) s = run_schedule C fault_in tids (run_thread C fault_in tid s)"
  by (simp_all add: run_schedule_def)

lemma run_schedule_append: "run_schedule C fault_in (xs @ ys) s = run_schedule C fault_in ys (run_schedule C fault_in xs s)"
  by (simp add: run_schedule_def)

lemma turns:
  "replicate 2 tid = [tid, tid]"
  "replicate 4 tid = [tid, tid, tid, tid]"
  "replicate 6 tid = [tid, tid, tid, tid, tid, tid]"
  "replicate 7 tid = tid # replicate 6 tid"
  "replicate 9 tid = replicate 7 tid @ replicate 2 tid"
  "replicate 13 tid = replicate 2 tid @ replicate 7 tid @ replicate 4 tid"
  "replicate 22 tid = replicate 13 tid @ replicate 9 tid"
  by (simp_all add: numeral_eq_Suc)

text \<open>A log in which every LSN handed out is durable, and what one more append
  makes of it.\<close>

definition settled :: "segment_machine \<Rightarrow> bool" where
  "settled w \<longleftrightarrow> durable_lsn w + 1 = next_lsn w \<and> ww_segment_durable_pending (sw_writer (sm_writer w)) = {}
     \<and> owes w = Map.empty"

definition appended :: "nat \<Rightarrow> wal_record \<Rightarrow> segment_machine \<Rightarrow> segment_machine" where
  "appended i d w =
     (let l = next_lsn w; offset = sw_next_offset (sm_writer w)
      in w\<lparr> sm_writer := (sm_writer w)\<lparr> sw_writer := (sw_writer (sm_writer w))\<lparr> ww_file := write_all_at (encode_record_frame l d) offset (segment_file w),
               ww_next_lsn := l + 1, ww_segment_durable_lsn := l \<rparr>,
             sw_next_offset := offset + length (encode_record_frame l d) \<rparr>,
           sm_appenders := (sm_appenders w)(i \<mapsto> Acked l d), sm_placed := sm_placed w @ [(l, d)] \<rparr>)"

lemma appended_simps [simp]:
  "sm_appenders (appended i d w) = (sm_appenders w)(i \<mapsto> Acked (next_lsn w) d)"
  "sm_placed (appended i d w) = sm_placed w @ [(next_lsn w, d)]"
  "next_lsn (appended i d w) = next_lsn w + 1"
  "durable_lsn (appended i d w) = next_lsn w"
  by (simp_all add: appended_def Let_def)

lemma settled_appended: "settled w \<Longrightarrow> settled (appended i d w)"
  by (auto simp: settled_def owes_def fun_eq_iff appended_def Let_def)

lemma settled_init: "settled segment_init"
  by (simp add: settled_def segment_init_def owes_def fun_eq_iff)

lemma append_alone:
  assumes "settled (dm_wal s)" "appender_at s i = Some (Idle d)" "dm_threads s tid = Some (m, ph)"
    and ph: "\<And>s. thread_step C fault_in tid m ph s = append_step i fin ph s"
  shows "run_schedule C fault_in (replicate 6 tid) s =
    s\<lparr> dm_wal := appended i d (dm_wal s), dm_threads := (dm_threads s)(tid \<mapsto> (m, fin (next_lsn (dm_wal s)))) \<rparr>"
proof -
  have w: "durable_lsn (dm_wal s) + 1 = next_lsn (dm_wal s)" "ww_segment_durable_pending (sw_writer (sm_writer (dm_wal s))) = {}"
    using assms(1) by (simp_all add: settled_def)
  have drain: "drain_pending (durable_lsn (dm_wal s)) {next_lsn (dm_wal s)} = (next_lsn (dm_wal s), {})"
    by (simp add: drain_pending.simps w(1))
  show ?thesis
    using assms(2,3) by (simp add: turns(3) ph run_thread_def append_step_def sync_covers run_appender_def allocate_lsn_def mark_segment_durable_def
        drain w wait_for_segment_durable_lsn_poll_def appended_def Let_def)
qed

lemma data_alone:
  assumes "settled (dm_wal s)" "dm_threads s tid = Some (m, ToAppend r)" "data_record C m = Ok d"
  shows "run_schedule C fault_in (replicate 7 tid) s =
    s\<lparr> dm_wal := appended (2 * tid) d (dm_wal s), dm_threads := (dm_threads s)(tid \<mapsto> (m, Pending (next_lsn (dm_wal s)) r)) \<rparr>"
proof -
  let ?s = "s\<lparr> dm_wal := spawn_appender (2 * tid) d (dm_wal s), dm_threads := (dm_threads s)(tid \<mapsto> (m, Appending r)) \<rparr>"
  have "run_thread C fault_in tid s = ?s"
    using assms(2,3) by (simp add: run_thread_def start_append_def)
  moreover have "settled (dm_wal ?s)"
    using assms(1) by (auto simp: settled_def spawn_appender_def owes_def fun_eq_iff)
  ultimately show ?thesis
    using append_alone [of ?s "2 * tid" d tid m "Appending r" C fault_in "\<lambda>l. Pending l r"]
    by (simp add: turns(4) spawn_appender_def appended_def Let_def)
qed

lemma rank_alone:
  assumes "settled (dm_wal s)" "dm_threads s tid = Some (m, Won l g r)"
  defines "rl \<equiv> next_lsn (dm_wal s)"
  shows "run_schedule C fault_in (replicate 9 tid) s =
    mark_lsn rl (mark_lsn l (set_cache (touch_published m) (s\<lparr> dm_wal := appended (2 * tid + 1) (CommitRank l (mutation_key m) g) (dm_wal s),
      dm_threads := (dm_threads s)(tid \<mapsto> (m, Returned r (Some (g, l)))) \<rparr>)))"
proof -
  let ?d = "CommitRank l (mutation_key m) g"
  let ?s = "set_cache (touch_published m) (s\<lparr> dm_wal := spawn_appender (2 * tid + 1) ?d (dm_wal s), dm_threads := (dm_threads s)(tid \<mapsto> (m, Ranking l g r)) \<rparr>)"
  have "run_thread C fault_in tid s = ?s"
    using assms(2) by (simp add: run_thread_def start_append_def set_cache_def)
  moreover have "settled (dm_wal ?s)"
    using assms(1) by (auto simp: settled_def spawn_appender_def owes_def fun_eq_iff set_cache_def)
  ultimately have "run_schedule C fault_in (replicate 7 tid) s =
      ?s\<lparr> dm_wal := appended (2 * tid + 1) ?d (dm_wal s), dm_threads := (dm_threads s)(tid \<mapsto> (m, Ranked l rl g r)) \<rparr>"
    using append_alone [of ?s "2 * tid + 1" ?d tid m "Ranking l g r" C fault_in "\<lambda>rl. Ranked l rl g r"]
    by (simp add: turns(4) spawn_appender_def appended_def Let_def set_cache_def rl_def)
  then show ?thesis
    by (simp add: turns(5) run_schedule_append turns(1) run_thread_def set_cache_def mark_lsn_def)
qed

subsection \<open>An insert or a remove that takes effect\<close>

fun takes_effect :: "mutation \<Rightarrow> (u8 list \<rightharpoonup> u64 option) \<Rightarrow> bool" where
  "takes_effect (MInsert k) M = (M k = None)"
| "takes_effect (MRemove k) M = (M k \<noteq> None)"
| "takes_effect _ M = False"

lemma effective_attempt:
  assumes "root_ok old" "loader_ok u8_label fault_in" "takes_effect m (root_map (pr_node old))"
  shows "\<not> already_in_state m (pr_node old)"
    and "\<exists>new delta. publish_attempt C fault_in m (pr_node old) = Publish new delta"
proof -
  have root: "is_final (pr_node old) \<longleftrightarrow> root_map (pr_node old) [] \<noteq> None"
    by simp
  show "\<not> already_in_state m (pr_node old)"
    using assms(3) root by (cases "(m, pr_node old)" rule: already_in_state.cases) (simp_all del: term_map.simps)
  show "\<exists>new delta. publish_attempt C fault_in m (pr_node old) = Publish new delta"
    using assms(3) final_path_spec [OF assms(1,2), of "mutation_key m"] remove_path_spec [OF assms(1,2), of "mutation_key m"]
    by (cases m) (auto simp: build_attempt_def simp del: term_map.simps split: sum.splits durable_build_error.splits)
qed

lemma publish_alone:
  assumes "root_ok (live_root s)" "loader_ok u8_label fault_in" "codec_ok C" "room (dm_trie s)"
    and "takes_effect m (trie_map (dm_trie s))" "dm_threads s tid = Some (m, Pending l r)"
  shows "\<exists>slot. run_schedule C fault_in (replicate 4 tid) s =
      s\<lparr> dm_trie := (dm_trie s)\<lparr> lockfree_root := slot \<rparr>, dm_commit_seq := dm_commit_seq s + 1,
        dm_history := dm_history s @ [(dm_commit_seq s + 1, l, m)],
        dm_threads := (dm_threads s)(tid \<mapsto> (m, Won l (dm_commit_seq s + 1) r)) \<rparr>
    \<and> root_ok slot \<and> root_map (pr_node slot) = apply_mutation m (trie_map (dm_trie s))"
proof -
  note eff = effective_attempt(1) [OF assms(1,2,5)]
  obtain new delta where new: "publish_attempt C fault_in m (pr_node (live_root s)) = Publish new delta"
    using effective_attempt(2) [OF assms(1,2,5)] by blast
  have "prepared (live_root s) (mutation_key m) new delta (apply_entry m (trie_map (dm_trie s) (mutation_key m)))"
    using attempt_spec [OF assms(1-3) eff new] .
  from compare_exchange_cases [where slot = "live_root s", OF assms(1) this] obtain slot where
    slot: "compare_exchange_revision_counted (live_root s) (live_root s) new delta = Some (True, slot)" "root_ok slot"
      "root_map (pr_node slot) = apply_mutation m (trie_map (dm_trie s))"
    using assms(4) unfolding room_def apply_mutation_def by auto
  have "\<not> (\<exists>k d. m = MIncrement k d)"
    using assms(5) by auto
  then show ?thesis
    using slot eff assms(6) new by (intro exI [of _ slot]) (cases m; simp add: turns(2) run_thread_def del: publish_attempt.simps)
qed

lemma write_alone:
  assumes s: "root_ok (live_root s)" "loader_ok u8_label fault_in" "codec_ok C" "room (dm_trie s)" "settled (dm_wal s)"
      "dm_policy s = Immediate" "lockfree_cache (dm_trie s) = {}"
    and "takes_effect m (trie_map (dm_trie s))"
  defines "l \<equiv> next_lsn (dm_wal s)" and "g \<equiv> dm_commit_seq s + 1"
  shows "\<exists>slot d. data_record C m = Ok d
    \<and> run_schedule C fault_in (replicate 13 tid) (spawn_thread tid m s) =
      s\<lparr> dm_trie := (dm_trie s)\<lparr> lockfree_root := slot \<rparr>, dm_commit_seq := g, dm_wal := appended (2 * tid) d (dm_wal s),
        dm_history := dm_history s @ [(g, l, m)], dm_threads := (dm_threads s)(tid \<mapsto> (m, Won l g (RBool True))) \<rparr>
    \<and> root_ok slot \<and> root_map (pr_node slot) = apply_mutation m (trie_map (dm_trie s))"
proof -
  let ?s = "s\<lparr> dm_threads := (dm_threads s)(tid \<mapsto> (m, ToAppend (RBool True))) \<rparr>"
  obtain d where d: "data_record C m = Ok d"
    using assms(8) by (cases m) auto
  have leaf: "find_leaf_lockfree (dm_trie s) (mutation_key m) = None \<longleftrightarrow> trie_map (dm_trie s) (mutation_key m) = None"
    using find_leaf_root_map [of "pr_node (live_root s)" "mutation_key m"] by (auto simp: find_leaf_lockfree_def)
  have probe: "run_schedule C fault_in (replicate 2 tid) (spawn_thread tid m s) = ?s"
    using assms(8) s(6,7) leaf by (cases m)
      (auto simp: turns(1) run_thread_def spawn_thread_def start_phase_def simp del: term_map.simps)
  let ?u = "?s\<lparr> dm_wal := appended (2 * tid) d (dm_wal s), dm_threads := (dm_threads s)(tid \<mapsto> (m, Pending l (RBool True))) \<rparr>"
  have "run_schedule C fault_in (replicate 7 tid) ?s = ?u"
    using data_alone [of ?s tid m "RBool True" C d fault_in] s(5) d by (simp add: l_def)
  then have run: "run_schedule C fault_in (replicate 13 tid) (spawn_thread tid m s) =
      run_schedule C fault_in (replicate 4 tid) ?u"
    using probe by (simp only: turns(6) run_schedule_append)
  obtain slot where slot: "run_schedule C fault_in (replicate 4 tid) ?u =
      ?u\<lparr> dm_trie := (dm_trie s)\<lparr> lockfree_root := slot \<rparr>, dm_commit_seq := g,
        dm_history := dm_history s @ [(g, l, m)], dm_threads := (dm_threads s)(tid \<mapsto> (m, Won l g (RBool True))) \<rparr>"
      "root_ok slot" "root_map (pr_node slot) = apply_mutation m (trie_map (dm_trie s))"
    using publish_alone [of ?u fault_in C m tid l "RBool True"] s(1-4) assms(8)
    by (auto simp: g_def simp del: term_map.simps run_schedule_simps)
  show ?thesis
    unfolding run slot(1) using slot(2,3) d by (intro exI [of _ slot] exI [of _ d]) simp
qed

lemma write_returned:
  assumes s: "root_ok (live_root s)" "loader_ok u8_label fault_in" "codec_ok C" "room (dm_trie s)" "settled (dm_wal s)"
      "dm_policy s = Immediate" "lockfree_cache (dm_trie s) = {}"
    and "takes_effect m (trie_map (dm_trie s))"
  defines "l \<equiv> next_lsn (dm_wal s)" and "g \<equiv> dm_commit_seq s + 1"
  shows "\<exists>slot d. data_record C m = Ok d
    \<and> run_schedule C fault_in (replicate 22 tid) (spawn_thread tid m s) =
      mark_lsn (l + 1) (mark_lsn l (set_cache (touch_published m)
        (s\<lparr> dm_trie := (dm_trie s)\<lparr> lockfree_root := slot \<rparr>, dm_commit_seq := g, dm_history := dm_history s @ [(g, l, m)],
           dm_wal := appended (2 * tid + 1) (CommitRank l (mutation_key m) g) (appended (2 * tid) d (dm_wal s)), dm_threads := (dm_threads s)(tid \<mapsto> (m, Returned (RBool True) (Some (g, l)))) \<rparr>)))
    \<and> root_ok slot \<and> root_map (pr_node slot) = apply_mutation m (trie_map (dm_trie s))"
proof -
  obtain slot d where d: "data_record C m = Ok d" and
    run: "run_schedule C fault_in (replicate 13 tid) (spawn_thread tid m s) =
      s\<lparr> dm_trie := (dm_trie s)\<lparr> lockfree_root := slot \<rparr>, dm_commit_seq := g, dm_wal := appended (2 * tid) d (dm_wal s),
        dm_history := dm_history s @ [(g, l, m)], dm_threads := (dm_threads s)(tid \<mapsto> (m, Won l g (RBool True))) \<rparr>" (is "_ = ?s")
    and slot: "root_ok slot" "root_map (pr_node slot) = apply_mutation m (trie_map (dm_trie s))"
    using write_alone [OF assms(1-8), of tid] unfolding l_def g_def by blast
  have "settled (dm_wal ?s)"
    using settled_appended [OF s(5)] by simp
  from rank_alone [OF this, of tid m l g "RBool True" C fault_in]
  have "run_schedule C fault_in (replicate 22 tid) (spawn_thread tid m s) =
      mark_lsn (l + 1) (mark_lsn l (set_cache (touch_published m)
        (s\<lparr> dm_trie := (dm_trie s)\<lparr> lockfree_root := slot \<rparr>, dm_commit_seq := g, dm_history := dm_history s @ [(g, l, m)],
           dm_wal := appended (2 * tid + 1) (CommitRank l (mutation_key m) g) (appended (2 * tid) d (dm_wal s)), dm_threads := (dm_threads s)(tid \<mapsto> (m, Returned (RBool True) (Some (g, l)))) \<rparr>)))"
    unfolding turns(7) run_schedule_append run by (simp add: l_def)
  then show ?thesis
    using d slot by blast
qed

lemma codec_ok_u64: "codec_ok u64_codec"
  by (simp add: codec_ok_def u64_codec_def)

lemma loader_ok_no_disk: "loader_ok u8_label no_disk"
  by (simp add: loader_ok_def)

lemmas start_facts = trie_ok_install [unfolded trie_ok_def] codec_ok_u64 loader_ok_no_disk settled_init

lemma room_small: "finite (dom (trie_map t)) \<Longrightarrow> dom (trie_map t) \<subseteq> {k} \<Longrightarrow> room t"
proof -
  assume "dom (trie_map t) \<subseteq> {k}"
  then have "card (dom (trie_map t)) \<le> card {k}"
    by (intro card_mono) simp_all
  then show "room t"
    by (simp add: room_def)
qed

subsection \<open>One insert, and a crash after it\<close>

definition overlay_header :: wal_header where
  "overlay_header = wal_header_new\<lparr> wh_magic := MAGIC_OVERLAY, wh_rank_regime := rank_regime_code Overlay \<rparr>"

lemma overlay_header_bytes:
  "length (wal_header_to_bytes overlay_header) = 64"
  "wal_header_from_bytes (wal_header_to_bytes overlay_header) = Ok overlay_header"
  "regime overlay_header = Overlay"
proof -
  have wf: "wal_header_wf overlay_header"
    by (simp add: wal_header_wf_def overlay_header_def wal_header_new_def MIN_SUPPORTED_VERSION_def WAL_VERSION_def)
  show "wal_header_from_bytes (wal_header_to_bytes overlay_header) = Ok overlay_header"
    by (rule wal_header_from_to [OF wf])
  show "regime overlay_header = Overlay" "length (wal_header_to_bytes overlay_header) = 64"
    by (simp_all add: regime_def rank_regime_from_u8_def overlay_header_def wal_header_new_def wal_header_to_bytes_def MAGIC_OVERLAY_def)
qed

lemma durable_run_write:
  "durable_run u64_codec no_disk (n + length tids) (run_schedule u64_codec no_disk tids (spawn_thread tid m s))"
  if "durable_run u64_codec no_disk (n - 1) s" "dm_threads s tid = None" "0 < n"
  using durable_run_schedule [OF durable_run.step [OF that(1) durable_step.spawn [OF that(2)]], of tids] that(3) by simp

lemma init_state [simp]:
  "dm_threads (durable_init p) tid = None" "dm_policy (durable_init p) = p" "dm_trie (durable_init p) = install_overlay"
  "dm_wal (durable_init p) = segment_init" "dm_commit_seq (durable_init p) = 0" "dm_history (durable_init p) = []"
  "dm_threads (durable_init p) = Map.empty" "lockfree_cache install_overlay = {}"
  by (simp_all add: durable_init_def install_overlay_def)

lemma init_lsn [simp]: "next_lsn segment_init = 1"
  by (simp add: segment_init_def)

lemma small_frames: "frame_ok (l, Insert [b] None)" "frame_ok (l, CommitRank n [b] g)"
  by (simp_all add: frame_ok_def serialized_size_def short_def opt_len_def RECORD_HEADER_SIZE_def)

text \<open>The first insert up to its winning compare-and-swap.\<close>

lemma first_insert_won:
  obtains slot a where "run_schedule u64_codec no_disk (replicate 13 0) (spawn_thread 0 (MInsert k) (durable_init Immediate)) = a"
    "a = (durable_init Immediate)\<lparr> dm_trie := install_overlay\<lparr> lockfree_root := slot \<rparr>, dm_commit_seq := 1,
      dm_wal := appended 0 (Insert k None) segment_init, dm_history := [(1, 1, MInsert k)],
      dm_threads := [0 \<mapsto> (MInsert k, Won 1 1 (RBool True))] \<rparr>"
    "root_ok slot" "root_map (pr_node slot) = [k \<mapsto> None]" "durable_run u64_codec no_disk 14 a"
proof -
  let ?s = "durable_init Immediate"
  have "root_ok (live_root ?s)" "room (dm_trie ?s)" "settled (dm_wal ?s)" "dm_policy ?s = Immediate"
      "lockfree_cache (dm_trie ?s) = {}" "takes_effect (MInsert k) (trie_map (dm_trie ?s))"
    using start_facts room_small [of install_overlay k] by simp_all
  from write_alone [OF this(1) loader_ok_no_disk codec_ok_u64 this(2-6), of 0]
  obtain slot where "run_schedule u64_codec no_disk (replicate 13 0) (spawn_thread 0 (MInsert k) ?s) =
        ?s\<lparr> dm_trie := install_overlay\<lparr> lockfree_root := slot \<rparr>, dm_commit_seq := 1,
          dm_wal := appended 0 (Insert k None) segment_init, dm_history := [(1, 1, MInsert k)],
          dm_threads := [0 \<mapsto> (MInsert k, Won 1 1 (RBool True))] \<rparr>" "root_ok slot" "root_map (pr_node slot) = [k \<mapsto> None]"
    by (auto simp: apply_mutation_def simp del: term_map.simps)
  then show thesis
    using that durable_run_write [of 1 ?s 0 "replicate 13 0" "MInsert k"] durable_run.init by simp
qed

lemma solo_insert:
  "\<exists>s. durable_run u64_codec no_disk 23 s \<and> dm_history s = [(1, 1, MInsert k)]
    \<and> sm_placed (dm_wal s) = [(1, Insert k None), (2, CommitRank 1 k 1)] \<and> settled (dm_wal s) \<and> next_lsn (dm_wal s) = 3
    \<and> dm_threads s = [0 \<mapsto> (MInsert k, Returned (RBool True) (Some (1, 1)))] \<and> trie_map (dm_trie s) = [k \<mapsto> None]"
proof -
  obtain slot a where a: "a = (durable_init Immediate)\<lparr> dm_trie := install_overlay\<lparr> lockfree_root := slot \<rparr>, dm_commit_seq := 1,
      dm_wal := appended 0 (Insert k None) segment_init, dm_history := [(1, 1, MInsert k)],
      dm_threads := [0 \<mapsto> (MInsert k, Won 1 1 (RBool True))] \<rparr>"
      "root_map (pr_node slot) = [k \<mapsto> None]" "durable_run u64_codec no_disk 14 a"
    using first_insert_won by metis
  have "settled (dm_wal a)" "dm_threads a 0 = Some (MInsert k, Won 1 1 (RBool True))"
    using settled_appended [OF settled_init] by (simp_all add: a(1))
  from rank_alone [OF this] this(1) show ?thesis
    using durable_run_schedule [OF a(3), of "replicate 9 0"] a(2) settled_appended
    by (intro exI [of _ "run_schedule u64_codec no_disk (replicate 9 0) a"])
      (simp add: a(1) mark_lsn_def set_cache_def segment_init_def del: term_map.simps)
qed

text \<open>
  C1: What a crash leaves of the durable write protocol.  Take any interleaving
  of inserts, removes, valued inserts, upserts, compare-and-swaps and counter
  increments, with failing writes and syncs and changes of the policy.  The live
  trie is what the winning compare-and-swaps lead to, in order, and their
  generations increase strictly in that order.  Let the process stop and the log
  file be cut after any byte behind its header.  The records up to the first one
  whose frame is not completely on disk survive.  If the record with LSN 1 is
  among them, or there are none, reopening rebuilds exactly the effect of the
  published operations whose rank is among them, in the order in which they were
  published, except the increments of the empty key, which replay ignores.
  Otherwise reopening refuses the log as one whose beginning was pruned.
\<close>

theorem crash_recovers_ranked_history:
  assumes "durable_run C fault_in n s" "n < 2 ^ 64 - 2" "codec_ok C" "loader_ok u8_label fault_in"
    and "\<forall>lr\<in>set (sm_placed (dm_wal s)). frame_ok lr"
    and "length h = 64" "wal_header_from_bytes h = Ok hdr" "regime hdr = Overlay"
    and "bytes = h @ take kept (segment_file (dm_wal s))"
  shows "trie_map (dm_trie s) = history_map (dm_history s) \<and> sorted_wrt (<) (map fst (dm_history s))
    \<and> (\<exists>k\<le>length (sm_placed (dm_wal s)). complete_upto (dm_wal s) kept k
        \<and> (k < length (sm_placed (dm_wal s)) \<longrightarrow> \<not> complete_upto (dm_wal s) kept (Suc k))
        \<and> (let rs = take k (sm_placed (dm_wal s)) in
            if rs = [] \<or> 1 \<in> fst ` set rs
            then \<exists>count t. reopen C fault_in bytes = Some (Ok (count, t)) \<and> trie_map t = history_map (replayed rs (dm_history s))
            else reopen C fault_in bytes = Some (Err ''archive drain has a prefix gap'')))"
proof -
  let ?P = "sm_placed (dm_wal s)"
  obtain S where inv: "durable_inv C n S s"
    using durable_run_inv [OF assms(1-4)] by blast
  have live: "trie_map (dm_trie s) = history_map (dm_history s)" "sorted_wrt (<) (map fst (dm_history s))"
    using inv unfolding durable_inv_def history_inv_def by blast+
  have log: "segment_machine_inv (dm_wal s)" "hole_inv (dm_wal s)"
    using durable_log_reachable [OF assms(1-4)] segment_inv_reachable hole_inv_reachable by blast+
  from crash_reads [OF log assms(5), of kept] obtain k where k: "k \<le> length ?P" "complete_upto (dm_wal s) kept k"
      "k < length ?P \<longrightarrow> \<not> complete_upto (dm_wal s) kept (Suc k)"
      "fst (read_records (take kept (segment_file (dm_wal s)))) = take k ?P"
    by blast
  have "fst (segment_scan bytes) = take k ?P" "segment_regime (Some bytes) = Overlay" "prefix (take k ?P) ?P"
    using k(4) scan_header [OF assms(6-8)] by (simp_all add: assms(9) take_is_prefix)
  from reopen_replayed [OF inv assms(2-4) this] show ?thesis
    using live k(1-3) unfolding Let_def by (metis (no_types, lifting))
qed

theorem crash_recovers_ranked_history_witness:
  "\<exists>s n t. durable_run u64_codec no_disk 23 s \<and> trie_map (dm_trie s) = [[97] \<mapsto> None]
    \<and> reopen u64_codec no_disk (wal_header_to_bytes overlay_header
        @ take (length (encode_record_frame 1 (Insert [97] None))) (segment_file (dm_wal s))) = Some (Ok (n, t))
    \<and> trie_map t = Map.empty"
proof -
  obtain s where s: "durable_run u64_codec no_disk 23 s" "dm_history s = [(1, 1, MInsert [97])]" "settled (dm_wal s)"
      "sm_placed (dm_wal s) = [(1, Insert [97] None), (2, CommitRank 1 [97] 1)]" "trie_map (dm_trie s) = [[97] \<mapsto> None]"
    using solo_insert [of "[97]"] by blast
  let ?cut = "length (encode_record_frame 1 (Insert [97] None))"
  have upto: "complete_upto (dm_wal s) ?cut k \<longleftrightarrow> frame_start (sm_placed (dm_wal s)) k \<le> ?cut" for k
    using s(3) by (auto simp: complete_upto_def settled_def owed_at_def not_less [symmetric])
  have len: "length (sm_placed (dm_wal s)) = 2"
    by (simp add: s(4))
  have "\<forall>lr\<in>set (sm_placed (dm_wal s)). frame_ok lr" "(23 :: nat) < 2 ^ 64 - 2"
    by (simp_all add: s(4) small_frames)
  from crash_recovers_ranked_history [OF s(1) this(2) codec_ok_u64 loader_ok_no_disk this(1) overlay_header_bytes refl, of ?cut]
  obtain k where k: "k \<le> 2" "frame_start (sm_placed (dm_wal s)) k \<le> ?cut" "k < 2 \<longrightarrow> \<not> frame_start (sm_placed (dm_wal s)) (Suc k) \<le> ?cut"
      "let rs = take k (sm_placed (dm_wal s)) in
        if rs = [] \<or> 1 \<in> fst ` set rs
        then \<exists>count t. reopen u64_codec no_disk (wal_header_to_bytes overlay_header @ take ?cut (segment_file (dm_wal s))) = Some (Ok (count, t))
          \<and> trie_map t = history_map (replayed rs (dm_history s))
        else reopen u64_codec no_disk (wal_header_to_bytes overlay_header @ take ?cut (segment_file (dm_wal s)))
          = Some (Err ''archive drain has a prefix gap'')"
    unfolding upto len by blast
  have "False" if "k = 0"
    using k(3) by (simp add: that s(4))
  moreover have "False" if "k = 2"
    using k(2) frame_length [of 2 "CommitRank 1 [97] 1"] by (simp add: that s(4))
  ultimately have "k \<noteq> 0" "k \<noteq> 2"
    by blast+
  then have "take k (sm_placed (dm_wal s)) = [(1, Insert [97] None)]"
    using k(1) by (cases k) (auto simp: s(4) numeral_2_eq_2)
  moreover have "history_map (replayed [(1, Insert [97] None)] (dm_history s)) = Map.empty"
    by (simp add: s(2) replayed_def ranked_in_def history_map_def)
  ultimately show ?thesis
    using k(4) s(1,5) by (auto simp del: term_map.simps)
qed

text \<open>
  C2: No acknowledged write is lost when every record with a place in the file is
  written at the crash.  Reopening succeeds or refuses the log as pruned, and
  the latter only when no operation has yet returned after publishing.  When it
  succeeds, every operation that returned after publishing is among the replayed
  ones, except increments of the empty key, which replay ignores; and if all
  operations have returned, the reopened trie is the live one but for those.
\<close>

theorem acknowledged_writes_survive:
  assumes "durable_run C fault_in n s" "n < 2 ^ 64 - 2" "codec_ok C" "loader_ok u8_label fault_in"
    and "owes (dm_wal s) = Map.empty" "\<forall>lr\<in>set (sm_placed (dm_wal s)). frame_ok lr"
    and "length h = 64" "wal_header_from_bytes h = Ok hdr" "regime hdr = Overlay"
  shows "trie_map (dm_trie s) = history_map (dm_history s)
    \<and> (case reopen C fault_in (h @ segment_file (dm_wal s)) of
         None \<Rightarrow> False
       | Some (Inl e) \<Rightarrow> \<forall>tid m r g l. dm_threads s tid \<noteq> Some (m, Returned r (Some (g, l)))
       | Some (Inr (k, t)) \<Rightarrow> \<exists>H. trie_map t = history_map H \<and> subseq H (dm_history s)
           \<and> (\<forall>tid m r g l. dm_threads s tid = Some (m, Returned r (Some (g, l))) \<longrightarrow> empty_increment m \<or> (g, l, m) \<in> set H)
           \<and> ((\<forall>tid m ph. dm_threads s tid = Some (m, ph) \<longrightarrow> (\<exists>r c. ph = Returned r c)) \<longrightarrow>
                H = filter (\<lambda>(g, l, m). \<not> empty_increment m) (dm_history s)))"
proof -
  let ?P = "sm_placed (dm_wal s)" and ?H = "replayed (sm_placed (dm_wal s)) (dm_history s)"
  obtain S where inv: "durable_inv C n S s"
    using durable_run_inv [OF assms(1-4)] by blast
  then have log: "log_inv C s" and live: "trie_map (dm_trie s) = history_map (dm_history s)"
    unfolding durable_inv_def history_inv_def by blast+
  have "read_records (segment_file (dm_wal s)) = (?P, EndOfLog)"
    using segment_inv_reads [OF log_invD(2) [OF log] assms(5,6)] .
  then have scan: "fst (segment_scan (h @ segment_file (dm_wal s))) = ?P"
    by (simp add: scan_header(2) [OF assms(7-9)])
  note re = reopen_replayed [OF inv assms(2-4) scan scan_header(1) [OF assms(7-9)] prefix_order.order_refl]
  have H: "subseq ?H (dm_history s)"
      "\<And>tid m r g l. dm_threads s tid = Some (m, Returned r (Some (g, l))) \<Longrightarrow> empty_increment m \<or> (g, l, m) \<in> set ?H"
      "\<forall>tid m ph. dm_threads s tid = Some (m, ph) \<longrightarrow> (\<exists>r c. ph = Returned r c) \<Longrightarrow>
        ?H = filter (\<lambda>(g, l, m). \<not> empty_increment m) (dm_history s)"
    using returned_ranked [OF inv] quiescent_retained [OF inv]
    by (auto simp: replayed_retained retained_def subseq_filter_left)
  show ?thesis
  proof (cases "?P = [] \<or> 1 \<in> fst ` set ?P")
    case True
    then obtain k t where "reopen C fault_in (h @ segment_file (dm_wal s)) = Some (Ok (k, t))" "trie_map t = history_map ?H"
      using re by auto
    then show ?thesis
      using live H by (simp del: term_map.simps) blast
  next
    case False
    then show ?thesis
      using live re returned_first_lsn [OF inv] by (auto simp del: term_map.simps)
  qed
qed

theorem acknowledged_writes_survive_witness:
  "\<exists>s n t. durable_run u64_codec no_disk 23 s \<and> dm_threads s 0 = Some (MInsert [97], Returned (RBool True) (Some (1, 1)))
    \<and> reopen u64_codec no_disk (wal_header_to_bytes overlay_header @ segment_file (dm_wal s)) = Some (Ok (n, t))
    \<and> trie_map t = [[97] \<mapsto> None]"
proof -
  obtain s where s: "durable_run u64_codec no_disk 23 s" "dm_history s = [(1, 1, MInsert [97])]"
      "sm_placed (dm_wal s) = [(1, Insert [97] None), (2, CommitRank 1 [97] 1)]" "settled (dm_wal s)"
      "dm_threads s = [0 \<mapsto> (MInsert [97], Returned (RBool True) (Some (1, 1)))]" "trie_map (dm_trie s) = [[97] \<mapsto> None]"
    using solo_insert [of "[97]"] by blast
  have "owes (dm_wal s) = Map.empty" "\<forall>lr\<in>set (sm_placed (dm_wal s)). frame_ok lr" "(23 :: nat) < 2 ^ 64 - 2"
    using s(4) by (simp_all add: s(3) settled_def small_frames)
  note all = acknowledged_writes_survive [OF s(1) this(3) codec_ok_u64 loader_ok_no_disk this(1,2) overlay_header_bytes]
  have t: "dm_threads s 0 = Some (MInsert [97], Returned (RBool True) (Some (1, 1)))"
      "\<forall>tid m ph. dm_threads s tid = Some (m, ph) \<longrightarrow> (\<exists>r c. ph = Returned r c)"
    by (simp_all add: s(5) split: if_splits)
  obtain n u where u: "reopen u64_codec no_disk (wal_header_to_bytes overlay_header @ segment_file (dm_wal s)) = Some (Ok (n, u))"
      "trie_map u = history_map (filter (\<lambda>(g, l, m). \<not> empty_increment m) (dm_history s))"
    using all t by (auto split: option.splits sum.splits simp del: term_map.simps)
  moreover have "filter (\<lambda>(g, l, m). \<not> empty_increment m) (dm_history s) = dm_history s"
    by (simp add: s(2))
  ultimately have "trie_map u = [[97] \<mapsto> None]"
    using all s(6) by metis
  then show ?thesis
    using s(1) t(1) u(1) by blast
qed

subsection \<open>What the protocol does not promise\<close>

text \<open>
  C36: A stale positive cache.  A thread's insert of a key wins its
  compare-and-swap, another thread removes the key and returns, and the first
  thread then enters the key into the lookup cache and returns.  The key is
  absent from the trie, yet the lookup reports it present and a further insert
  of it is answered as already present without touching the trie.
\<close>

theorem insert_remove_race_leaves_stale_cache:
  "\<exists>n s. durable_run u64_codec no_disk n s
    \<and> dm_threads s 0 = Some (MInsert k, Returned (RBool True) (Some (1, 1)))
    \<and> dm_threads s 1 = Some (MRemove k, Returned (RBool True) (Some (2, 2)))
    \<and> dm_threads s 2 = Some (MInsert k, Returned (RBool False) None)
    \<and> trie_map (dm_trie s) k = None \<and> contains_lockfree no_disk k (dm_trie s)"
proof -
  let ?run = "run_schedule u64_codec no_disk"
  obtain slot a where a: "a = (durable_init Immediate)\<lparr> dm_trie := install_overlay\<lparr> lockfree_root := slot \<rparr>, dm_commit_seq := 1,
      dm_wal := appended 0 (Insert k None) segment_init, dm_history := [(1, 1, MInsert k)],
      dm_threads := [0 \<mapsto> (MInsert k, Won 1 1 (RBool True))] \<rparr>"
      "root_ok slot" "root_map (pr_node slot) = [k \<mapsto> None]" "durable_run u64_codec no_disk 14 a"
    using first_insert_won by metis
  have aa: "root_ok (live_root a)" "room (dm_trie a)" "settled (dm_wal a)" "dm_policy a = Immediate"
      "lockfree_cache (dm_trie a) = {}" "takes_effect (MRemove k) (trie_map (dm_trie a))"
    using a(2,3) settled_appended [OF settled_init] room_small [of "dm_trie a" k]
    by (simp_all add: a(1) del: term_map.simps)
  from write_returned [OF aa(1) loader_ok_no_disk codec_ok_u64 aa(2-6), of 1]
  obtain slot' b where b: "?run (replicate 22 1) (spawn_thread 1 (MRemove k) a) = b" "lockfree_root (dm_trie b) = slot'"
        "settled (dm_wal b)" "dm_threads b 0 = Some (MInsert k, Won 1 1 (RBool True))" "dm_threads b 2 = None" "dm_policy b = Immediate"
        "dm_threads b 1 = Some (MRemove k, Returned (RBool True) (Some (2, 2)))"
      and slot': "root_map (pr_node slot') = Map.empty"
    using settled_appended [OF settled_appended [OF aa(3)]]
    by (auto simp: a(1,3) apply_mutation_def mark_lsn_def set_cache_def simp del: term_map.simps)
  let ?c = "?run [2] (spawn_thread 2 (MInsert k) (?run (replicate 9 0) b))"
  have "dm_threads a 1 = None"
    by (simp add: a(1))
  then have "durable_run u64_codec no_disk (15 + 22) b"
    using durable_run_write [of 15 a 1 "replicate 22 1" "MRemove k"] a(4) b(1) by simp
  then have "durable_run u64_codec no_disk (37 + 9) (?run (replicate 9 0) b)"
    using durable_run_schedule [of u64_codec no_disk 37 b "replicate 9 0"] by simp
  moreover have fin: "?run (replicate 9 0) b = mark_lsn (next_lsn (dm_wal b)) (mark_lsn 1 (set_cache (touch_published (MInsert k))
      (b\<lparr> dm_wal := appended 1 (CommitRank 1 k 1) (dm_wal b),
         dm_threads := (dm_threads b)(0 \<mapsto> (MInsert k, Returned (RBool True) (Some (1, 1)))) \<rparr>)))"
    using rank_alone [OF b(3,4), of u64_codec no_disk] by simp
  ultimately have "durable_run u64_codec no_disk (47 + 1) ?c"
    using durable_run_write [of 47 "?run (replicate 9 0) b" 2 "[2]" "MInsert k"] b(5) by (simp add: mark_lsn_def set_cache_def)
  then show ?thesis
    using b(2,5-7) slot' unfolding fin
    by (intro exI [of _ 48] exI [of _ ?c]) (simp add: fin mark_lsn_def set_cache_def spawn_thread_def run_thread_def start_phase_def contains_lockfree_def
        del: term_map.simps)
qed

lemma second_insert_refused:
  "\<exists>s. durable_run u64_codec no_disk 18 s \<and> dm_wal s = appended 0 (Insert k None) segment_init
    \<and> dm_history s = [(1, 1, MInsert k)] \<and> trie_map (dm_trie s) = [k \<mapsto> None]
    \<and> dm_threads s 1 = Some (MInsert k, Returned (RBool False) None)"
proof -
  obtain slot a where a: "a = (durable_init Immediate)\<lparr> dm_trie := install_overlay\<lparr> lockfree_root := slot \<rparr>, dm_commit_seq := 1,
      dm_wal := appended 0 (Insert k None) segment_init, dm_history := [(1, 1, MInsert k)],
      dm_threads := [0 \<mapsto> (MInsert k, Won 1 1 (RBool True))] \<rparr>"
      "root_map (pr_node slot) = [k \<mapsto> None]" "durable_run u64_codec no_disk 14 a"
    using first_insert_won by metis
  let ?s = "run_schedule u64_codec no_disk [1, 1, 1] (spawn_thread 1 (MInsert k) a)"
  have leaf: "find_leaf_iterative u8_label (pr_node slot) k 0 \<noteq> None"
    using find_leaf_root_map [of "pr_node slot" k] a(2) by (auto simp del: term_map.simps)
  then have s: "?s = set_cache (insert k) (a\<lparr> dm_threads := (dm_threads a)(1 \<mapsto> (MInsert k, Returned (RBool False) None)) \<rparr>)"
    by (simp add: a(1) spawn_thread_def run_thread_def start_phase_def find_leaf_lockfree_def set_cache_def)
  have "dm_threads a 1 = None"
    by (simp add: a(1))
  then have "durable_run u64_codec no_disk 18 ?s"
    using durable_run_write [of 15 a 1 "[1, 1, 1]" "MInsert k"] a(3) by simp
  then show ?thesis
    unfolding s by (intro exI conjI, assumption) (simp_all add: a set_cache_def del: term_map.simps)
qed

text \<open>
  C37: A refusal that a crash takes back.  One thread has published an insert and
  not yet ranked it; a second insert of the same key returns that the key is
  already present.  If the process stops now, every byte of the log is on disk
  and the reopened trie does not hold the key.
\<close>

theorem already_present_answer_is_not_durable:
  "\<exists>n s k t. durable_run u64_codec no_disk n s \<and> owes (dm_wal s) = Map.empty
    \<and> dm_threads s 1 = Some (MInsert [97], Returned (RBool False) None)
    \<and> trie_map (dm_trie s) [97] = Some None
    \<and> reopen u64_codec no_disk (wal_header_to_bytes overlay_header @ segment_file (dm_wal s)) = Some (Ok (k, t))
    \<and> trie_map t [97] = None"
proof -
  let ?rs = "[(1, Insert [97] None)]" and ?h = "wal_header_to_bytes overlay_header"
  obtain s where s: "durable_run u64_codec no_disk 18 s" "dm_wal s = appended 0 (Insert [97] None) segment_init"
      "dm_history s = [(1, 1, MInsert [97])]" "trie_map (dm_trie s) = [[97] \<mapsto> None]"
      "dm_threads s 1 = Some (MInsert [97], Returned (RBool False) None)"
    using second_insert_refused by blast
  obtain S where inv: "durable_inv u64_codec 18 S s"
    using durable_run_inv [OF s(1) _ codec_ok_u64 loader_ok_no_disk] by auto
  have placed: "sm_placed (dm_wal s) = ?rs" and owes: "owes (dm_wal s) = Map.empty"
    using settled_appended [OF settled_init] unfolding s(2) by (simp_all add: segment_init_def settled_def)
  have "segment_machine_inv (dm_wal s)"
    using inv unfolding durable_inv_def log_inv_def by blast
  then have "read_records (segment_file (dm_wal s)) = (?rs, EndOfLog)"
    using segment_inv_reads [OF _ owes] by (simp add: placed small_frames)
  then have "fst (segment_scan (?h @ segment_file (dm_wal s))) = ?rs"
    by (simp add: scan_header(2) [OF overlay_header_bytes])
  from reopen_replayed [OF inv _ codec_ok_u64 loader_ok_no_disk this scan_header(1) [OF overlay_header_bytes]]
  obtain k t where "reopen u64_codec no_disk (?h @ segment_file (dm_wal s)) = Some (Ok (k, t))"
      "trie_map t = history_map (replayed ?rs (dm_history s))"
    unfolding placed s(3) by auto
  moreover have "history_map (replayed ?rs (dm_history s)) = Map.empty"
    unfolding s(3) by (simp add: replayed_def ranked_in_def history_map_def)
  ultimately show ?thesis
    using s(1,4,5) owes by (intro exI [of _ 18] exI [of _ s] exI [of _ k] exI [of _ t]) (simp del: term_map.simps)
qed

lemma solo_increment:
  "\<exists>s. durable_run u64_codec no_disk 23 s \<and> dm_history s = [(1, 1, MIncrement [] 5)]
    \<and> sm_placed (dm_wal s) = [(1, BatchIncrement [([], 5)]), (2, CommitRank 1 [] 1)] \<and> settled (dm_wal s)
    \<and> dm_threads s = [0 \<mapsto> (MIncrement [] 5, Returned (RCount 5) (Some (1, 1)))] \<and> trie_map (dm_trie s) = [[] \<mapsto> Some 5]"
proof -
  let ?m = "MIncrement [] 5" and ?d = "BatchIncrement [([], 5)]" and ?run = "run_schedule u64_codec no_disk"
  let ?root = "lockfree_root install_overlay :: u64 published_root"
  let ?a = "(durable_init Immediate)\<lparr> dm_threads := [0 \<mapsto> (?m, ToAppend (RCount 0))] \<rparr>"
  have d: "data_record u64_codec ?m = Ok ?d"
    by (simp add: bound_increment_delta_def build_increment_record_def)
  have a: "?run [0] (spawn_thread 0 ?m (durable_init Immediate)) = ?a"
    by (simp add: run_thread_def spawn_thread_def start_phase_def bound_increment_delta_def)
  let ?b = "?a\<lparr> dm_wal := appended 0 ?d segment_init, dm_threads := [0 \<mapsto> (?m, Pending 1 (RCount 0))] \<rparr>"
  have b: "?run (replicate 7 0) ?a = ?b"
    using data_alone [of ?a 0 ?m "RCount 0" u64_codec ?d no_disk] d settled_init by simp
  have root: "root_ok ?root" "root_map (pr_node ?root) = Map.empty"
    using start_facts by (simp_all del: term_map.simps)
  obtain new delta where new: "value_attempt no_disk (pr_node ?root) [] 5 = Publish new delta" "prepared ?root [] new delta (Some (Some 5))"
    using value_attempt_spec [OF root(1) loader_ok_no_disk] by blast
  obtain slot where slot: "compare_exchange_revision_counted ?root ?root new delta = Some (True, slot)"
      "root_map (pr_node slot) = [[] \<mapsto> Some 5]"
    using compare_exchange_cases [OF root(1) new(2), of ?root] root(2) by (auto simp del: term_map.simps)
  let ?c = "?b\<lparr> dm_trie := install_overlay\<lparr> lockfree_root := slot \<rparr>, dm_commit_seq := 1, dm_history := [(1, 1, ?m)],
      dm_threads := [0 \<mapsto> (?m, Won 1 1 (RCount 5))] \<rparr>"
  have count: "current_count no_disk install_overlay (pr_node ?root) [] = 0"
    using current_count_spec [of install_overlay no_disk "pr_node ?root" "[]"] root by (simp add: count_of_def del: term_map.simps)
  have c: "?run [0, 0, 0, 0, 0] ?b = ?c"
    using new(1) slot(1) count by (simp add: run_thread_def add_count_spec [OF codec_ok_u64])
  have e: "[0] @ replicate 7 0 @ [0, 0, 0, 0, 0] @ replicate 9 0 = replicate 22 (0 :: nat)"
    by (simp add: numeral_eq_Suc)
  have "settled (dm_wal ?c)" "dm_threads ?c 0 = Some (?m, Won 1 1 (RCount 5))"
    using settled_appended [OF settled_init] by simp_all
  from rank_alone [OF this, of u64_codec no_disk] this(1)
  have "?run (replicate 22 0) (spawn_thread 0 ?m (durable_init Immediate)) = mark_lsn 2 (mark_lsn 1 (set_cache (touch_published ?m)
      (?c\<lparr> dm_wal := appended 1 (CommitRank 1 [] 1) (appended 0 ?d segment_init),
        dm_threads := [0 \<mapsto> (?m, Returned (RCount 5) (Some (1, 1)))] \<rparr>)))" (is "_ = ?e")
    unfolding e [symmetric] run_schedule_append a b c by simp
  moreover have "durable_run u64_codec no_disk (1 + 22) (?run (replicate 22 0) (spawn_thread 0 ?m (durable_init Immediate)))"
    using durable_run_write [of 1 "durable_init Immediate" 0 "replicate 22 0" ?m] durable_run.init by simp
  ultimately have "durable_run u64_codec no_disk 23 ?e"
    by simp
  then show ?thesis
    using slot(2) settled_appended [OF settled_appended [OF settled_init]]
    by (intro exI [of _ ?e]) (simp add: mark_lsn_def set_cache_def segment_init_def del: term_map.simps)
qed

text \<open>
  C40: An acknowledged increment that a crash loses.  The increment of the empty
  key is logged, published, ranked and returns the new count, with every byte of
  the log on disk.  The reopened trie does not hold the key: replay ignores the
  deltas of the empty key.
\<close>

theorem acknowledged_empty_increment_is_lost:
  "\<exists>s k t. durable_run u64_codec no_disk 23 s \<and> owes (dm_wal s) = Map.empty
    \<and> dm_threads s = [0 \<mapsto> (MIncrement [] 5, Returned (RCount 5) (Some (1, 1)))]
    \<and> trie_map (dm_trie s) = [[] \<mapsto> Some 5]
    \<and> reopen u64_codec no_disk (wal_header_to_bytes overlay_header @ segment_file (dm_wal s)) = Some (Ok (k, t))
    \<and> trie_map t = Map.empty"
proof -
  let ?P = "[(1, BatchIncrement [([], 5)]), (2, CommitRank 1 [] 1)]" and ?h = "wal_header_to_bytes overlay_header"
  obtain s where s: "durable_run u64_codec no_disk 23 s" "dm_history s = [(1, 1, MIncrement [] 5)]" "sm_placed (dm_wal s) = ?P"
      "settled (dm_wal s)" "dm_threads s = [0 \<mapsto> (MIncrement [] 5, Returned (RCount 5) (Some (1, 1)))]"
      "trie_map (dm_trie s) = [[] \<mapsto> Some 5]"
    using solo_increment by blast
  obtain S where inv: "durable_inv u64_codec 23 S s"
    using durable_run_inv [OF s(1) _ codec_ok_u64 loader_ok_no_disk] by auto
  then have "segment_machine_inv (dm_wal s)" and owes: "owes (dm_wal s) = Map.empty"
    using s(4) unfolding durable_inv_def log_inv_def settled_def by blast+
  then have "read_records (segment_file (dm_wal s)) = (?P, EndOfLog)"
    using segment_inv_reads [of "dm_wal s"]
    by (simp add: s(3) frame_ok_def serialized_size_def short_def RECORD_HEADER_SIZE_def)
  then have "fst (segment_scan (?h @ segment_file (dm_wal s))) = ?P"
    by (simp add: scan_header(2) [OF overlay_header_bytes])
  from reopen_replayed [OF inv _ codec_ok_u64 loader_ok_no_disk this scan_header(1) [OF overlay_header_bytes]]
  obtain k t where "reopen u64_codec no_disk (?h @ segment_file (dm_wal s)) = Some (Ok (k, t))"
      "trie_map t = history_map (replayed ?P (dm_history s))"
    unfolding s(3) by auto
  then show ?thesis
    using s(1,5,6) owes
    by (intro exI [of _ s] exI [of _ k] exI [of _ t]) (simp add: s(2) replayed_def history_map_def del: term_map.simps)
qed

text \<open>
  C38: A crash that locks the database.  Two inserts are both still appending, so
  nothing has been acknowledged: one has reserved the first LSN, the other has
  written its record with the second.  Every byte given a place in the file is on disk, and reopening
  fails: the guard against a pruned log prefix takes the unwritten first record
  for one.
\<close>

theorem crash_before_first_record_blocks_reopen:
  "\<exists>n s. durable_run u64_codec no_disk n s \<and> owes (dm_wal s) = Map.empty
    \<and> dm_threads s = [0 \<mapsto> (MInsert [97], Appending (RBool True)), 1 \<mapsto> (MInsert [98], Appending (RBool True))]
    \<and> reopen u64_codec no_disk (wal_header_to_bytes overlay_header @ segment_file (dm_wal s))
        = Some (Err ''archive drain has a prefix gap'')"
proof -
  let ?run = "run_schedule u64_codec no_disk" and ?h = "wal_header_to_bytes overlay_header"
  let ?a = "?run [0, 0, 0, 0] (spawn_thread 0 (MInsert [97]) (durable_init Immediate))"
  let ?b = "?run [1, 1, 1, 1, 1, 1] (spawn_thread 1 (MInsert [98]) ?a)"
  have leaf: "find_leaf_iterative u8_label (pr_node (lockfree_root install_overlay)) k 0 = None" for k
    using find_leaf_root_map [of "pr_node (lockfree_root install_overlay)" k] trie_ok_install(2) by (simp del: term_map.simps)
  note defs = spawn_thread_def run_thread_def start_phase_def find_leaf_lockfree_def leaf start_append_def append_step_def
    run_appender_def spawn_appender_def allocate_lsn_def segment_init_def Let_def
  have "dm_threads ?a = [0 \<mapsto> (MInsert [97], Appending (RBool True))]" "dm_threads ?a 1 = None"
    by (simp_all add: defs)
  then have a: "durable_run u64_codec no_disk 5 ?a"
    using durable_run_write [of 1 "durable_init Immediate" 0 "[0, 0, 0, 0]" "MInsert [97]"] durable_run.init by (simp add: eval_nat_numeral)
  then have b: "durable_run u64_codec no_disk (6 + 6) ?b"
    using durable_run_write [of 6 ?a 1 "[1, 1, 1, 1, 1, 1]" "MInsert [98]"] \<open>dm_threads ?a 1 = None\<close> by simp
  have st: "dm_threads ?b = [0 \<mapsto> (MInsert [97], Appending (RBool True)), 1 \<mapsto> (MInsert [98], Appending (RBool True))]"
      "sm_placed (dm_wal ?b) = [(2, Insert [98] None)]" "owes (dm_wal ?b) = Map.empty"
    by (simp_all add: defs owes_def fun_eq_iff)
  obtain S where "durable_inv u64_codec 12 S ?b"
    using durable_run_inv [OF b _ codec_ok_u64 loader_ok_no_disk] by auto
  then have "segment_machine_inv (dm_wal ?b)"
    unfolding durable_inv_def log_inv_def by blast
  from segment_inv_reads [OF this st(3)] have "read_records (segment_file (dm_wal ?b)) = ([(2, Insert [98] None)], EndOfLog)"
    unfolding st(2) by (simp add: small_frames)
  then have "drain_collect [Some (?h @ segment_file (dm_wal ?b))] ([], Map.empty, []) = ([(2, Insert [98] None)], [2 \<mapsto> Overlay], [2])"
    by (simp add: drain_segment_def scan_header [OF overlay_header_bytes] Let_def)
  then have "reopen u64_codec no_disk (?h @ segment_file (dm_wal ?b)) = Some (Err ''archive drain has a prefix gap'')"
    by (simp add: reopen_def drain_segments_into_overlay_def)
  then show ?thesis
    using b st(1,3) by (intro exI [of _ 12] exI [of _ ?b]) (simp del: run_schedule_simps)
qed

subsection \<open>Well-formedness of every reachable state\<close>

text \<open>
  C5: Every state the durable operations reach is well formed, whatever the
  interleaving and whichever log writes fail.  The live root is a well-formed
  tree in memory whose stored term count is the number of keys, it denotes
  exactly what the winning compare-and-swaps lead to, the generations they
  published increase strictly, and no operation has panicked.
\<close>

theorem durable_states_well_formed:
  assumes "durable_run C fault_in n s" "n < 2 ^ 64 - 2" "codec_ok C" "loader_ok u8_label fault_in"
  shows "root_ok (live_root s) \<and> trie_map (dm_trie s) = history_map (dm_history s)
    \<and> sorted_wrt (<) (map fst (dm_history s)) \<and> (\<forall>tid m. dm_threads s tid \<noteq> Some (m, phase.Panicked))"
proof -
  obtain S where inv: "durable_inv C n S s"
    using durable_run_inv [OF assms] by blast
  then have "history_inv n s"
    unfolding durable_inv_def by blast
  moreover have "dm_threads s tid \<noteq> Some (m, phase.Panicked)" for tid m
    using inv unfolding durable_inv_def by (metis phase_inv.simps(16))
  ultimately show ?thesis
    unfolding history_inv_def by blast
qed

theorem durable_states_well_formed_witness:
  "\<exists>s. durable_run u64_codec (\<lambda>_. Err (IoError ''unreachable'')) 18 s \<and> root_ok (live_root s)
    \<and> trie_map (dm_trie s) = history_map [(1, 1, MInsert [97])]"
proof -
  obtain s where s: "durable_run u64_codec no_disk 18 s" "dm_history s = [(1, 1, MInsert [97])]"
    using second_insert_refused [of "[97]"] by blast
  have "(18 :: nat) < 2 ^ 64 - 2"
    by simp
  from durable_states_well_formed [OF s(1) this codec_ok_u64 loader_ok_no_disk] show ?thesis
    using s by auto
qed

end
