(* ===== verification/Durable_Progress.thy ===== *)
theory Durable_Progress
  imports Durable_Runs
begin

text \<open>
  Progress of the durable write protocol.  In a run without write errors a
  thread can only wait for the durable frontier of the log, and some thread is
  never waiting: the lemmas give every state a potential that each step other
  than a poll decreases, although a lost compare-and-swap sends a thread back.
  Under any schedule that keeps giving every thread a turn all operations
  return; once they have, the committed watermark is at the end of the log.
\<close>

subsection \<open>Runs without write errors\<close>

inductive calm_run :: "u64 value_codec \<Rightarrow> (u8, u64) fault_in \<Rightarrow> nat \<Rightarrow> durable_machine \<Rightarrow> bool"
  for C fault_in where
  init: "calm_run C fault_in 0 (durable_init policy)"
| spawn: "calm_run C fault_in n s \<Longrightarrow> dm_threads s tid = None \<Longrightarrow> calm_run C fault_in (Suc n) (spawn_thread tid m s)"
| run: "calm_run C fault_in n s \<Longrightarrow> calm_run C fault_in (Suc n) (run_thread C fault_in tid s)"
| set_policy: "calm_run C fault_in n s \<Longrightarrow> calm_run C fault_in (Suc n) (set_durability_policy policy s)"
| sync_error: "calm_run C fault_in n s \<Longrightarrow> dm_threads s tid = Some (m, ph) \<Longrightarrow> awaited_append tid ph = Some i \<Longrightarrow>
    sm_appenders (dm_wal s) i = Some (Acked lsn r) \<Longrightarrow> dm_policy s \<in> {Immediate, GroupCommit} \<Longrightarrow>
    calm_run C fault_in (Suc n) (fail_sync tid m s)"

lemma calm_run_durable: "calm_run C fault_in n s \<Longrightarrow> durable_run C fault_in n s"
  by (induction rule: calm_run.induct) (blast intro: durable_run.intros durable_step.intros)+

fun unfinished_append :: "appender \<Rightarrow> bool" where
  "unfinished_append (Acked _ _) = False"
| "unfinished_append _ = True"

fun failed_append :: "appender \<Rightarrow> bool" where
  "failed_append (WriteFailed _ _ _) = True"
| "failed_append (WaitFailed _ _ _) = True"
| "failed_append _ = False"

fun in_append :: "bool \<Rightarrow> phase \<Rightarrow> bool" where
  "in_append data (Appending _) = data"
| "in_append data (Ranking _ _ _) = (\<not> data)"
| "in_append data _ = False"

definition calm :: "durable_machine \<Rightarrow> bool" where
  "calm s \<longleftrightarrow> finite (dom (dm_threads s)) \<and> ww_segment_failed_lsn (sw_writer (sm_writer (dm_wal s))) = - 1
     \<and> (\<forall>i a. appender_at s i = Some a \<longrightarrow> \<not> failed_append a)
     \<and> (\<forall>tid a. appender_at s (2 * tid) = Some a \<longrightarrow> unfinished_append a \<longrightarrow>
          (\<exists>m ph. dm_threads s tid = Some (m, ph) \<and> in_append True ph))
     \<and> (\<forall>tid a. appender_at s (2 * tid + 1) = Some a \<longrightarrow> unfinished_append a \<longrightarrow>
          (\<exists>m ph. dm_threads s tid = Some (m, ph) \<and> in_append False ph))"

text \<open>What a step leaves alone.\<close>

lemma step_frame:
  assumes "thread_step C fault_in tid m ph s = (s', ph')"
  shows "dm_threads s' = dm_threads s"
    and "i \<noteq> 2 * tid \<Longrightarrow> i \<noteq> Suc (2 * tid) \<Longrightarrow> appender_at s' i = appender_at s i"
    and "live_root s' = live_root s \<or> (\<exists>l old g new delta r. ph = Ready l old g new delta r \<and> ph' = Won l g r)"
    and "\<not> in_append True ph \<Longrightarrow> \<not> in_append False ph \<Longrightarrow> \<not> (\<exists>r. ph = ToAppend r) \<Longrightarrow> \<not> (\<exists>l g r. ph = Won l g r) \<Longrightarrow> dm_wal s' = dm_wal s"
  using assms
  by (cases ph; auto simp: set_cache_def mark_lsn_def start_append_def spawn_appender_def append_step_def run_appender_other
      split: sum.splits option.splits appender.splits if_splits prod.splits)+

subsection \<open>One step of an append\<close>

text \<open>The steps an append still has to make once nothing holds it up.\<close>

fun append_steps :: "appender \<Rightarrow> nat" where
  "append_steps (Idle _) = 5"
| "append_steps (Reserved _ _) = 4"
| "append_steps (Placed _ _ _) = 3"
| "append_steps (Written _ _) = 2"
| "append_steps (Waiting _ _) = 1"
| "append_steps _ = 0"

abbreviation failed_lsn :: "segment_machine \<Rightarrow> lsn" where
  "failed_lsn w \<equiv> ww_segment_failed_lsn (sw_writer (sm_writer w))"

lemma append_progress:
  assumes calm: "failed_lsn (dm_wal s) = - 1" "\<not> failed_append a" and inv: "durable_inv C n S s" "n < 2 ^ 64 - 2"
    and a: "appender_at s i = Some a"
  obtains (acked) l d where "a = Acked l d" "append_step i fin ph s = (s, fin l)"
  | (moved) a' where "append_step i fin ph s = (s\<lparr> dm_wal := run_appender i (dm_wal s) \<rparr>, ph)"
      "sm_appenders (run_appender i (dm_wal s)) = (sm_appenders (dm_wal s))(i \<mapsto> a')" "\<not> failed_append a'"
      "failed_lsn (run_appender i (dm_wal s)) = - 1" "append_steps a' < append_steps a" "unfinished_append a"
  | (poll) l d where "a = Waiting l d" "durable_lsn (dm_wal s) < l" "append_step i fin ph s = (s, ph)"
proof (cases a)
  case (Acked l d)
  have "lsn_inv (dm_wal s)"
    using inv(1) unfolding durable_inv_def log_inv_def by blast
  then have "l \<le> durable_lsn (dm_wal s)"
    using a Acked unfolding lsn_inv_def by blast
  then show ?thesis
    using acked Acked a by (simp add: append_step_def sync_covers)
next
  case (Waiting l d)
  have "lsn_inv (dm_wal s)" "counters_inv n S s"
    using inv(1) unfolding durable_inv_def log_inv_def by blast+
  then have "l < next_lsn (dm_wal s)"
    using held_lsn [of "dm_wal s" i l] a Waiting by (simp add: of_appender_def)
  then have "\<not> - 1 \<le> l"
    unfolding not_le by (rule less_le_trans [OF _ word_n1_ge])
  show ?thesis
  proof (cases "l \<le> durable_lsn (dm_wal s)")
    case True
    then show ?thesis
      using moved [of "Acked l d"] a Waiting calm(1)
      by (simp add: append_step_def run_appender_def wait_for_segment_durable_lsn_poll_def)
  next
    case False
    have "(sm_appenders (dm_wal s))(i \<mapsto> Waiting l d) = sm_appenders (dm_wal s)"
      using a Waiting by (simp add: fun_upd_idem)
    then have "run_appender i (dm_wal s) = dm_wal s"
      using False \<open>\<not> - 1 \<le> l\<close> a Waiting calm(1) by (simp add: run_appender_def wait_for_segment_durable_lsn_poll_def)
    then show ?thesis
      using poll [OF Waiting] False a Waiting by (simp add: append_step_def)
  qed
qed (use moved a calm in \<open>simp_all add: append_step_def run_appender_def allocate_lsn_def mark_segment_durable_def Let_def case_prod_unfold\<close>)

lemma calmD:
  assumes "calm s"
  shows "finite (dom (dm_threads s))" "failed_lsn (dm_wal s) = - 1" "appender_at s i = Some a \<Longrightarrow> \<not> failed_append a"
    "appender_at s (2 * tid) = Some a \<Longrightarrow> unfinished_append a \<Longrightarrow> \<exists>m ph. dm_threads s tid = Some (m, ph) \<and> in_append True ph"
    "appender_at s (Suc (2 * tid)) = Some a \<Longrightarrow> unfinished_append a \<Longrightarrow> \<exists>m ph. dm_threads s tid = Some (m, ph) \<and> in_append False ph"
  using assms unfolding calm_def Suc_eq_plus1 by blast+

lemma calm_update:
  assumes calm: "calm s" and st: "thread_step C fault_in tid m ph s = (u, ph')" and fail: "failed_lsn (dm_wal u) = - 1"
    and own: "\<And>a. appender_at u (2 * tid) = Some a \<Longrightarrow> \<not> failed_append a \<and> (unfinished_append a \<longrightarrow> in_append True ph')"
      "\<And>a. appender_at u (Suc (2 * tid)) = Some a \<Longrightarrow> \<not> failed_append a \<and> (unfinished_append a \<longrightarrow> in_append False ph')"
  shows "calm (u\<lparr> dm_threads := (dm_threads s)(tid \<mapsto> (m, ph')) \<rparr>)"
proof -
  have other: "appender_at u i = appender_at s i" if "i \<noteq> 2 * tid" "i \<noteq> Suc (2 * tid)" for i
    using step_frame(2) [OF st that] .
  have ne: "2 * x \<noteq> Suc (2 * y)" for x y :: nat
    by presburger
  have "\<not> failed_append a" if "appender_at u i = Some a" for i a
    using that own calmD(3) [OF calm, of i a] other [of i] by (cases "i = 2 * tid"; cases "i = Suc (2 * tid)") auto
  moreover have "\<exists>m' ph''. ((dm_threads s)(tid \<mapsto> (m, ph'))) tid' = Some (m', ph'') \<and> in_append True ph''"
    if "appender_at u (2 * tid') = Some a" "unfinished_append a" for tid' a
    using that own(1) calmD(4) [OF calm, of tid' a] other [of "2 * tid'"] ne [of tid' tid] by (cases "tid' = tid") auto
  moreover have "\<exists>m' ph''. ((dm_threads s)(tid \<mapsto> (m, ph'))) tid' = Some (m', ph'') \<and> in_append False ph''"
    if "appender_at u (Suc (2 * tid')) = Some a" "unfinished_append a" for tid' a
    using that own(2) calmD(5) [OF calm, of tid' a] other [of "Suc (2 * tid')"] ne [of tid tid'] by (cases "tid' = tid") auto
  ultimately show ?thesis
    using calmD(1) [OF calm] fail unfolding calm_def by simp
qed

lemma calm_run_thread:
  assumes calm: "calm s" and inv: "durable_inv C n S s" "n < 2 ^ 64 - 2"
  shows "calm (run_thread C fault_in tid s)"
proof (cases "dm_threads s tid")
  case None
  then show ?thesis
    using calm by (simp add: run_thread_def)
next
  case (Some mp)
  then obtain m ph where t: "dm_threads s tid = Some (m, ph)"
    by (cases mp) auto
  obtain u ph' where st: "thread_step C fault_in tid m ph s = (u, ph')"
    by fastforce
  have ph: "phase_inv n S s tid m ph"
    using inv(1) t unfolding durable_inv_def by blast
  let ?own = "failed_lsn (dm_wal u) = - 1
    \<and> (\<forall>a. appender_at u (2 * tid) = Some a \<longrightarrow> \<not> failed_append a \<and> (unfinished_append a \<longrightarrow> in_append True ph'))
    \<and> (\<forall>a. appender_at u (Suc (2 * tid)) = Some a \<longrightarrow> \<not> failed_append a \<and> (unfinished_append a \<longrightarrow> in_append False ph'))"
  note update = calm_update [OF calm st]
  have "calm (u\<lparr> dm_threads := (dm_threads s)(tid \<mapsto> (m, ph')) \<rparr>)"
  proof (cases ph)
    case (Appending r)
    then obtain a where a: "appender_at s (2 * tid) = Some a" "appender_at s (Suc (2 * tid)) = None"
      using ph by auto
    from calmD(2) [OF calm] calmD(3) [OF calm a(1)] inv a(1) have ?own
      by (cases rule: append_progress [where fin = "\<lambda>l. Pending l r" and ph = "Appending r"])
        (use st a Appending calmD(2,3) [OF calm] in auto)
    then show ?thesis
      by (intro update) blast+
  next
    case (Ranking l g r)
    then obtain a d where a: "appender_at s (Suc (2 * tid)) = Some a" "appender_at s (2 * tid) = Some (Acked l d)"
      using ph by (auto simp: data_at_def)
    from calmD(2) [OF calm] calmD(3) [OF calm a(1)] inv a(1) have ?own
      by (cases rule: append_progress [where fin = "\<lambda>rl. Ranked l rl g r" and ph = "Ranking l g r"])
        (use st a Ranking calmD(2,3) [OF calm] in auto)
    then show ?thesis
      by (intro update) blast+
  next
    case (ToAppend r)
    show ?thesis
      by (rule update) (use st ph ToAppend calmD(2) [OF calm] in
          \<open>auto simp: start_append_def spawn_appender_def split: sum.splits\<close>)
  next
    case (Won l g r)
    show ?thesis
      by (rule update) (use st ph Won calmD(2) [OF calm] in
          \<open>auto simp: start_append_def spawn_appender_def data_at_def set_cache_def\<close>)
  qed (rule update; use step_frame(4) [OF st] calmD(2-5) [OF calm] t in fastforce)+
  then show ?thesis
    using run_thread_eq [OF t st] by simp
qed

subsection \<open>The potential\<close>

fun finished :: "phase \<Rightarrow> bool" where
  "finished (Returned _ _) = True"
| "finished (Errored _) = True"
| "finished Panicked = True"
| "finished _ = False"

fun before_publish :: "phase \<Rightarrow> bool" where
  "before_publish Start = True"
| "before_publish Probe = True"
| "before_publish Recheck = True"
| "before_publish (ToAppend _) = True"
| "before_publish (Appending _) = True"
| "before_publish (Pending _ _) = True"
| "before_publish (Loaded _ _ _) = True"
| "before_publish (Claimed _ _ _ _) = True"
| "before_publish (Counted _ _ _ _) = True"
| "before_publish (Ready _ _ _ _ _ _) = True"
| "before_publish _ = False"

text \<open>The five steps a thread repeats when its loaded root is no longer live.\<close>

definition detour :: "durable_machine \<Rightarrow> u64 published_root \<Rightarrow> nat" where
  "detour s old = (if pr_id old = pr_id (live_root s) then 0 else 5)"

definition steps_at :: "durable_machine \<Rightarrow> nat \<Rightarrow> nat" where
  "steps_at s i = (case appender_at s i of None \<Rightarrow> 0 | Some a \<Rightarrow> append_steps a)"

fun weight :: "durable_machine \<Rightarrow> nat \<Rightarrow> phase \<Rightarrow> nat" where
  "weight s tid Start = 26"
| "weight s tid Probe = 25"
| "weight s tid Recheck = 24"
| "weight s tid (ToAppend _) = 23"
| "weight s tid (Appending _) = 16 + steps_at s (2 * tid)"
| "weight s tid (Pending _ _) = 15"
| "weight s tid (Loaded _ old _) = 14 + detour s old"
| "weight s tid (Claimed _ old _ _) = 13 + detour s old"
| "weight s tid (Counted _ old _ _) = 12 + detour s old"
| "weight s tid (Ready _ old _ _ _ _) = 11 + detour s old"
| "weight s tid (Won _ _ _) = 10"
| "weight s tid (Ranking _ _ _) = 4 + steps_at s (Suc (2 * tid))"
| "weight s tid (Ranked _ _ _ _) = 3"
| "weight s tid (HalfMarked _ _ _ _) = 2"
| "weight s tid (Refused _) = 2"
| "weight s tid (Burning _) = 1"
| "weight s tid (Answered _) = 1"
| "weight s tid _ = 0"

definition load :: "nat \<Rightarrow> durable_machine \<Rightarrow> nat \<Rightarrow> phase \<Rightarrow> nat" where
  "load T s tid ph = (if before_publish ph then 5 * T + 1 else 0) + weight s tid ph"

definition thread_load :: "durable_machine \<Rightarrow> nat \<Rightarrow> nat" where
  "thread_load s tid = (case dm_threads s tid of None \<Rightarrow> 0 | Some (m, ph) \<Rightarrow> load (card (dom (dm_threads s))) s tid ph)"

definition potential :: "durable_machine \<Rightarrow> nat" where
  "potential s = (\<Sum>tid\<in>dom (dm_threads s). thread_load s tid)"

lemma weight_frame:
  assumes "\<And>i. i = 2 * tid \<or> i = Suc (2 * tid) \<Longrightarrow> appender_at s' i = appender_at s i"
  shows "live_root s' = live_root s \<Longrightarrow> load T s' tid ph = load T s tid ph"
    and "load T s' tid ph \<le> load T s tid ph + 5"
  using assms by (cases ph; simp add: load_def steps_at_def detour_def)+

lemma load_simps:
  "load T s tid Start = 5 * T + 27" "load T s tid Probe = 5 * T + 26" "load T s tid Recheck = 5 * T + 25"
  "load T s tid (ToAppend r) = 5 * T + 24" "load T s tid (Appending r) = 5 * T + 17 + steps_at s (2 * tid)"
  "load T s tid (Pending l r) = 5 * T + 16" "load T s tid (Loaded l old r) = 5 * T + 15 + detour s old"
  "load T s tid (Claimed l old g r) = 5 * T + 14 + detour s old" "load T s tid (Counted l old g cur) = 5 * T + 13 + detour s old"
  "load T s tid (Ready l old g new delta r) = 5 * T + 12 + detour s old" "load T s tid (Won l g r) = 10"
  "load T s tid (Ranking l g r) = 4 + steps_at s (Suc (2 * tid))" "load T s tid (Ranked l rl g r) = 3"
  "load T s tid (HalfMarked l rl g r) = 2" "load T s tid (Refused l) = 2" "load T s tid (Burning l) = 1"
  "load T s tid (Answered r) = 1" "load T s tid (Returned r c) = 0" "load T s tid (Errored e) = 0" "load T s tid Panicked = 0"
  by (simp_all add: load_def)

lemma entry_load:
  "load T s tid (start_phase policy cache m) < load T s tid Start"
  "load T s tid (probe_phase C t m) < load T s tid Probe"
  "load T s tid (recheck_phase fault_in t m) < load T s tid Recheck"
  "load T s tid (after_attempt l old g r att) \<le> 5 * T + 12 + detour s old"
proof -
  show "load T s tid (start_phase policy cache m) < load T s tid Start"
    by (simp add: start_phase_def load_simps split: sum.split mutation.split)
  show "load T s tid (probe_phase C t m) < load T s tid Probe"
    by (cases m) (simp_all add: load_simps split: sum.split)
  show "load T s tid (recheck_phase fault_in t m) < load T s tid Recheck"
    by (simp add: recheck_phase_def load_simps split: sum.split option.split)
  show "load T s tid (after_attempt l old g r att) \<le> 5 * T + 12 + detour s old"
    by (cases att) (simp_all add: load_simps)
qed

lemma claimed_load:
  "fst (thread_step C fault_in tid m (Claimed l old g r) s) = s"
  "load T s tid (snd (thread_step C fault_in tid m (Claimed l old g r) s)) < load T s tid (Claimed l old g r)"
  "fst (thread_step C fault_in tid m (Counted l old g cur) s) = s"
  "load T s tid (snd (thread_step C fault_in tid m (Counted l old g cur) s)) < load T s tid (Counted l old g cur)"
proof -
  have less: "load T s tid (after_attempt l old g r' att) < 5 * T + 13 + detour s old" for r' att
    using entry_load(4) [of T s tid l old g r' att] by simp
  show "load T s tid (snd (thread_step C fault_in tid m (Claimed l old g r) s)) < load T s tid (Claimed l old g r)"
    using less_trans [OF less lessI, of r "publish_attempt C fault_in m (pr_node old)"]
    by (cases m) (simp_all add: load_simps del: publish_attempt.simps)
  show "load T s tid (snd (thread_step C fault_in tid m (Counted l old g cur) s)) < load T s tid (Counted l old g cur)"
    by (cases m) (simp_all add: load_simps less split: option.split)
qed simp_all

lemma local_load:
  assumes st: "thread_step C fault_in tid m ph s = (u, ph')" and ph: "\<not> finished ph" "\<not> in_append True ph" "\<not> in_append False ph"
    and "\<not> (\<exists>l old g new delta r. ph = Ready l old g new delta r)"
  shows "live_root u = live_root s \<and> load T u tid ph' < load T s tid ph"
proof (cases ph)
  case Start
  then show ?thesis
    using st entry_load(1) [of T s tid "dm_policy s" "lockfree_cache (dm_trie s)" m] by auto
next
  case Probe
  then show ?thesis
    using st entry_load(2) [of T s tid C "dm_trie s" m] by auto
next
  case Recheck
  then show ?thesis
    using st entry_load(3) [of T s tid fault_in "dm_trie s" m] by auto
next
  case (Claimed l old g r)
  then show ?thesis
    using st claimed_load(1) [of C fault_in tid m l old g r s]
      claimed_load(2) [where T = T and s = s and tid = tid and C = C and fault_in = fault_in and m = m and l = l and old = old and g = g and r = r]
    by (simp del: thread_step.simps)
next
  case (Counted l old g cur)
  then show ?thesis
    using st claimed_load(3) [of C fault_in tid m l old g cur s]
      claimed_load(4) [where T = T and s = s and tid = tid and C = C and fault_in = fault_in and m = m and l = l and old = old and g = g and cur = cur]
    by (simp del: thread_step.simps)
next
  case (ToAppend r)
  then show ?thesis
    using st by (auto simp: load_simps steps_at_def start_append_def spawn_appender_def split: sum.splits)
next
  case (Burning l)
  then show ?thesis
    using st by (cases m) (auto simp: load_simps mark_lsn_def)
qed (use st ph assms(5) in \<open>auto simp: load_simps steps_at_def detour_def set_cache_def mark_lsn_def start_append_def spawn_appender_def
    split: if_splits\<close>)

lemma append_load:
  assumes calm: "calm s" and inv: "durable_inv C n S s" "n < 2 ^ 64 - 2" and a: "appender_at s i = Some a"
    and load: "\<And>u. load T u tid ph = k + steps_at u i" "\<And>l. load T s tid (fin l) < k"
    and st: "append_step i fin ph s = (u, ph')"
  shows "(u, ph') = (s, ph) \<and> (\<exists>l d. appender_at s i = Some (Waiting l d) \<and> durable_lsn (dm_wal s) < l)
    \<or> live_root u = live_root s \<and> load T u tid ph' < load T s tid ph"
  using calmD(2) [OF calm] calmD(3) [OF calm a] inv a
proof (cases rule: append_progress [where fin = fin and ph = ph])
  case (acked l d)
  then have "u = s" "ph' = fin l"
    using st by simp_all
  then show ?thesis
    using load(2) [of l] by (intro disjI2) (simp add: load(1))
next
  case (moved a')
  then have "u = s\<lparr> dm_wal := run_appender i (dm_wal s) \<rparr>" "ph' = ph"
    using st by simp_all
  then show ?thesis
    using moved(2,5) a by (intro disjI2) (simp add: load(1) steps_at_def)
next
  case (poll l d)
  then show ?thesis
    using st a by (intro disjI1) simp
qed

lemma swap_load:
  assumes "thread_step C fault_in tid m (Ready l old g new delta r) s = (u, ph')"
  shows "live_root u = live_root s \<and> load T u tid ph' < load T s tid (Ready l old g new delta r)
    \<or> load T u tid ph' + (5 * T + 1) < load T s tid (Ready l old g new delta r)"
proof (cases "compare_exchange_revision_counted (live_root s) old new delta")
  case None
  then show ?thesis
    using assms by (intro disjI1) (auto simp: load_simps)
next
  case (Some ws)
  obtain won slot where ws: "ws = (won, slot)"
    by (cases ws)
  have won: "won \<longleftrightarrow> pr_id old = pr_id (live_root s)"
    using Some ws by (auto simp: compare_exchange_revision_counted_def split: option.splits if_splits)
  show ?thesis
  proof (cases won)
    case True
    then have "ph' = Won l g r"
      using assms Some ws by simp
    then show ?thesis
      by (intro disjI2) (simp add: load_simps)
  next
    case False
    then have "u = s" "ph' = Pending l r"
      using assms Some ws by simp_all
    then show ?thesis
      using False won by (intro disjI1) (simp add: load_simps detour_def)
  qed
qed

text \<open>A thread that is not polling moves on or wins.\<close>

lemma own_load:
  assumes calm: "calm s" and inv: "durable_inv C n S s" "n < 2 ^ 64 - 2" and t: "dm_threads s tid = Some (m, ph)"
    and st: "thread_step C fault_in tid m ph s = (u, ph')" and ph: "\<not> finished ph"
  shows "(u, ph') = (s, ph) \<and> (\<exists>i l d. (i = 2 * tid \<or> i = Suc (2 * tid)) \<and> in_append (i = 2 * tid) ph
        \<and> appender_at s i = Some (Waiting l d) \<and> durable_lsn (dm_wal s) < l)
    \<or> live_root u = live_root s \<and> load T u tid ph' < load T s tid ph
    \<or> load T u tid ph' + (5 * T + 1) < load T s tid ph"
proof -
  have inv_ph: "phase_inv n S s tid m ph"
    using inv(1) t unfolding durable_inv_def by blast
  have wait: ?thesis
    if "(u, ph') = (s, ph) \<and> (\<exists>l d. appender_at s i = Some (Waiting l d) \<and> durable_lsn (dm_wal s) < l)
        \<or> live_root u = live_root s \<and> load T u tid ph' < load T s tid ph"
      "i = 2 * tid \<or> i = Suc (2 * tid)" "in_append (i = 2 * tid) ph" for i
    using that by blast
  show ?thesis
  proof (cases ph)
    case (Appending r)
    obtain a where a: "appender_at s (2 * tid) = Some a"
      using inv_ph unfolding Appending phase_inv.simps by blast
    have step: "append_step (2 * tid) (\<lambda>l. Pending l r) ph s = (u, ph')"
      using st unfolding Appending by (simp only: thread_step.simps)
    show ?thesis
      by (rule wait [OF append_load [OF calm inv a _ _ step, where k = "5 * T + 17"]]) (simp_all add: Appending load_simps)
  next
    case (Ranking l g r)
    obtain a where a: "appender_at s (Suc (2 * tid)) = Some a"
      using inv_ph unfolding Ranking phase_inv.simps Suc_eq_plus1 by blast
    have step: "append_step (Suc (2 * tid)) (\<lambda>rl. Ranked l rl g r) ph s = (u, ph')"
      using st unfolding Ranking by (simp only: thread_step.simps Suc_eq_plus1)
    show ?thesis
      by (rule wait [OF append_load [OF calm inv a _ _ step, where k = 4]]) (simp_all add: Ranking load_simps)
  next
    case (Ready l old g new delta r)
    show ?thesis
      using swap_load [OF st [unfolded Ready], of T] unfolding Ready by (rule disjI2)
  qed (intro disjI2 disjI1 local_load [OF st ph]; simp)+
qed

lemma sum_others:
  fixes f g :: "'a \<Rightarrow> nat"
  assumes "finite D" "\<And>t. t \<in> D - {x} \<Longrightarrow> g t \<le> f t + b"
  shows "sum g (D - {x}) \<le> sum f (D - {x}) + b * card D"
proof -
  have "sum g (D - {x}) \<le> (\<Sum>t\<in>D - {x}. f t + b)"
    using assms(2) by (rule sum_mono)
  also have "\<dots> = sum f (D - {x}) + b * card (D - {x})"
    by (simp add: sum.distrib)
  also have "\<dots> \<le> sum f (D - {x}) + b * card D"
    using card_mono [OF assms(1), of "D - {x}"] by simp
  finally show ?thesis .
qed

lemma potential_step:
  assumes calm: "calm s" and inv: "durable_inv C n S s" "n < 2 ^ 64 - 2" and t: "dm_threads s tid = Some (m, ph)" and ph: "\<not> finished ph"
  shows "run_thread C fault_in tid s = s \<and> (\<exists>i l d. (i = 2 * tid \<or> i = Suc (2 * tid)) \<and> in_append (i = 2 * tid) ph
        \<and> appender_at s i = Some (Waiting l d) \<and> durable_lsn (dm_wal s) < l)
    \<or> potential (run_thread C fault_in tid s) < potential s"
proof -
  obtain u ph' where st: "thread_step C fault_in tid m ph s = (u, ph')"
    by fastforce
  let ?D = "dom (dm_threads s)" and ?s' = "u\<lparr> dm_threads := (dm_threads s)(tid \<mapsto> (m, ph')) \<rparr>"
  let ?T = "card ?D"
  have run: "run_thread C fault_in tid s = ?s'"
    by (rule run_thread_eq [OF t st])
  have fin: "finite ?D" "tid \<in> ?D" and D': "dom (dm_threads ?s') = ?D"
    using calmD(1) [OF calm] t by auto
  have own: "thread_load s tid = load ?T s tid ph" "thread_load ?s' tid = load ?T u tid ph'"
    using t D' by (simp_all add: thread_load_def insert_absorb load_def)
      (cases ph'; simp add: steps_at_def detour_def)
  have split: "potential s = load ?T s tid ph + (\<Sum>t\<in>?D - {tid}. thread_load s t)"
      "potential ?s' = load ?T u tid ph' + (\<Sum>t\<in>?D - {tid}. thread_load ?s' t)"
    using sum.remove [OF fin, of "thread_load s"] sum.remove [OF fin, of "thread_load ?s'"] own
    unfolding potential_def D' by simp_all
  have others: "thread_load ?s' t \<le> thread_load s t + 5" "live_root u = live_root s \<Longrightarrow> thread_load ?s' t = thread_load s t"
    if "t \<noteq> tid" for t
  proof -
    have "i \<noteq> 2 * tid" "i \<noteq> Suc (2 * tid)" if "i = 2 * t \<or> i = Suc (2 * t)" for i
      using that \<open>t \<noteq> tid\<close> by presburger+
    then have "appender_at ?s' i = appender_at s i" if "i = 2 * t \<or> i = Suc (2 * t)" for i
      using step_frame(2) [OF st, of i] that by simp
    note frame = weight_frame [of t ?s' s ?T, OF this]
    show "thread_load ?s' t \<le> thread_load s t + 5"
      using frame(2) that D' by (simp add: thread_load_def split: option.split prod.split)
    show "thread_load ?s' t = thread_load s t" if "live_root u = live_root s"
      using frame(1) that \<open>t \<noteq> tid\<close> D' by (simp add: thread_load_def split: option.split prod.split)
  qed
  have le: "(\<Sum>t\<in>?D - {tid}. thread_load ?s' t) \<le> (\<Sum>t\<in>?D - {tid}. thread_load s t) + 5 * ?T"
    using others(1) by (intro sum_others [OF fin(1)]) simp
  have eq: "(\<Sum>t\<in>?D - {tid}. thread_load ?s' t) = (\<Sum>t\<in>?D - {tid}. thread_load s t)" if "live_root u = live_root s"
    using others(2) that by (intro sum.cong) simp_all
  have same: "?s' = s" if "(u, ph') = (s, ph)"
    using that t by (simp add: fun_upd_idem)
  from own_load [OF calm inv t st ph, of ?T] show ?thesis
    unfolding run split using same le eq by (elim disjE conjE) simp_all
qed

lemma run_thread_finished: "dm_threads s tid = Some (m, ph) \<Longrightarrow> finished ph \<Longrightarrow> run_thread C fault_in tid s = s"
  by (cases ph) (simp_all add: run_thread_def fun_upd_idem)

lemma run_thread_dom: "dom (dm_threads (run_thread C fault_in tid s)) = dom (dm_threads s)"
proof (cases "dm_threads s tid")
  case (Some mp)
  then show ?thesis
    by (cases mp) (auto simp: run_thread_def split: prod.splits)
qed (simp add: run_thread_def)

text \<open>The holder of the next LSN the frontier waits for is not waiting.\<close>

lemma frontier_holder:
  assumes lsn: "lsn_inv w" and i: "sm_appenders w i = Some (Waiting l d)" "durable_lsn w < l"
  shows "\<exists>j a. sm_appenders w j = Some a \<and> unfinished_append a \<and> \<not> is_durable a"
proof -
  have "l < next_lsn w"
    using held_lsn [OF lsn, of i l] i(1) by (simp add: of_appender_def)
  moreover have "durable_lsn w + 1 \<le> l" "0 < durable_lsn w + 1"
    using i(2) le_less_trans [OF word_zero_le word_less_succ [OF i(2)]] by (simp_all add: inc_le)
  ultimately have "durable_lsn w + 1 \<in> ran (of_appender lsn_of w)"
    using lsn unfolding lsn_inv_def by auto
  then obtain j a where a: "sm_appenders w j = Some a" "lsn_of a = Some (durable_lsn w + 1)"
    by (auto simp: ran_def of_appender_def bind_eq_Some_conv)
  have seg: "segment_inv 0 (ran (of_appender durable_entry w)) (sw_writer (sm_writer w))"
    using lsn unfolding lsn_inv_def by blast
  have "\<not> is_durable a"
  proof
    assume "is_durable a"
    then have "durable_lsn w + 1 \<in> ran (of_appender durable_entry w)"
      using a by (intro ranI [where a = j]) (simp add: of_appender_def durable_entry_def)
    then show False
      using seg word_less_succ [OF i(2)] unfolding segment_inv_def by blast
  qed
  then show ?thesis
    using a by (intro exI [of _ j] exI [of _ a]) (cases a; simp)
qed

lemma appender_thread:
  assumes calm: "calm s" and a: "appender_at s j = Some a" "unfinished_append a"
  obtains t m ph where "j = 2 * t \<or> j = Suc (2 * t)" "dm_threads s t = Some (m, ph)" "in_append (j = 2 * t) ph"
proof (cases "even j")
  case True
  then obtain t where "j = 2 * t"
    by (elim evenE)
  then show ?thesis
    using that [of t] calmD(4) [OF calm _ a(2), of t] a(1) by auto
next
  case False
  then obtain t where t: "j = Suc (2 * t)"
    by (elim oddE) simp
  then have "j \<noteq> 2 * t"
    by simp
  then show ?thesis
    using that [of t] calmD(5) [OF calm _ a(2), of t] a(1) t by auto
qed

lemma some_thread_moves:
  assumes calm: "calm s" and inv: "durable_inv C n S s" "n < 2 ^ 64 - 2"
    and t: "dm_threads s tid = Some (m, ph)" "\<not> finished ph"
  shows "\<exists>tid. dm_threads s tid \<noteq> None \<and> run_thread C fault_in tid s \<noteq> s"
proof (rule ccontr)
  assume stuck: "\<not> ?thesis"
  have still: "run_thread C fault_in tid s = s" for tid
  proof (cases "dm_threads s tid")
    case None
    then show ?thesis
      by (simp add: run_thread_def)
  qed (use stuck in auto)
  have poll: "\<exists>i l d. (i = 2 * tid \<or> i = Suc (2 * tid)) \<and> in_append (i = 2 * tid) ph
      \<and> appender_at s i = Some (Waiting l d) \<and> durable_lsn (dm_wal s) < l"
    if "dm_threads s tid = Some (m, ph)" "\<not> finished ph" for tid m ph
    using potential_step [OF calm inv that, of fault_in] by (simp add: still)
  have lsn: "lsn_inv (dm_wal s)"
    using inv(1) unfolding durable_inv_def log_inv_def by blast
  then obtain j a where a: "appender_at s j = Some a" "unfinished_append a" "\<not> is_durable a"
    using poll [OF t] frontier_holder [OF lsn] by blast
  obtain t m ph where t: "j = 2 * t \<or> j = Suc (2 * t)" "dm_threads s t = Some (m, ph)" "in_append (j = 2 * t) ph"
    using appender_thread [OF calm a(1,2)] by blast
  have "\<not> finished ph"
    using t(3) by (cases ph) simp_all
  then obtain i l d where i: "i = 2 * t \<or> i = Suc (2 * t)" "in_append (i = 2 * t) ph" "appender_at s i = Some (Waiting l d)"
    using poll t(2) by blast
  have "i = j"
    using t(1,3) i(1,2) by (cases ph) auto
  then show False
    using i(3) a(1,3) by simp
qed

subsection \<open>Fair schedules\<close>

lemma calm_run_calm:
  assumes "calm_run C fault_in n s" "n < 2 ^ 64 - 2" "codec_ok C" "loader_ok u8_label fault_in"
  shows "calm s"
  using assms(1,2)
proof (induction rule: calm_run.induct)
  case (init policy)
  show ?case
    by (simp add: calm_def durable_init_def segment_init_def)
next
  case (spawn n s tid m)
  then have calm: "calm s" by simp
  have "finite (dom ((dm_threads s)(tid \<mapsto> (m, Start))))"
    using calmD(1) [OF calm] by simp
  moreover have "tid' \<noteq> tid" if "appender_at s i = Some a" "unfinished_append a" "i = 2 * tid' \<or> i = Suc (2 * tid')" for i a tid'
    using that calmD(4,5) [OF calm, of tid' a] spawn.hyps(2) by auto
  ultimately show ?case
    using calmD(2-5) [OF calm] unfolding calm_def spawn_thread_def by auto
next
  case (run n s tid)
  then obtain S where "durable_inv C n S s"
    using durable_run_inv [OF calm_run_durable [OF run.hyps(1)] _ assms(3,4)] by auto
  then show ?case
    using calm_run_thread run by auto
next
  case (set_policy n s policy)
  then show ?case
    by (simp add: calm_def set_durability_policy_def)
next
  case (sync_error n s tid m ph i lsn r)
  then have calm: "calm s" by simp
  have "finite (dom ((dm_threads s)(tid \<mapsto> (m, Errored (IoError ''WAL'')))))"
    using calmD(1) [OF calm] by simp
  moreover have "tid' \<noteq> tid" if "appender_at s j = Some a" "unfinished_append a"
      "j = 2 * tid' \<and> in_append True ph \<or> j = Suc (2 * tid') \<and> in_append False ph" for j a tid'
    using that sync_error.hyps(3,4) by (cases ph) auto
  ultimately show ?case
    using calmD(2-5) [OF calm] sync_error.hyps(2) unfolding calm_def fail_sync_def by fastforce
qed

text \<open>Every thread of the state gets a turn again and again.\<close>

definition fair :: "durable_machine \<Rightarrow> (nat \<Rightarrow> nat) \<Rightarrow> bool" where
  "fair s \<sigma> \<longleftrightarrow> (\<forall>tid\<in>dom (dm_threads s). \<forall>k. \<exists>j\<ge>k. \<sigma> j = tid)"

definition all_finished :: "durable_machine \<Rightarrow> bool" where
  "all_finished s \<longleftrightarrow> (\<forall>tid m ph. dm_threads s tid = Some (m, ph) \<longrightarrow> (\<exists>r c. ph = Returned r c) \<or> (\<exists>e. ph = Errored e))"

definition scheduled :: "u64 value_codec \<Rightarrow> (u8, u64) fault_in \<Rightarrow> (nat \<Rightarrow> nat) \<Rightarrow> nat \<Rightarrow> durable_machine \<Rightarrow> durable_machine" where
  "scheduled C fault_in \<sigma> k s = fold (run_thread C fault_in) (map \<sigma> [0..<k]) s"

lemma fold_still: "(\<And>x. x \<in> set xs \<Longrightarrow> f x s = s) \<Longrightarrow> fold f xs s = s"
  by (induction xs) simp_all

lemma scheduled_split:
  assumes "\<And>i. i < j \<Longrightarrow> run_thread C fault_in (\<sigma> i) s = s"
  shows "scheduled C fault_in \<sigma> (Suc j + k) s = scheduled C fault_in (\<lambda>i. \<sigma> (i + Suc j)) k (run_thread C fault_in (\<sigma> j) s)"
proof -
  have "map \<sigma> [0..<Suc j + k] = map \<sigma> [0..<j] @ \<sigma> j # map (\<lambda>i. \<sigma> (i + Suc j)) [0..<k]"
    by (rule nth_equalityI) (auto simp: nth_append nth_Cons' algebra_simps simp del: upt_Suc)
  moreover have "fold (run_thread C fault_in) (map \<sigma> [0..<j]) s = s"
    using assms by (intro fold_still) auto
  ultimately show ?thesis
    by (simp add: scheduled_def)
qed

lemma fair_finishes:
  assumes "calm s" "durable_inv C n S s" "n + potential s < 2 ^ 64 - 2" "codec_ok C" "loader_ok u8_label fault_in" "fair s \<sigma>"
  shows "\<exists>k. all_finished (scheduled C fault_in \<sigma> k s)"
  using assms(1-3,6)
proof (induction "potential s" arbitrary: s n S \<sigma> rule: less_induct)
  case less
  show ?case
  proof (cases "all_finished s")
    case True
    then show ?thesis
      by (intro exI [of _ 0]) (simp add: scheduled_def)
  next
    case False
    have n: "n < 2 ^ 64 - 2"
      using less.prems(3) by simp
    obtain tid m ph where t: "dm_threads s tid = Some (m, ph)" "\<not> (\<exists>r c. ph = Returned r c)" "\<not> (\<exists>e. ph = Errored e)"
      using False unfolding all_finished_def by blast
    have "phase_inv n S s tid m ph"
      using less.prems(2) t(1) unfolding durable_inv_def by blast
    then have "\<not> finished ph"
      using t(2,3) by (cases ph) auto
    then obtain mover where "dm_threads s mover \<noteq> None" "run_thread C fault_in mover s \<noteq> s"
      using some_thread_moves [OF less.prems(1,2) n t(1)] by blast
    moreover from this(1) obtain i where "\<sigma> i = mover"
      using less.prems(4) unfolding fair_def by blast
    ultimately have ex: "\<exists>i. run_thread C fault_in (\<sigma> i) s \<noteq> s"
      by blast
    define j where "j = (LEAST i. run_thread C fault_in (\<sigma> i) s \<noteq> s)"
    let ?s' = "run_thread C fault_in (\<sigma> j) s"
    have moves: "?s' \<noteq> s" and still: "\<And>i. i < j \<Longrightarrow> run_thread C fault_in (\<sigma> i) s = s"
      using LeastI_ex [OF ex] not_less_Least [of _ "\<lambda>i. run_thread C fault_in (\<sigma> i) s \<noteq> s"] unfolding j_def by blast+
    obtain m' ph' where t': "dm_threads s (\<sigma> j) = Some (m', ph')"
      using moves by (cases "dm_threads s (\<sigma> j)") (auto simp: run_thread_def)
    have pot: "potential ?s' < potential s"
      using potential_step [OF less.prems(1,2) n t', of fault_in] run_thread_finished [OF t'] moves by blast
    obtain S' where inv: "durable_inv C (Suc n) S' ?s'"
      using inv_run_thread [OF less.prems(2) n assms(4,5)] by blast
    have "fair ?s' (\<lambda>i. \<sigma> (i + Suc j))"
      unfolding fair_def run_thread_dom
    proof (intro ballI allI)
      fix x k
      assume "x \<in> dom (dm_threads s)"
      then obtain i where "i \<ge> k + Suc j" "\<sigma> i = x"
        using less.prems(4) unfolding fair_def by blast
      then show "\<exists>i\<ge>k. \<sigma> (i + Suc j) = x"
        by (intro exI [of _ "i - Suc j"]) simp
    qed
    then obtain k where "all_finished (scheduled C fault_in (\<lambda>i. \<sigma> (i + Suc j)) k ?s')"
      using less.hyps [OF pot calm_run_thread [OF less.prems(1,2) n] inv] pot less.prems(3) by auto
    then show ?thesis
      using scheduled_split [of j C fault_in \<sigma> s k] still by metis
  qed
qed

text \<open>
  C3: Every operation returns.  Take any interleaving of durable operations in
  which no write of the log fails, and from there any schedule that keeps giving
  each thread a turn.  After finitely many steps every operation has returned
  its answer or its error: retries after lost compare-and-swaps and waits for
  the durable frontier end.  The bound says that the 64-bit counters have room
  for the steps that remain.
\<close>

theorem fair_schedule_finishes_all:
  assumes "calm_run C fault_in n s" "n + potential s < 2 ^ 64 - 2" "codec_ok C" "loader_ok u8_label fault_in" "fair s \<sigma>"
  shows "\<exists>k. all_finished (scheduled C fault_in \<sigma> k s)"
proof -
  have n: "n < 2 ^ 64 - 2"
    using assms(2) by simp
  obtain S where "durable_inv C n S s"
    using durable_run_inv [OF calm_run_durable [OF assms(1)] n assms(3,4)] by blast
  then show ?thesis
    using fair_finishes calm_run_calm [OF assms(1) n assms(3,4)] assms(2-5) by blast
qed

theorem fair_schedule_finishes_all_witness:
  "\<exists>k. all_finished (scheduled u64_codec (\<lambda>_. Err (IoError ''unreachable'')) (\<lambda>i. i mod 2) k
     (spawn_thread 1 (MRemove [97]) (spawn_thread 0 (MInsert [97]) (durable_init Immediate))))"
proof (rule fair_schedule_finishes_all [where n = 2])
  let ?s = "spawn_thread 1 (MRemove [97]) (spawn_thread 0 (MInsert [97]) (durable_init Immediate))"
  show "calm_run u64_codec no_disk 2 ?s"
    unfolding numeral_2_eq_2 by (intro calm_run.intros) (simp_all add: spawn_thread_def durable_init_def)
  have "dom (dm_threads ?s) = {0, 1}"
    by (auto simp: spawn_thread_def durable_init_def split: if_splits)
  then show "2 + potential ?s < 2 ^ 64 - 2"
    by (simp add: potential_def thread_load_def load_def spawn_thread_def)
  have "\<exists>j\<ge>k. j mod 2 = (tid :: nat)" if "tid < 2" for tid k
    using that by (intro exI [of _ "2 * k + tid"]) simp
  then show "fair ?s (\<lambda>i. i mod 2)"
    using \<open>dom (dm_threads ?s) = {0, 1}\<close> by (simp add: fair_def)
qed (simp_all add: codec_ok_def u64_codec_def loader_ok_def)

lemma returned_lsn_marked:
  assumes inv: "durable_inv C n S s" and fin: "\<forall>tid m ph. dm_threads s tid = Some (m, ph) \<longrightarrow> (\<exists>r c. ph = Returned r c)"
    and l: "of_appender lsn_of (dm_wal s) i = Some l"
  shows "l \<in> S"
proof -
  obtain t where t: "i = 2 * t \<or> i = Suc (2 * t)"
    using oddE [of i] evenE [of i] by (metis Suc_eq_plus1)
  obtain a where a: "appender_at s i = Some a" "lsn_of a = Some l"
    using l by (auto simp: of_appender_def bind_eq_Some_conv)
  have held: "x = l" if "appender_at s i = Some (Acked x d)" for x d
    using that a by simp
  have "log_inv C s"
    using inv unfolding durable_inv_def by blast
  then obtain m where "owner s t = Some m"
    using log_invD(4) [of C s t a] log_invD(5) [of C s t a] t a(1) by (elim disjE) auto
  then obtain ph where "dm_threads s t = Some (m, ph)"
    unfolding owner_def by (cases "dm_threads s t") auto
  then obtain r c where "dm_threads s t = Some (m, Returned r c)"
    using fin by blast
  then have ph: "phase_inv n S s t m (Returned r c)"
    using inv unfolding durable_inv_def by blast
  show ?thesis
  proof (cases c)
    case None
    have "appender_at s (2 * t) \<noteq> None \<or> appender_at s (2 * t + 1) \<noteq> None"
      using t a(1) by (elim disjE) simp_all
    then obtain l' where "l' \<in> S" "waiting_at s t l'"
      using ph unfolding None phase_inv.simps by auto
    then show ?thesis
      using t held a(1) unfolding waiting_at_def data_at_def Suc_eq_plus1 by (metis option.distinct(1))
  next
    case (Some gl)
    obtain g l' where gl: "gl = (g, l')"
      by (cases gl)
    obtain rl where "l' \<in> S" "rl \<in> S" "data_at s t l'" "rank_at s t rl l' g"
      using ph unfolding Some gl phase_inv.simps by blast
    moreover obtain d where "appender_at s (2 * t) = Some (Acked l' d)"
      using calculation(3) unfolding data_at_def by blast
    moreover obtain k where "appender_at s (Suc (2 * t)) = Some (Acked rl (CommitRank l' k g))"
      using calculation(4) unfolding rank_at_def Suc_eq_plus1 by blast
    ultimately show ?thesis
      using t held [of l' d] held [of rl "CommitRank l' k g"] by blast
  qed
qed

text \<open>
  C4: The watermark catches up.  In any interleaving, once every operation that
  was started has returned an answer, the committed watermark is the last LSN of
  the log, so a checkpoint taken then covers every record.
\<close>

theorem watermark_reaches_log_end:
  assumes "durable_run C fault_in n s" "n < 2 ^ 64 - 2" "codec_ok C" "loader_ok u8_label fault_in"
    and "\<forall>tid m ph. dm_threads s tid = Some (m, ph) \<longrightarrow> (\<exists>r c. ph = Returned r c)"
  shows "watermark (dm_watermark s) + 1 = next_lsn (dm_wal s)"
proof -
  obtain S where inv: "durable_inv C n S s"
    using durable_run_inv [OF assms(1-4)] by blast
  let ?N = "next_lsn (dm_wal s)" and ?c = "contiguous (dm_watermark s)"
  have "log_inv C s" and counters: "counters_inv n S s"
    using inv unfolding durable_inv_def by blast+
  then have lsn: "lsn_inv (dm_wal s)"
    by (simp add: log_inv_def)
  have parts: "watermark_inv 0 S (dm_watermark s)" "S \<subseteq> {0<..<?N}"
    using counters unfolding counters_inv_def by simp_all
  have lsns: "ran (of_appender lsn_of (dm_wal s)) = {0<..<?N}" and "0 < ?N"
    using lsn unfolding lsn_inv_def by simp_all
  have "ran (of_appender lsn_of (dm_wal s)) \<subseteq> S"
    unfolding ran_def using returned_lsn_marked [OF inv assms(5)] by blast
  then have S: "S = {0<..<?N}"
    using parts(2) unfolding lsns by (rule equalityI [rotated])
  have "?c < ?N"
  proof (cases "?c = 0")
    case False
    then have "?c \<in> {0<..?c}"
      by (simp add: word_gt_0)
    moreover have "{0<..?c} \<subseteq> {0<..<?N}"
      using parts(1) unfolding S watermark_inv_def by (elim conjE)
    ultimately have "?c \<in> {0<..<?N}"
      by (rule rev_subsetD)
    then show ?thesis
      by simp
  qed (use \<open>0 < ?N\<close> in simp)
  from inc_le [OF this] word_less_succ [OF this] have le: "?c + 1 \<le> ?N" and gt: "?c < ?c + 1"
    by simp_all
  have "pending (dm_watermark s) = {l \<in> S. ?c < l}" "?c + 1 \<notin> pending (dm_watermark s)"
    using parts(1) unfolding watermark_inv_def by blast+
  then have "\<not> ?c + 1 < ?N"
    using gt le_less_trans [OF word_zero_le gt] unfolding S by simp
  then show ?thesis
    using le by (simp add: watermark_def)
qed

theorem watermark_reaches_log_end_witness:
  "\<exists>s. durable_run u64_codec (\<lambda>_. Err (IoError ''unreachable'')) 23 s
    \<and> dm_threads s = [0 \<mapsto> (MInsert [97], Returned (RBool True) (Some (1, 1)))] \<and> watermark (dm_watermark s) = 2"
proof -
  obtain s where s: "durable_run u64_codec no_disk 23 s" "next_lsn (dm_wal s) = 3"
      "dm_threads s = [0 \<mapsto> (MInsert [97], Returned (RBool True) (Some (1, 1)))]"
    using solo_insert [of "[97]"] by blast
  have "\<forall>tid m ph. dm_threads s tid = Some (m, ph) \<longrightarrow> (\<exists>r c. ph = Returned r c)"
    by (auto simp: s(3) split: if_splits)
  moreover have "(23 :: nat) < 2 ^ 64 - 2"
    by simp
  ultimately have "watermark (dm_watermark s) + 1 = 3"
    using watermark_reaches_log_end [OF s(1) _ codec_ok_u64 loader_ok_no_disk] s(2) by metis
  then have "watermark (dm_watermark s) + 1 = 2 + 1"
    by simp
  then have "watermark (dm_watermark s) = 2"
    by (rule add_right_imp_eq)
  with s(1,3) show ?thesis
    by blast
qed

end
