(* ===== verification/Spec2Isabelle.thy ===== *)
theory Spec2Isabelle
  imports Prelude Committed_Watermark Compact_Encoding Wal_Codec Wal_Frame Edge_Store Swizzled_Ptr Overlay_Node
    Cas_Walk Recovery Counter_Codec Overlay_Publish Wal_Segment
    Wal_Crash Wal_Lsn Durable_Write Durable_Protocol Durable_Recovery Durable_Runs Durable_Progress
begin

text \<open>
  Verification of the persistent adaptive radix trie of libdictenstein, byte keys
  (\<open>src/src/persistent_artrie\<close>).

  \<^bold>\<open>The program and its parts.\<close>  A dictionary lives in memory as an immutable tree,
  the overlay, whose root is replaced by compare-and-swap.  A node holds its
  children in an adaptive edge store; a child slot owns a node or refers to a
  record on disk through a packed pointer.  A durable operation appends a data
  record to the write-ahead log, publishes a new root, appends a commit rank with
  the generation of the publication, and marks both LSNs in the committed
  watermark.  After a crash the log is read, reconciled by generation and replayed
  into a fresh overlay.

  \<^bold>\<open>Theories, the code they model, and what they show.\<close>

  \<^item> \<open>Prelude\<close>: results, little-endian bytes, lemmas on lists and words.
  \<^item> \<open>Committed_Watermark\<close> (\<open>core/committed_watermark.rs\<close>): the watermark is the end
    of the longest gap-free run of committed LSNs, in any order of calls.  The locale
    \<open>contiguous_frontier\<close> is interpreted here and for the durable frontier of the log.
  \<^item> \<open>Compact_Encoding\<close> (\<open>core/compact_encoding.rs\<close>): varints, fixed-width values and
    the node codec; round trips, and the branchless reader against the plain one.
  \<^item> \<open>Wal_Codec\<close> (\<open>core/wal/codec.rs\<close>): the fifteen record kinds; round trip and
    rejection of torn payloads.
  \<^item> \<open>Wal_Frame\<close> (\<open>core/wal.rs\<close>, \<open>wal/header.rs\<close>, \<open>wal/reader.rs\<close>, \<open>wal/writer.rs\<close>):
    CRC frames, header, reader, LSN allocation and the durable frontier; every byte
    prefix of a log reads as its complete frames, acknowledgement implies a gap-free
    durable prefix.
  \<^item> \<open>Wal_Segment\<close> and \<open>Wal_Lsn\<close> (\<open>append_record_segment\<close> of \<open>wal/writer.rs\<close>): any
    number of appenders interleaved at their atomic accesses, with failing writes;
    what the file reads back as, which LSN is held by whom, and an interleaving in
    which an acknowledged record lies behind a hole.
  \<^item> \<open>Wal_Crash\<close>: the file of such a run cut after any byte reads as its leading
    completely written frames.
  \<^item> \<open>Edge_Store\<close> (\<open>core/adaptive_edge_store.rs\<close>): all tiers of the store are one
    finite map, for every label type.  The laws are the locale \<open>edge_map\<close>; the size of
    the map determines the tier, and equal maps have equal stores.
  \<^item> \<open>Swizzled_Ptr\<close> (\<open>core/swizzled_ptr.rs\<close>, \<open>core/arena_slot.rs\<close>): the packed pointer,
    its round trips, and the handover of ownership between concurrent swizzle and
    unswizzle calls.
  \<^item> \<open>Overlay_Node\<close> (\<open>core/overlay/node.rs\<close>): the immutable node and its operations.
  \<^item> \<open>Cas_Walk\<close> (\<open>core/overlay/cas_walk.rs\<close>, \<open>lockfree_cas.rs\<close>, \<open>overlay_fault.rs\<close>):
    descent, loading of evicted nodes and path copies; each path copy updates the
    map of the tree at one key, and the reads compute that map.
  \<^item> \<open>Counter_Codec\<close> (\<open>core/counter_codec.rs\<close>): exact counter addition and chunking.
  \<^item> \<open>Recovery\<close> (\<open>core/recovery.rs\<close>): analysis, redo, batched recovery, reconciliation
    by generation; recovery of a cut log is transactional and delivers in commit
    order, batched recovery agrees with one-shot recovery unless transactions
    interleave, and a log without ranks keeps its Owned records in order.
  \<^item> \<open>Overlay_Publish\<close> (\<open>core/overlay/flip.rs\<close>, \<open>overlay_write_mode.rs\<close>,
    \<open>overlay/atomic_ptr.rs\<close>): publication without log and replay of recovered
    operations, which refines updating a map; an operation that cannot be applied is
    skipped.
  \<^item> \<open>Durable_Write\<close> (\<open>core/overlay/durable_write.rs\<close>, \<open>drive_cas\<close> of \<open>cas_walk.rs\<close>,
    \<open>lockfree_cas.rs\<close>, \<open>overlay_write_mode.rs\<close>, \<open>persistence_api.rs\<close>): the durable
    operations as programs of shared accesses; \<open>durable_step\<close> interleaves any number
    of them over one trie, generation counter, log and watermark, with failing writes,
    failing syncs and changes of the durability policy.
  \<^item> \<open>Durable_Protocol\<close>: the invariant of these runs, one lemma for each kind of step.
  \<^item> \<open>Durable_Recovery\<close>: reopening the log of such a run replays exactly the ranked
    publications, increments of the empty key apart, or is refused when LSN 1 is missing.
  \<^item> \<open>Durable_Runs\<close>: well-formedness of all states, crash and acknowledgement theorems,
    and four executions that show what the protocol does not promise.
  \<^item> \<open>Durable_Progress\<close>: a potential that every step but a poll decreases; fair
    schedules finish all operations, and the watermark then covers the log.

  \<^bold>\<open>How the composition reads.\<close>  The map of a tree (\<open>term_map\<close>, \<open>trie_map\<close>) is the
  abstract state.  \<open>Cas_Walk\<close> shows that one path copy updates it at one key,
  \<open>Durable_Protocol\<close> that the live map is the fold of the published operations, and
  \<open>Durable_Recovery\<close> that reading the log cut anywhere rebuilds the fold of those
  whose rank was read.

  \<^bold>\<open>Parameters and bounds.\<close>  The value codec (bincode) and the loader of evicted nodes
  are arguments; \<open>codec_ok\<close> and \<open>loader_ok\<close> state what the code relies on, and the
  witnesses instantiate them with \<open>u64_codec\<close> and a loader that is never called.
  LSNs, generations and counts are 64-bit words.  The theorems on runs assume fewer
  than \<open>2 ^ 64 - 2\<close> steps, so no counter wraps.  Loops of the code are recursive
  functions with termination proofs; loops that wait for other threads are single
  polls of a step relation, and their termination is the progress theorem.

  \<^bold>\<open>Abstractions.\<close>  Reference counts, epochs and the memory of replaced nodes are left to
  the allocator.  The lookup cache is a set of keys.  Tries in the protocol theories
  hold \<open>u64\<close> values with all nodes in memory, so that loading never republishes the
  root.  Messages of errors are abbreviated where no caller reads them.  A crash
  keeps the bytes whose positional write returned, up to any cut, and reads holes as
  zero.  A positional write and its \<open>sync_data\<close> are one step, and a failed write leaves
  the file as it was.  A file is read by \<open>read_records\<close>, the loop shared by the scans of
  \<open>recovery.rs\<close>, which stops at the first record that does not decode.
  \<open>reopen\<close> is the Overlay path of \<open>open\<close> without a checkpoint image.

  \<^bold>\<open>Not modelled.\<close>  Checkpoint images, eviction, arenas, the buffer and disk managers
  and io_uring are bound to file contents and kernel calls that the theorems treat
  as the loader and the log file.  The character, vocabulary and \<open>u64\<close> variants of the
  trie repeat the modelled algorithms over other units.  The other dictionaries of
  the library (double-array trie, DAWG, suffix automaton, SCDAWG, path map), the
  zippers over them, the serialisation formats and the language bindings are
  separate programs that share no state with the persistent trie.
\<close>

end
